(* ===== verification/Cros_Prelude.thy ===== *)
theory Cros_Prelude
  imports Main "HOL-Library.Word" "HOL-Library.Monad_Syntax"
begin

text \<open>
  Shared material of the development: the machine types of the kernel (an LP64 AArch64
  target: \<open>unsigned long\<close> and pointers have 64 bits, \<open>unsigned int\<close> has 32), the status
  codes of \<^verbatim>\<open>include/types/status.h\<close>, and the generic facts on words, lists and pointer
  chains the component theories rewrite with.

  Code whose C++ behaviour is undefined (a null dereference, a read or write outside an
  array) is modelled by the value \<open>None\<close> of an \<open>option\<close>; a lemma that an operation returns
  \<open>Some\<close> therefore includes that the operation is memory safe.
\<close>

unbundle bit_operations_syntax

section \<open>Machine types\<close>

type_synonym u8 = "8 word"
type_synonym u16 = "16 word"
type_synonym u32 = "32 word"
type_synonym u64 = "64 word"
type_synonym physaddr_t = u64
type_synonym pid_t = u32

section \<open>Status codes\<close>

datatype error_t = ENONE | EUNKNOWN | ENOSYS | EEOF | ENOFILE | ENOMEM
  | EINVAL | EIO | EEXISTS | EPIPE | EFULL

fun error_value :: "error_t \<Rightarrow> int" where
  "error_value ENONE = 0"
| "error_value EUNKNOWN = -1"
| "error_value ENOSYS = -2"
| "error_value EEOF = -3"
| "error_value ENOFILE = -4"
| "error_value ENOMEM = -5"
| "error_value EINVAL = -6"
| "error_value EIO = -7"
| "error_value EEXISTS = -8"
| "error_value EPIPE = -9"
| "error_value EFULL = -10"

lemma error_value_inject [simp]: "error_value a = error_value b \<longleftrightarrow> a = b"
  by (cases a; cases b) simp_all

lemma error_value_nonpos [simp]: "error_value e \<le> 0"
  by (cases e) simp_all

lemma error_value_neg: "e \<noteq> ENONE \<Longrightarrow> error_value e < 0"
  by (cases e) simp_all

section \<open>Collections of facts\<close>

named_theorems word_nat \<open>conversion of word operations to natural numbers\<close>
named_theorems inv_intros \<open>preservation of the invariants of the components\<close>

section \<open>Options\<close>

lemma bind_Some_map: "Option.bind m (\<lambda>(x, y). Some (f x y)) = map_option (\<lambda>(x, y). f x y) m"
  by (cases m) auto

section \<open>Lists\<close>

definition first_of :: "'a list \<Rightarrow> 'a option" where
  "first_of xs = (case xs of [] \<Rightarrow> None | x # _ \<Rightarrow> Some x)"

lemma first_of_simps [simp]: "first_of [] = None" "first_of (x # xs) = Some x"
  by (simp_all add: first_of_def)

section \<open>Words\<close>

lemma unat_add_no_wrap [word_nat]:
  fixes a b :: "'a::len word"
  assumes "unat a + unat b < 2 ^ LENGTH('a)"
  shows "unat (a + b) = unat a + unat b"
  using assms by (simp add: unat_word_ariths)

lemma unat_sub_no_wrap [word_nat]:
  fixes a b :: "'a::len word"
  assumes "unat b \<le> unat a"
  shows "unat (a - b) = unat a - unat b"
  using assms by (simp add: unat_sub word_le_nat_alt)

lemma unat_mult_no_wrap [word_nat]:
  fixes a b :: "'a::len word"
  assumes "unat a * unat b < 2 ^ LENGTH('a)"
  shows "unat (a * b) = unat a * unat b"
  using assms by (simp add: unat_word_ariths)

lemma unat_of_nat_no_wrap [word_nat]:
  assumes "n < 2 ^ LENGTH('a)"
  shows "unat (of_nat n :: 'a::len word) = n"
  using assms by (simp add: unat_of_nat)

lemma unat_pow2 [word_nat]:
  assumes "k < LENGTH('a)"
  shows "unat (2 ^ k :: 'a::len word) = 2 ^ k"
proof -
  have "(2 ^ k :: 'a word) = of_nat (2 ^ k)" by simp
  moreover have "(2::nat) ^ k < 2 ^ LENGTH('a)" using assms by simp
  ultimately show ?thesis by (metis unat_of_nat_no_wrap)
qed

lemma nat_bit_ge: "bit (n::nat) k \<Longrightarrow> 2 ^ k \<le> n"
proof -
  assume "bit n k"
  then have "odd (n div 2 ^ k)" by (simp add: bit_iff_odd)
  then have "n div 2 ^ k \<noteq> 0" by (metis even_zero)
  then show ?thesis by (meson div_less not_less)
qed

lemma unat_bit_ge: "bit (w::'a::len word) k \<Longrightarrow> 2 ^ k \<le> unat w"
  by (rule nat_bit_ge) (simp add: bit_unsigned_iff bit_imp_le_length)

lemma unat_less_if_high_bits_clear:
  fixes w :: "'a::len word"
  assumes "\<And>i. n \<le> i \<Longrightarrow> \<not> bit w i"
  shows "unat w < 2 ^ n"
proof -
  have "take_bit n w = w"
    by (rule bit_word_eqI) (use assms not_le in \<open>auto simp: bit_take_bit_iff\<close>)
  then have "take_bit n (unat w) = unat w"
    by (metis unsigned_take_bit_eq)
  then show ?thesis by (metis take_bit_nat_less_exp)
qed

lemma unat_suc:
  fixes a :: "'a::len word"
  assumes "unat a + 1 < 2 ^ LENGTH('a)"
  shows "unat (a + 1) = unat a + 1"
proof -
  have "unat (1 :: 'a word) = 1" by simp
  then show ?thesis using unat_add_no_wrap[of a 1] assms by simp
qed

lemma unat_add_of_nat:
  fixes a :: "'a::len word"
  assumes "unat a + n < 2 ^ LENGTH('a)"
  shows "unat (a + of_nat n) = unat a + n"
  using assms by (simp add: unat_word_ariths unat_of_nat)

lemma unat_sub_of_nat:
  fixes a :: "'a::len word"
  assumes "n \<le> unat a"
  shows "unat (a - of_nat n) = unat a - n"
proof -
  have "n < 2 ^ LENGTH('a)" using assms unsigned_less[of a, where ?'a = nat] by linarith
  then show ?thesis using assms unat_sub_no_wrap[of "of_nat n" a] by (simp add: unat_of_nat_no_wrap)
qed

section \<open>Little-endian encoding\<close>

text \<open>The bytes of a word in memory order, and the word they are read back as.\<close>

primrec le_bytes :: "nat \<Rightarrow> 'a::len word \<Rightarrow> u8 list" where
  "le_bytes 0 v = []"
| "le_bytes (Suc n) v = ucast v # le_bytes n (drop_bit 8 v)"

primrec le_word :: "u8 list \<Rightarrow> 'a::len word" where
  "le_word [] = 0"
| "le_word (b # bs) = ucast b OR push_bit 8 (le_word bs)"

lemma length_le_bytes [simp]: "length (le_bytes n v) = n"
  by (induction n arbitrary: v) simp_all

lemma bit_le_word:
  "bit (le_word bs :: 'a::len word) i \<longleftrightarrow> i < LENGTH('a) \<and> i < 8 * length bs \<and> bit (bs ! (i div 8)) (i mod 8)"
proof (induction bs arbitrary: i)
  case (Cons b bs)
  show ?case
  proof (cases "i < 8")
    case True
    then show ?thesis using bit_imp_le_length[of "le_word (b # bs) :: 'a word" i]
      by (auto simp: bit_simps)
  next
    case False
    have e: "(i - 8) div 8 = i div 8 - 1" "(i - 8) mod 8 = i mod 8" "i div 8 \<noteq> 0"
      using False by (auto simp: le_div_geq le_mod_geq)
    have nb: "\<not> bit b i" using False bit_imp_le_length[of b i] by auto
    have l: "i - 8 < 8 * length bs \<longleftrightarrow> i < 8 + 8 * length bs" using False by linarith
    show ?thesis using False nb e l by (auto simp: bit_simps Cons.IH nth_Cons' less_imp_diff_less)
  qed
qed simp

lemma le_bytes_nth: "i < n \<Longrightarrow> le_bytes n v ! i = ucast (drop_bit (8 * i) v)"
  by (induction n arbitrary: i v) (auto simp: nth_Cons' algebra_simps less_Suc_eq_0_disj)

lemma le_word_bytes:
  assumes "LENGTH('a) \<le> 8 * n"
  shows "le_word (le_bytes n v) = (v :: 'a::len word)"
proof (rule bit_word_eqI)
  fix i assume i: "i < LENGTH('a)"
  have "i div 8 < n" using i assms by (simp add: less_mult_imp_div_less)
  then show "bit (le_word (le_bytes n v) :: 'a word) i \<longleftrightarrow> bit v i"
    using i assms by (simp add: bit_le_word le_bytes_nth bit_simps)
qed

lemma le_bytes_word:
  assumes "length bs = n" "8 * n \<le> LENGTH('a)"
  shows "le_bytes n (le_word bs :: 'a::len word) = bs"
proof (rule nth_equalityI)
  fix i assume "i < length (le_bytes n (le_word bs :: 'a word))"
  then have i: "i < n" by simp
  have "bit (ucast (drop_bit (8 * i) (le_word bs :: 'a word)) :: u8) j = bit (bs ! i) j" if "j < 8" for j
  proof -
    have "8 * i + j < 8 * n" "(8 * i + j) div 8 = i" "(8 * i + j) mod 8 = j" using i that by auto
    then show ?thesis using assms that by (simp add: bit_simps bit_le_word)
  qed
  then show "le_bytes n (le_word bs :: 'a word) ! i = bs ! i"
    unfolding le_bytes_nth[OF i] by (intro bit_word_eqI) simp
qed (use assms in simp)

end
