(* ===== verification/Memory_Map.thy ===== *)
theory Memory_Map
  imports Cros_Prelude
begin

text \<open>
  The memory map of \<^verbatim>\<open>src/memory/memorymap.cpp\<close>: regions with a type, a location and a
  size, kept in an array of 16 entries. The model keeps the first \<open>mapSize\<close> entries of the
  array as a list (later entries are never read); a store past entry 15 is the value
  \<open>None\<close>. Addresses are 64-bit words and \<open>end()\<close> wraps around as the code's does.
\<close>

section \<open>Regions\<close>

datatype MemoryType = AVAILABLE | UNAVAILABLE | MMIO | DEFECTIVE

fun type_value :: "MemoryType \<Rightarrow> nat" where
  "type_value AVAILABLE = 1"
| "type_value UNAVAILABLE = 2"
| "type_value MMIO = 3"
| "type_value DEFECTIVE = 4"

instantiation MemoryType :: linorder
begin

definition less_eq_MemoryType :: "MemoryType \<Rightarrow> MemoryType \<Rightarrow> bool" where
  "less_eq_MemoryType a b \<longleftrightarrow> type_value a \<le> type_value b"

definition less_MemoryType :: "MemoryType \<Rightarrow> MemoryType \<Rightarrow> bool" where
  "less_MemoryType a b \<longleftrightarrow> type_value a < type_value b"

instance
proof
  fix x y z :: MemoryType
  show "x < y \<longleftrightarrow> x \<le> y \<and> \<not> y \<le> x"
    by (auto simp: less_eq_MemoryType_def less_MemoryType_def)
  show "x \<le> x" by (simp add: less_eq_MemoryType_def)
  show "x \<le> y \<Longrightarrow> y \<le> z \<Longrightarrow> x \<le> z" by (simp add: less_eq_MemoryType_def)
  show "x \<le> y \<Longrightarrow> y \<le> x \<Longrightarrow> x = y"
    by (cases x; cases y) (simp_all add: less_eq_MemoryType_def)
  show "x \<le> y \<or> y \<le> x" by (auto simp: less_eq_MemoryType_def)
qed

end

record MemoryRegion =
  reg_type :: MemoryType
  reg_location :: u64
  reg_size :: u64

definition MemoryRegion_default :: MemoryRegion where
  "MemoryRegion_default = \<lparr>reg_type = UNAVAILABLE, reg_location = 0, reg_size = 0\<rparr>"

definition region_end :: "MemoryRegion \<Rightarrow> u64" where
  "region_end r = reg_location r + reg_size r"

definition region_less :: "MemoryRegion \<Rightarrow> MemoryRegion \<Rightarrow> bool" where
  "region_less l r =
     (if reg_location l = reg_location r then reg_size l < reg_size r
      else reg_location l < reg_location r)"

definition region_greater :: "MemoryRegion \<Rightarrow> MemoryRegion \<Rightarrow> bool" where
  "region_greater l r =
     (if reg_location l = reg_location r then reg_size l > reg_size r
      else reg_location l > reg_location r)"

definition overlaps :: "MemoryRegion \<Rightarrow> MemoryRegion \<Rightarrow> bool" where
  "overlaps l r =
     (if reg_location r < reg_location l then region_end r > reg_location l
      else reg_location r < region_end l)"

definition region_contains :: "MemoryRegion \<Rightarrow> MemoryRegion \<Rightarrow> bool" where
  "region_contains l r \<longleftrightarrow> reg_location r \<ge> reg_location l \<and> region_end r \<le> region_end l"

section \<open>The map and its operations\<close>

type_synonym MemoryMap = "MemoryRegion list"

definition capacity :: nat where
  "capacity = 16"

definition map_remove :: "MemoryMap \<Rightarrow> nat \<Rightarrow> MemoryMap" where
  "map_remove m index = (if index < length m then take index m @ drop (index + 1) m else m)"

text \<open>The loop of \<open>insert\<close> carries the region to place along the array and swaps it with
  every entry it is smaller than; what it carries at the end goes to entry \<open>mapSize\<close>.\<close>

fun insert_loop :: "MemoryRegion \<Rightarrow> MemoryMap \<Rightarrow> MemoryMap" where
  "insert_loop newRegion [] = [newRegion]"
| "insert_loop newRegion (x # xs) =
     (if region_less newRegion x then newRegion # insert_loop x xs
      else x # insert_loop newRegion xs)"

definition map_insert :: "MemoryMap \<Rightarrow> MemoryType \<Rightarrow> u64 \<Rightarrow> u64 \<Rightarrow> MemoryMap option" where
  "map_insert m type location sz =
     (if length m < capacity
      then Some (insert_loop \<lparr>reg_type = type, reg_location = location, reg_size = sz\<rparr> m)
      else None)"

text \<open>\<open>trim\<close> returns the next index to call it on; the code's \<open>-1\<close> is \<open>None\<close>.\<close>

definition trim :: "MemoryMap \<Rightarrow> nat \<Rightarrow> (MemoryMap \<times> nat option) option" where
  "trim m index =
     (if index + 1 \<ge> length m then Some (m, None)
      else let left = m ! index; right = m ! (index + 1) in
        if overlaps left right \<and> reg_type left = reg_type right then
          Some (map_remove
                  (m[index := left\<lparr>reg_size :=
                     (if region_end right > region_end left then region_end right
                      else region_end left) - reg_location left\<rparr>]) (index + 1),
                Some index)
        else if overlaps left right \<and> reg_type left < reg_type right \<and> region_contains right left then
          Some (map_remove m index, Some index)
        else if overlaps left right \<and> reg_type left < reg_type right
                \<and> region_end left \<le> region_end right then
          Some (m[index := left\<lparr>reg_size :=
                  (if reg_location right > reg_location left
                   then reg_location right - reg_location left else 0)\<rparr>],
                Some (index + 1))
        else if overlaps left right \<and> reg_type left < reg_type right then
          (let newRight = \<lparr>reg_type = reg_type left, reg_location = region_end right,
                           reg_size = region_end left - region_end right\<rparr>;
               left' = left\<lparr>reg_size :=
                  (if reg_location right > reg_location left
                   then reg_location right - reg_location left else 0)\<rparr>;
               m1 = m[index := left'];
               m2 = (if reg_size left' = 0 then map_remove m1 index else m1)
           in case map_insert m2 (reg_type newRight) (reg_location newRight) (reg_size newRight) of
                None \<Rightarrow> None
              | Some m3 \<Rightarrow> Some (m3, Some (index + 2)))
        else if overlaps left right \<and> region_contains left right then
          Some (map_remove m (index + 1), Some index)
        else if overlaps left right then
          Some (m[index + 1 := right\<lparr>reg_size := region_end right - region_end left,
                                     reg_location := region_end left\<rparr>],
                Some (index + 1))
        else if region_end left = reg_location right \<and> reg_type left = reg_type right then
          Some (map_remove
                  (m[index := left\<lparr>reg_size := region_end right - reg_location left\<rparr>]) (index + 1),
                Some index)
        else Some (m, Some (index + 1)))"

lemma length_map_remove: "index < length m \<Longrightarrow> length (map_remove m index) = length m - 1"
  by (simp add: map_remove_def)

lemma length_insert_loop [simp]: "length (insert_loop r m) = Suc (length m)"
  by (induction m arbitrary: r) simp_all

lemma map_insert_length: "map_insert m t l s = Some m' \<Longrightarrow> length m' = Suc (length m)"
  by (auto simp: map_insert_def split: if_splits)

lemma trim_decreases:
  assumes "trim m i = Some (m', Some j)"
  shows "length m' - j < length m - i"
  using assms
  by (auto simp: trim_def Let_def length_map_remove dest!: map_insert_length
      split: if_splits option.splits)

text \<open>The loop of \<open>place\<close> calls \<open>trim\<close> until it returns \<open>-1\<close>.\<close>

function place_loop :: "MemoryMap \<Rightarrow> nat \<Rightarrow> MemoryMap option" where
  "place_loop m i =
     (case trim m i of
        None \<Rightarrow> None
      | Some (m', None) \<Rightarrow> Some m'
      | Some (m', Some j) \<Rightarrow> place_loop m' j)"
  by pat_completeness auto
termination
  by (relation "measure (\<lambda>(m, i). length m - i)") (auto intro: trim_decreases)

declare place_loop.simps [simp del]

definition place :: "MemoryMap \<Rightarrow> MemoryType \<Rightarrow> u64 \<Rightarrow> u64 \<Rightarrow> (int \<times> MemoryMap) option" where
  "place m type location sz =
     (if length m \<le> capacity - 2
      then (case map_insert m type location sz of
              None \<Rightarrow> None
            | Some m1 \<Rightarrow> (case place_loop m1 0 of None \<Rightarrow> None | Some m2 \<Rightarrow> Some (0, m2)))
      else Some (-1, m))"


section \<open>Regions as intervals of addresses\<close>

text \<open>For a region that does not reach the end of the address space the word operations are
  interval operations on natural numbers.\<close>

definition lo :: "MemoryRegion \<Rightarrow> nat" where
  "lo r = unat (reg_location r)"

definition hi :: "MemoryRegion \<Rightarrow> nat" where
  "hi r = unat (reg_location r) + unat (reg_size r)"

definition region_ok :: "MemoryRegion \<Rightarrow> bool" where
  "region_ok r \<longleftrightarrow> lo r < hi r \<and> hi r < 2 ^ 64"

lemma unat_region_end: "region_ok r \<Longrightarrow> unat (region_end r) = hi r"
  by (simp add: region_ok_def hi_def region_end_def unat_add_no_wrap)

lemma region_less_nat:
  "region_less l r \<longleftrightarrow> lo l < lo r \<or> (lo l = lo r \<and> hi l < hi r)"
  by (auto simp: region_less_def lo_def hi_def word_less_nat_alt word_unat_eq_iff)

lemma overlaps_nat:
  assumes "region_ok l" "region_ok r" "lo l \<le> lo r"
  shows "overlaps l r \<longleftrightarrow> lo r < hi l"
  using assms by (auto simp: overlaps_def word_less_nat_alt unat_region_end lo_def)

lemma contains_nat:
  assumes "region_ok l" "region_ok r"
  shows "region_contains l r \<longleftrightarrow> lo l \<le> lo r \<and> hi r \<le> hi l"
  using assms by (auto simp: region_contains_def word_le_nat_alt unat_region_end lo_def)

text \<open>Updating the size so that a region ends at a given address.\<close>

lemma resize:
  assumes "unat e = b" "lo r \<le> b"
  shows "lo (r\<lparr>reg_size := e - reg_location r\<rparr>) = lo r"
    and "hi (r\<lparr>reg_size := e - reg_location r\<rparr>) = b"
  using assms by (auto simp: lo_def hi_def unat_sub_no_wrap)

lemma mk_region_bounds:
  assumes "unat a = x" "unat b = y" "x \<le> y"
  shows "lo \<lparr>reg_type = t, reg_location = a, reg_size = b - a\<rparr> = x"
    and "hi \<lparr>reg_type = t, reg_location = a, reg_size = b - a\<rparr> = y"
  using assms by (auto simp: lo_def hi_def unat_sub_no_wrap)

lemma cut_front:
  assumes "unat a = x" "unat b = y" "x \<le> y"
  shows "lo (r\<lparr>reg_size := b - a, reg_location := a\<rparr>) = x"
    and "hi (r\<lparr>reg_size := b - a, reg_location := a\<rparr>) = y"
  using assms by (auto simp: lo_def hi_def unat_sub_no_wrap)

section \<open>The memory type of an address\<close>

fun tmax :: "MemoryType option \<Rightarrow> MemoryType option \<Rightarrow> MemoryType option" where
  "tmax None y = y"
| "tmax x None = x"
| "tmax (Some a) (Some b) = Some (max a b)"

definition type_in :: "MemoryRegion \<Rightarrow> nat \<Rightarrow> MemoryType option" where
  "type_in r a = (if lo r \<le> a \<and> a < hi r then Some (reg_type r) else None)"

fun type_at :: "MemoryMap \<Rightarrow> nat \<Rightarrow> MemoryType option" where
  "type_at [] a = None"
| "type_at (r # rs) a = tmax (type_in r a) (type_at rs a)"

lemma tmax_None [simp]: "tmax x None = x"
  by (cases x) simp_all

lemma tmax_commute: "tmax x y = tmax y x"
  by (cases x; cases y) (simp_all add: max.commute)

lemma tmax_assoc: "tmax (tmax x y) z = tmax x (tmax y z)"
  by (cases x; cases y; cases z) (simp_all add: max.assoc)

lemma tmax_left_commute: "tmax x (tmax y z) = tmax y (tmax x z)"
  by (metis tmax_commute tmax_assoc)

lemmas tmax_ac = tmax_assoc tmax_commute tmax_left_commute

lemma type_at_append [simp]: "type_at (xs @ ys) a = tmax (type_at xs a) (type_at ys a)"
  by (induction xs) (simp_all add: tmax_assoc)

lemma type_at_insert_loop [simp]: "type_at (insert_loop r m) a = tmax (type_in r a) (type_at m a)"
  by (induction m arbitrary: r) (simp_all add: tmax_ac)

section \<open>Well-formed maps\<close>

text \<open>Regions in ascending order that do not overlap, all above address \<open>b\<close>.\<close>

fun chain :: "nat \<Rightarrow> MemoryMap \<Rightarrow> bool" where
  "chain b [] = True"
| "chain b (r # rs) = (b \<le> lo r \<and> region_ok r \<and> chain (hi r) rs)"

definition map_wf :: "MemoryMap \<Rightarrow> bool" where
  "map_wf m \<longleftrightarrow> chain 0 m"

lemma chain_mono: "chain b m \<Longrightarrow> c \<le> b \<Longrightarrow> chain c m"
  by (cases m) auto

fun chain_end :: "nat \<Rightarrow> MemoryMap \<Rightarrow> nat" where
  "chain_end b [] = b"
| "chain_end b (r # rs) = chain_end (hi r) rs"

lemma chain_append [simp]:
  "chain b (xs @ ys) \<longleftrightarrow> chain b xs \<and> chain (chain_end b xs) ys"
  by (induction xs arbitrary: b) auto

lemma chain_end_append [simp]: "chain_end b (xs @ ys) = chain_end (chain_end b xs) ys"
  by (induction xs arbitrary: b) simp_all

lemma chain_all_ge: "chain b m \<Longrightarrow> r \<in> set m \<Longrightarrow> b \<le> lo r \<and> region_ok r"
proof (induction m arbitrary: b)
  case (Cons x xs)
  then show ?case
  proof (cases "r = x")
    case False
    with Cons have "hi x \<le> lo r \<and> region_ok r" by auto
    with Cons.prems show ?thesis by (auto simp: region_ok_def)
  qed simp
qed simp

text \<open>The regions of a well-formed map are disjoint, so the type of an address is the type of
  the one region it lies in.\<close>

lemma chain_type_in:
  assumes "chain b m" "r \<in> set m" "lo r \<le> a" "a < hi r"
  shows "type_at m a = Some (reg_type r)"
  using assms
proof (induction m arbitrary: b)
  case (Cons x xs)
  have above: "type_at xs a = None" if "a < hi x"
  proof -
    have "type_at ys a = None" if "chain c ys" "a < c" for c ys
      using that by (induction ys arbitrary: c) (auto simp: type_in_def region_ok_def)
    then show ?thesis using Cons.prems(1) that by auto
  qed
  show ?case
  proof (cases "r = x")
    case True
    then show ?thesis using Cons.prems above by (simp add: type_in_def)
  next
    case False
    then have "hi x \<le> lo r" using Cons.prems chain_all_ge[of "hi x" xs r] by auto
    then have "type_in x a = None" using Cons.prems by (simp add: type_in_def)
    then show ?thesis using Cons False by auto
  qed
qed simp


section \<open>One call of trim\<close>

lemma trim_last: "length m \<le> i + 1 \<Longrightarrow> trim m i = Some (m, None)"
  by (simp add: trim_def)

text \<open>\<open>trim\<close> on the two neighbours \<open>l\<close> and \<open>r\<close> behind a prefix, with the array operations
  carried out.\<close>

lemma trim_at:
  "trim (pre @ l # r # rest) (length pre) =
     (if overlaps l r \<and> reg_type l = reg_type r then
        Some (pre @ l\<lparr>reg_size := (if region_end r > region_end l then region_end r
                                   else region_end l) - reg_location l\<rparr> # rest,
              Some (length pre))
      else if overlaps l r \<and> reg_type l < reg_type r \<and> region_contains r l then
        Some (pre @ r # rest, Some (length pre))
      else if overlaps l r \<and> reg_type l < reg_type r \<and> region_end l \<le> region_end r then
        Some (pre @ l\<lparr>reg_size := (if reg_location r > reg_location l
                                   then reg_location r - reg_location l else 0)\<rparr> # r # rest,
              Some (length pre + 1))
      else if overlaps l r \<and> reg_type l < reg_type r then
        (let l' = l\<lparr>reg_size := (if reg_location r > reg_location l
                                  then reg_location r - reg_location l else 0)\<rparr>;
             m2 = (if reg_size l' = 0 then pre @ r # rest else pre @ l' # r # rest)
         in case map_insert m2 (reg_type l) (region_end r) (region_end l - region_end r) of
              None \<Rightarrow> None
            | Some m3 \<Rightarrow> Some (m3, Some (length pre + 2)))
      else if overlaps l r \<and> region_contains l r then
        Some (pre @ l # rest, Some (length pre))
      else if overlaps l r then
        Some (pre @ l # r\<lparr>reg_size := region_end r - region_end l,
                          reg_location := region_end l\<rparr> # rest, Some (length pre + 1))
      else if region_end l = reg_location r \<and> reg_type l = reg_type r then
        Some (pre @ l\<lparr>reg_size := region_end r - reg_location l\<rparr> # rest, Some (length pre))
      else Some (pre @ l # r # rest, Some (length pre + 1)))"
  by (simp add: trim_def map_remove_def nth_append list_update_append Let_def)

lemma trim_same:
  "overlaps l r \<Longrightarrow> reg_type l = reg_type r \<Longrightarrow>
   trim (pre @ l # r # rest) (length pre) =
     Some (pre @ l\<lparr>reg_size := (if region_end r > region_end l then region_end r
                                else region_end l) - reg_location l\<rparr> # rest, Some (length pre))"
  by (simp only: trim_at simp_thms if_True)

lemma trim_covered:
  "overlaps l r \<Longrightarrow> reg_type l < reg_type r \<Longrightarrow> region_contains r l \<Longrightarrow>
   trim (pre @ l # r # rest) (length pre) = Some (pre @ r # rest, Some (length pre))"
  by (simp add: trim_at)

lemma trim_cut_end:
  "overlaps l r \<Longrightarrow> reg_type l < reg_type r \<Longrightarrow> \<not> region_contains r l \<Longrightarrow>
   region_end l \<le> region_end r \<Longrightarrow> reg_location r > reg_location l \<Longrightarrow>
   trim (pre @ l # r # rest) (length pre) =
     Some (pre @ l\<lparr>reg_size := reg_location r - reg_location l\<rparr> # r # rest, Some (length pre + 1))"
  by (simp add: trim_at)

lemma trim_split:
  "overlaps l r \<Longrightarrow> reg_type l < reg_type r \<Longrightarrow> \<not> region_contains r l \<Longrightarrow>
   \<not> region_end l \<le> region_end r \<Longrightarrow> reg_location r > reg_location l \<Longrightarrow>
   trim (pre @ l # r # rest) (length pre) =
     (case map_insert (pre @ l\<lparr>reg_size := reg_location r - reg_location l\<rparr> # r # rest)
        (reg_type l) (region_end r) (region_end l - region_end r) of
        None \<Rightarrow> None
      | Some m3 \<Rightarrow> Some (m3, Some (length pre + 2)))"
  by (auto simp: trim_at)

lemma trim_drop_right:
  "overlaps l r \<Longrightarrow> reg_type r < reg_type l \<Longrightarrow> region_contains l r \<Longrightarrow>
   trim (pre @ l # r # rest) (length pre) = Some (pre @ l # rest, Some (length pre))"
  by (auto simp: trim_at)

lemma trim_cut_front:
  "overlaps l r \<Longrightarrow> reg_type r < reg_type l \<Longrightarrow> \<not> region_contains l r \<Longrightarrow>
   trim (pre @ l # r # rest) (length pre) =
     Some (pre @ l # r\<lparr>reg_size := region_end r - region_end l,
                       reg_location := region_end l\<rparr> # rest, Some (length pre + 1))"
  by (auto simp: trim_at)

lemma trim_join:
  "\<not> overlaps l r \<Longrightarrow> region_end l = reg_location r \<Longrightarrow> reg_type l = reg_type r \<Longrightarrow>
   trim (pre @ l # r # rest) (length pre) =
     Some (pre @ l\<lparr>reg_size := region_end r - reg_location l\<rparr> # rest, Some (length pre))"
  by (simp add: trim_at)

lemma trim_skip:
  "\<not> overlaps l r \<Longrightarrow> \<not> (region_end l = reg_location r \<and> reg_type l = reg_type r) \<Longrightarrow>
   trim (pre @ l # r # rest) (length pre) = Some (pre @ l # r # rest, Some (length pre + 1))"
  by (simp add: trim_at)

lemma insert_loop_chain: "chain (hi x) xs \<Longrightarrow> region_ok x \<Longrightarrow> insert_loop x xs = x # xs"
proof (induction xs arbitrary: x)
  case (Cons y ys)
  then have "region_less x y" by (auto simp: region_less_nat region_ok_def)
  with Cons show ?case by simp
qed simp

lemma chain_end_ge: "chain b m \<Longrightarrow> b \<le> chain_end b m"
proof (induction m arbitrary: b)
  case (Cons r rs)
  then have "hi r \<le> chain_end (hi r) rs" by simp
  with Cons.prems show ?case by (simp add: region_ok_def)
qed simp

lemma insert_loop_above:
  assumes "chain b pre" "chain_end b pre \<le> lo x"
  shows "insert_loop x (pre @ d) = pre @ insert_loop x d"
  using assms
proof (induction pre arbitrary: b)
  case (Cons y ys)
  have "hi y \<le> chain_end (hi y) ys" using Cons.prems chain_end_ge by simp
  then have "lo y < lo x" using Cons.prems by (auto simp: region_ok_def)
  then have "\<not> region_less x y" by (simp add: region_less_nat)
  with Cons.prems Cons.IH [of "hi y"] show ?case by simp
qed simp

text \<open>How the cases of \<open>trim\<close> act on the type of an address.\<close>

lemma type_merge:
  assumes "reg_type l = reg_type r" "lo l \<le> lo r" "lo r \<le> hi l"
    "reg_type u = reg_type l" "lo u = lo l" "hi u = max (hi l) (hi r)"
  shows "tmax (type_in l a) (type_in r a) = type_in u a"
  using assms by (auto simp: type_in_def)

lemma type_absorb:
  assumes "reg_type l \<le> reg_type r" "lo r \<le> lo l" "hi l \<le> hi r"
  shows "tmax (type_in l a) (type_in r a) = type_in r a"
  using assms by (auto simp: type_in_def max_def)

lemma type_cut_end:
  assumes "reg_type l \<le> reg_type r" "lo l \<le> lo r" "lo r < hi l" "hi l \<le> hi r"
    "reg_type u = reg_type l" "lo u = lo l" "hi u = lo r"
  shows "tmax (type_in l a) (type_in r a) = tmax (type_in u a) (type_in r a)"
  using assms by (auto simp: type_in_def max_def)

lemma type_split:
  assumes "reg_type l \<le> reg_type r" "lo l \<le> lo r" "lo r \<le> hi r" "hi r \<le> hi l"
    "reg_type u = reg_type l" "lo u = lo l" "hi u = lo r"
    "reg_type v = reg_type l" "lo v = hi r" "hi v = hi l"
  shows "tmax (type_in l a) (type_in r a) = tmax (type_in u a) (tmax (type_in r a) (type_in v a))"
  using assms by (auto simp: type_in_def max_def)

lemma type_cut_front:
  assumes "reg_type r \<le> reg_type l" "lo l \<le> lo r" "lo r < hi l" "hi l \<le> hi r"
    "reg_type u = reg_type r" "lo u = hi l" "hi u = hi r"
  shows "tmax (type_in l a) (type_in r a) = tmax (type_in l a) (type_in u a)"
  using assms by (auto simp: type_in_def max_def)


section \<open>The trimming loop\<close>

text \<open>
  The loop of \<open>place\<close> starts from a well-formed map with one more region, \<open>new\<close>. While it
  runs, the entries before the index are final, and the entries from the index on are a
  well-formed map with \<open>new\<close> inserted; once \<open>new\<close> overlaps nothing the map is settled.
\<close>

definition settled :: "nat \<Rightarrow> MemoryMap \<Rightarrow> bool" where
  "settled i m \<longleftrightarrow> i \<le> length m \<and> map_wf m"

definition high_disjoint :: "MemoryRegion \<Rightarrow> MemoryMap \<Rightarrow> bool" where
  "high_disjoint new d \<longleftrightarrow>
     (\<forall>r \<in> set d. reg_type new < reg_type r \<longrightarrow> hi r \<le> lo new \<or> hi new \<le> lo r)"

definition floating :: "MemoryMap \<Rightarrow> MemoryRegion \<Rightarrow> MemoryMap \<Rightarrow> bool" where
  "floating pre new d \<longleftrightarrow> chain 0 (pre @ d) \<and> region_ok new
     \<and> chain_end 0 pre \<le> lo new \<and> high_disjoint new d"

definition loop_inv :: "nat \<Rightarrow> MemoryMap \<Rightarrow> bool" where
  "loop_inv i m \<longleftrightarrow> settled i m \<or>
     (length m < capacity \<and>
      (\<exists>pre new d. m = pre @ insert_loop new d \<and> length pre = i \<and> floating pre new d))"

text \<open>What one call has to establish: it returns, keeps the type of every address, and keeps
  the invariant or ends on a well-formed map.\<close>

definition trim_ok :: "nat \<Rightarrow> MemoryMap \<Rightarrow> bool" where
  "trim_ok i m \<longleftrightarrow> (\<exists>m' nx. trim m i = Some (m', nx) \<and> (\<forall>a. type_at m' a = type_at m a)
     \<and> (case nx of None \<Rightarrow> map_wf m' | Some j \<Rightarrow> loop_inv j m'))"

lemma trim_okI:
  assumes "trim m i = Some (m', Some j)" "\<And>a. type_at m' a = type_at m a" "loop_inv j m'"
  shows "trim_ok i m"
  using assms by (auto simp: trim_ok_def)

lemma settledI: "chain 0 (pre @ d) \<Longrightarrow> length pre = i \<Longrightarrow> m = pre @ d \<Longrightarrow> loop_inv i m"
  by (simp add: loop_inv_def settled_def map_wf_def)

lemma floatingI:
  assumes "floating pre new d" "length pre = i" "m = pre @ new # d" "length m < capacity"
    "d = [] \<or> lo new < lo (hd d)"
  shows "loop_inv i m"
proof -
  have "insert_loop new d = new # d"
  proof (cases d)
    case (Cons y ys)
    then have "region_less new y" using assms(5) by (simp add: region_less_nat)
    moreover have "insert_loop y ys = y # ys"
      using assms(1) Cons by (auto simp: floating_def intro: insert_loop_chain)
    ultimately show ?thesis using Cons by simp
  qed simp
  then show ?thesis using assms unfolding loop_inv_def by metis
qed

lemma trim_settled:
  assumes "settled i m"
  shows "trim_ok i m"
proof (cases "length m \<le> i + 1")
  case True
  then show ?thesis using assms by (simp add: trim_ok_def trim_last settled_def)
next
  case False
  define pre where "pre = take i m"
  obtain l r rest where m: "m = pre @ l # r # rest" and i: "length pre = i"
  proof -
    have "drop i m = m ! i # m ! (i + 1) # drop (i + 2) m"
      using False by (metis Cons_nth_drop_Suc add_2_eq_Suc' Suc_eq_plus1 Suc_lessD not_le)
    then show ?thesis using that[of "m ! i" "m ! (i+1)" "drop (i+2) m"] False
      by (metis append_take_drop_id length_take min.absorb2 nat_le_linear not_le pre_def
          add_leD1)
  qed
  have c: "chain 0 (pre @ l # r # rest)" using assms m by (simp add: settled_def map_wf_def)
  then have ok: "region_ok l" "region_ok r" "hi l \<le> lo r" "lo l < hi l" by (auto simp: region_ok_def)
  then have no: "\<not> overlaps l r" by (simp add: overlaps_nat)
  show ?thesis
  proof (cases "region_end l = reg_location r \<and> reg_type l = reg_type r")
    case True
    let ?u = "l\<lparr>reg_size := region_end r - reg_location l\<rparr>"
    have t: "hi l = lo r" using True unat_region_end[OF ok(1)] by (simp add: lo_def)
    have u: "lo ?u = lo l" "hi ?u = hi r"
      using ok t resize[OF unat_region_end[OF ok(2)], of l] by (auto simp: region_ok_def)
    have tr: "trim m i = Some (pre @ ?u # rest, Some i)"
      using no True trim_at[of pre l r rest] m i by simp
    have "type_in ?u a = tmax (type_in l a) (type_in r a)" for a
      by (rule type_merge[symmetric]) (use True u t ok in \<open>auto simp: region_ok_def\<close>)
    then have "type_at (pre @ ?u # rest) a = type_at m a" for a
      using m by (simp add: tmax_ac)
    moreover have "loop_inv i (pre @ ?u # rest)"
      by (rule settledI[of pre "?u # rest"]) (use c u i ok in \<open>auto simp: region_ok_def\<close>)
    ultimately show ?thesis using tr by (blast intro: trim_okI)
  next
    case False
    then have "trim m i = Some (m, Some (i + 1))"
      using no trim_at[of pre l r rest] m i by simp
    moreover have "loop_inv (i + 1) m"
      using assms m i by (auto simp: loop_inv_def settled_def)
    ultimately show ?thesis by (blast intro: trim_okI)
  qed
qed


lemma unat_max_end:
  assumes "region_ok l" "region_ok r"
  shows "unat (if region_end r > region_end l then region_end r else region_end l) = max (hi l) (hi r)"
  using assms by (auto simp: word_less_nat_alt unat_region_end)

text \<open>The placed region is left of the next entry.\<close>

lemma trim_floating_left:
  assumes fl: "floating pre new (y # ys)" and le: "region_less new y"
    and len: "length (pre @ new # y # ys) < capacity"
  shows "trim_ok (length pre) (pre @ new # y # ys)"
proof -
  let ?m = "pre @ new # y # ys"
  have c: "chain 0 (pre @ y # ys)" and ok: "region_ok new" "region_ok y"
    and b: "chain_end 0 pre \<le> lo new" and hd: "high_disjoint new (y # ys)"
    using fl by (auto simp: floating_def)
  have lo: "lo new \<le> lo y" using le by (auto simp: region_less_nat)
  have y: "lo y < hi y" "hi y < 2 ^ 64" "lo new < hi new" "hi new < 2 ^ 64" "chain (hi y) ys"
    using ok c by (auto simp: region_ok_def)
  have hdys: "ys = [] \<or> hi y \<le> lo (hd ys)" using y by (cases ys) auto
  note e = unat_region_end[OF ok(1)] unat_region_end[OF ok(2)]
  have ty: "reg_type y \<le> reg_type new" if "lo y < hi new"
    using that hd y(1) lo by (auto simp: high_disjoint_def)
  have ov: "overlaps new y \<longleftrightarrow> lo y < hi new" using ok lo by (rule overlaps_nat)
  have co: "region_contains new y \<longleftrightarrow> hi y \<le> hi new" using ok lo by (simp add: contains_nat)
  consider (same) "lo y < hi new" "reg_type new = reg_type y"
    | (inside) "lo y < hi new" "reg_type y < reg_type new" "hi y \<le> hi new"
    | (cut) "lo y < hi new" "reg_type y < reg_type new" "hi new < hi y"
    | (touch) "hi new = lo y" "reg_type new = reg_type y"
    | (apart) "hi new \<le> lo y" "\<not> (hi new = lo y \<and> reg_type new = reg_type y)"
  proof (cases "lo y < hi new")
    case True
    then have "reg_type y < reg_type new \<or> reg_type new = reg_type y"
      using ty by (auto simp: le_less)
    then show ?thesis using same inside cut True by (cases "hi y \<le> hi new") auto
  next
    case False
    then show ?thesis using touch apart by (cases "hi new = lo y \<and> reg_type new = reg_type y") auto
  qed
  then show ?thesis
  proof cases
    case same
    let ?e = "if region_end y > region_end new then region_end y else region_end new"
    let ?u = "new\<lparr>reg_size := ?e - reg_location new\<rparr>"
    have u: "lo ?u = lo new" "hi ?u = max (hi new) (hi y)"
      using resize[OF unat_max_end[OF ok], of new] y by auto
    have tr: "trim ?m (length pre) = Some (pre @ ?u # ys, Some (length pre))"
      using same ov by (intro trim_same) auto
    have "type_at (pre @ ?u # ys) a = type_at ?m a" for a
      using type_merge[of new y ?u a] same lo u by (simp add: tmax_ac)
    moreover have "high_disjoint ?u ys" unfolding high_disjoint_def
    proof (intro ballI impI)
      fix r assume r: "r \<in> set ys" "reg_type ?u < reg_type r"
      then have "hi y \<le> lo r" using chain_all_ge[OF y(5)] by blast
      moreover have "hi r \<le> lo new \<or> hi new \<le> lo r" using hd r by (auto simp: high_disjoint_def)
      ultimately show "hi r \<le> lo ?u \<or> hi ?u \<le> lo r" using u by auto
    qed
    then have "floating pre ?u ys"
      using c b u y ok lo chain_mono[OF y(5)] by (auto simp: floating_def region_ok_def)
    then have "loop_inv (length pre) (pre @ ?u # ys)"
      by (rule floatingI) (use len hdys u lo y in auto)
    ultimately show ?thesis using tr by (blast intro: trim_okI)
  next
    case inside
    have tr: "trim ?m (length pre) = Some (pre @ new # ys, Some (length pre))"
      using inside ov co by (intro trim_drop_right) auto
    have "type_at (pre @ new # ys) a = type_at ?m a" for a
      using type_absorb[of y new a] inside lo by (simp add: tmax_ac)
    moreover have "floating pre new ys"
      using fl chain_mono[OF y(5)] y by (auto simp: floating_def high_disjoint_def)
    then have "loop_inv (length pre) (pre @ new # ys)"
      by (rule floatingI) (use len hdys lo y in auto)
    ultimately show ?thesis using tr by (blast intro: trim_okI)
  next
    case cut
    let ?u = "y\<lparr>reg_size := region_end y - region_end new, reg_location := region_end new\<rparr>"
    have u: "lo ?u = hi new" "hi ?u = hi y" using cut_front[OF e] cut by auto
    have tr: "trim ?m (length pre) = Some (pre @ new # ?u # ys, Some (length pre + 1))"
      using cut ov co by (intro trim_cut_front) auto
    have "type_at (pre @ new # ?u # ys) a = type_at ?m a" for a
      using type_cut_front[of y new ?u a] cut lo u by (simp add: tmax_ac)
    moreover have "loop_inv (length pre + 1) (pre @ new # ?u # ys)"
      by (rule settledI[of "pre @ [new]" "?u # ys"])
        (use c b u ok cut y in \<open>auto simp: region_ok_def\<close>)
    ultimately show ?thesis using tr by (blast intro: trim_okI)
  next
    case touch
    let ?u = "new\<lparr>reg_size := region_end y - reg_location new\<rparr>"
    have u: "lo ?u = lo new" "hi ?u = hi y" using resize[OF e(2), of new] lo y by auto
    have en: "region_end new = reg_location y" using touch e by (simp add: word_unat_eq_iff lo_def)
    have tr: "trim ?m (length pre) = Some (pre @ ?u # ys, Some (length pre))"
      using touch ov en by (intro trim_join) auto
    have "type_at (pre @ ?u # ys) a = type_at ?m a" for a
      using type_merge[of new y ?u a] touch lo u y by (simp add: tmax_ac)
    moreover have "loop_inv (length pre) (pre @ ?u # ys)"
      by (rule settledI[of pre "?u # ys"]) (use c b u ok y lo in \<open>auto simp: region_ok_def\<close>)
    ultimately show ?thesis using tr by (blast intro: trim_okI)
  next
    case apart
    have "\<not> (region_end new = reg_location y \<and> reg_type new = reg_type y)"
      using apart e by (auto simp: word_unat_eq_iff lo_def)
    then have tr: "trim ?m (length pre) = Some (?m, Some (length pre + 1))"
      using apart ov by (intro trim_skip) auto
    have "loop_inv (length pre + 1) ?m"
      by (rule settledI[of "pre @ [new]" "y # ys"]) (use c b ok apart y in auto)
    then show ?thesis using tr by (blast intro: trim_okI)
  qed
qed


text \<open>The placed region is right of the next entry.\<close>

lemma trim_floating_right:
  assumes fl: "floating pre new (y # ys)" and le: "\<not> region_less new y"
    and nx: "ys = [] \<or> region_less new (hd ys)"
    and len: "length (pre @ y # new # ys) < capacity"
  shows "trim_ok (length pre) (pre @ y # new # ys)"
proof -
  let ?m = "pre @ y # new # ys"
  have c: "chain 0 (pre @ y # ys)" and ok: "region_ok y" "region_ok new"
    and b: "chain_end 0 pre \<le> lo new" and hd: "high_disjoint new (y # ys)"
    using fl by (auto simp: floating_def)
  have lo: "lo y \<le> lo new" and lohi: "lo y = lo new \<Longrightarrow> hi y \<le> hi new"
    using le by (auto simp: region_less_nat)
  have y: "lo y < hi y" "hi y < 2 ^ 64" "lo new < hi new" "hi new < 2 ^ 64" "chain (hi y) ys"
    "chain_end 0 pre \<le> lo y"
    using ok c by (auto simp: region_ok_def)
  have hdys: "ys = [] \<or> hi y \<le> lo (hd ys)" using y by (cases ys) auto
  have nxs: "ys = [] \<or> lo new \<le> lo (hd ys)" using nx by (auto simp: region_less_nat)
  have above: "hi new \<le> lo r \<or> reg_type r \<le> reg_type new" if "r \<in> set ys" for r
  proof -
    from that obtain z zs where ys: "ys = z # zs" by (cases ys) auto
    have "lo new \<le> lo z" using nxs ys by simp
    also have "lo z \<le> lo r"
      using that y(5) ys chain_all_ge[of "hi z" zs r] by (auto simp: region_ok_def)
    finally have ge: "lo new \<le> lo r" .
    have "lo r < hi r" using chain_all_ge[OF y(5) that] by (simp add: region_ok_def)
    moreover have "hi r \<le> lo new \<or> hi new \<le> lo r \<or> \<not> reg_type new < reg_type r"
      using hd that by (auto simp: high_disjoint_def)
    ultimately show ?thesis using ge by auto
  qed
  note e = unat_region_end[OF ok(1)] unat_region_end[OF ok(2)]
  have ty: "reg_type y \<le> reg_type new" if "lo new < hi y"
    using that hd y(3) lo by (auto simp: high_disjoint_def)
  have ov: "overlaps y new \<longleftrightarrow> lo new < hi y" using ok lo by (rule overlaps_nat)
  have co: "region_contains new y \<longleftrightarrow> lo new \<le> lo y \<and> hi y \<le> hi new"
    using ok by (simp add: contains_nat)
  have en: "region_end y \<le> region_end new \<longleftrightarrow> hi y \<le> hi new"
    using e by (simp add: word_le_nat_alt)
  have lw: "reg_location new > reg_location y \<longleftrightarrow> lo y < lo new"
    by (simp add: word_less_nat_alt lo_def)
  consider (same) "lo new < hi y" "reg_type y = reg_type new"
    | (covered) "lo new < hi y" "reg_type y < reg_type new" "lo y = lo new" "hi y \<le> hi new"
    | (cut) "lo new < hi y" "reg_type y < reg_type new" "lo y < lo new" "hi y \<le> hi new"
    | (split) "lo new < hi y" "reg_type y < reg_type new" "lo y < lo new" "hi new < hi y"
    | (touch) "hi y = lo new" "reg_type y = reg_type new"
    | (apart) "hi y \<le> lo new" "\<not> (hi y = lo new \<and> reg_type y = reg_type new)"
  proof (cases "lo new < hi y")
    case True
    then have "reg_type y = reg_type new \<or> reg_type y < reg_type new"
      using ty by (auto simp: le_less)
    moreover have "lo y = lo new \<and> hi y \<le> hi new \<or> lo y < lo new \<and> hi y \<le> hi new
        \<or> lo y < lo new \<and> hi new < hi y"
      using lo lohi by linarith
    ultimately show ?thesis using same covered cut split True by blast
  next
    case False
    then show ?thesis using touch apart by (cases "hi y = lo new \<and> reg_type y = reg_type new") auto
  qed
  then show ?thesis
  proof cases
    case same
    let ?e = "if region_end new > region_end y then region_end new else region_end y"
    let ?u = "y\<lparr>reg_size := ?e - reg_location y\<rparr>"
    have u: "lo ?u = lo y" "hi ?u = max (hi y) (hi new)"
      using resize[OF unat_max_end[OF ok], of y] y by auto
    have tr: "trim ?m (length pre) = Some (pre @ ?u # ys, Some (length pre))"
      using same ov by (intro trim_same) auto
    have "type_at (pre @ ?u # ys) a = type_at ?m a" for a
      using type_merge[of y new ?u a] same lo u by (simp add: tmax_ac)
    moreover have "high_disjoint ?u ys"
      unfolding high_disjoint_def
    proof (intro ballI impI disjI2)
      fix r assume r: "r \<in> set ys" "reg_type ?u < reg_type r"
      have "hi new \<le> lo r" using above[OF r(1)] r(2) same by auto
      moreover have "hi y \<le> lo r" using chain_all_ge[OF y(5) r(1)] by blast
      ultimately show "hi ?u \<le> lo r" using u by simp
    qed
    then have "floating pre ?u ys"
      using c u y ok chain_mono[OF y(5)] by (auto simp: floating_def region_ok_def)
    then have "loop_inv (length pre) (pre @ ?u # ys)"
      by (rule floatingI) (use len hdys u y in auto)
    ultimately show ?thesis using tr by (blast intro: trim_okI)
  next
    case covered
    have tr: "trim ?m (length pre) = Some (pre @ new # ys, Some (length pre))"
      using covered ov co by (intro trim_covered) auto
    have "type_at (pre @ new # ys) a = type_at ?m a" for a
      using type_absorb[of y new a] covered by (simp add: tmax_ac)
    moreover have "floating pre new ys"
      using fl chain_mono[OF y(5)] y by (auto simp: floating_def high_disjoint_def)
    then have "loop_inv (length pre) (pre @ new # ys)"
      by (rule floatingI) (use len hdys y covered in auto)
    ultimately show ?thesis using tr by (blast intro: trim_okI)
  next
    case cut
    let ?u = "y\<lparr>reg_size := reg_location new - reg_location y\<rparr>"
    have u: "lo ?u = lo y" "hi ?u = lo new" using resize[of "reg_location new" "lo new" y] lo
      by (auto simp: lo_def)
    have tr: "trim ?m (length pre) = Some (pre @ ?u # new # ys, Some (length pre + 1))"
      using cut ov co en lw by (intro trim_cut_end) auto
    have "type_at (pre @ ?u # new # ys) a = type_at ?m a" for a
      using type_cut_end[of y new ?u a] cut u by (simp add: tmax_ac)
    moreover have "floating (pre @ [?u]) new ys"
      using c u ok y cut hd chain_mono[OF y(5)] lo
      by (auto simp: floating_def high_disjoint_def region_ok_def)
    then have "loop_inv (length pre + 1) (pre @ ?u # new # ys)"
      by (rule floatingI) (use len nxs hdys cut in auto)
    ultimately show ?thesis using tr by (blast intro: trim_okI)
  next
    case split
    let ?u = "y\<lparr>reg_size := reg_location new - reg_location y\<rparr>"
    let ?v = "\<lparr>reg_type = reg_type y, reg_location = region_end new,
               reg_size = region_end y - region_end new\<rparr>"
    have u: "lo ?u = lo y" "hi ?u = lo new" using resize[of "reg_location new" "lo new" y] lo
      by (auto simp: lo_def)
    have v: "lo ?v = hi new" "hi ?v = hi y" using mk_region_bounds[OF e(2) e(1)] split by auto
    have okv: "region_ok ?v" using v y split by (simp add: region_ok_def)
    have cv: "chain 0 ((pre @ [?u, new]) @ ?v # ys)"
      using c u v ok okv y split by (auto simp: region_ok_def)
    have "insert_loop ?v ((pre @ [?u, new]) @ ys) = (pre @ [?u, new]) @ insert_loop ?v ys"
      by (rule insert_loop_above[of 0]) (use cv v in auto)
    then have il: "insert_loop ?v (pre @ ?u # new # ys) = pre @ ?u # new # ?v # ys"
      using insert_loop_chain[of ?v ys] okv cv by simp
    have tr: "trim ?m (length pre) = Some (pre @ ?u # new # ?v # ys, Some (length pre + 2))"
      using split ov co en lw len
        trim_split[of y new pre ys] il by (simp add: map_insert_def)
    have "type_at (pre @ ?u # new # ?v # ys) a = type_at ?m a" for a
      using type_split[of y new ?u ?v a] split u v y by (simp add: tmax_ac)
    moreover have "loop_inv (length pre + 2) (pre @ ?u # new # ?v # ys)"
      by (rule settledI[of "pre @ [?u, new]" "?v # ys"]) (use cv in auto)
    ultimately show ?thesis using tr by (blast intro: trim_okI)
  next
    case touch
    let ?u = "y\<lparr>reg_size := region_end new - reg_location y\<rparr>"
    have u: "lo ?u = lo y" "hi ?u = hi new" using resize[OF e(2), of y] lo y by auto
    have eq: "region_end y = reg_location new" using touch e by (simp add: word_unat_eq_iff lo_def)
    have tr: "trim ?m (length pre) = Some (pre @ ?u # ys, Some (length pre))"
      using touch ov eq by (intro trim_join) auto
    have "type_at (pre @ ?u # ys) a = type_at ?m a" for a
      using type_merge[of y new ?u a] touch lo u y by (simp add: tmax_ac)
    moreover have "high_disjoint ?u ys"
      unfolding high_disjoint_def
    proof (intro ballI impI disjI2)
      fix r assume r: "r \<in> set ys" "reg_type ?u < reg_type r"
      have "hi new \<le> lo r" using above[OF r(1)] r(2) touch by auto
      moreover have "hi y \<le> lo r" using chain_all_ge[OF y(5) r(1)] by blast
      ultimately show "hi ?u \<le> lo r" using u by simp
    qed
    then have "floating pre ?u ys"
      using c u y ok touch chain_mono[OF y(5)] by (auto simp: floating_def region_ok_def)
    then have "loop_inv (length pre) (pre @ ?u # ys)"
      by (rule floatingI) (use len hdys u y in auto)
    ultimately show ?thesis using tr by (blast intro: trim_okI)
  next
    case apart
    have "\<not> (region_end y = reg_location new \<and> reg_type y = reg_type new)"
      using apart e by (auto simp: word_unat_eq_iff lo_def)
    then have tr: "trim ?m (length pre) = Some (?m, Some (length pre + 1))"
      using apart ov by (intro trim_skip) auto
    have fl': "floating (pre @ [y]) new ys"
      using c ok apart hd by (auto simp: floating_def high_disjoint_def)
    have "insert_loop new ys = new # ys"
    proof (cases ys)
      case (Cons z zs)
      then have "insert_loop z zs = z # zs" using c by (auto intro: insert_loop_chain)
      then show ?thesis using nx Cons by simp
    qed simp
    then have "loop_inv (length pre + 1) ?m"
      using fl' len unfolding loop_inv_def
      by (intro disjI2 conjI exI[of _ "pre @ [y]"] exI[of _ new] exI[of _ ys]) auto
    then show ?thesis using tr by (blast intro: trim_okI)
  qed
qed

text \<open>The placed region comes after the next two entries.\<close>

lemma trim_floating_later:
  assumes fl: "floating pre new (y # z # zs)" and le: "\<not> region_less new z"
    and len: "length (pre @ y # z # insert_loop new zs) < capacity"
  shows "trim_ok (length pre) (pre @ y # z # insert_loop new zs)"
proof -
  let ?m = "pre @ y # z # insert_loop new zs"
  have c: "chain 0 (pre @ y # z # zs)" and ok: "region_ok y" "region_ok z" "region_ok new"
    and hd: "high_disjoint new (y # z # zs)"
    using fl by (auto simp: floating_def)
  have y: "lo y < hi y" "hi y \<le> lo z" "lo z < hi z" "hi z < 2 ^ 64" "chain (hi z) zs"
    "chain_end 0 pre \<le> lo y" "lo new < hi new"
    using ok c by (auto simp: region_ok_def)
  have lz: "lo z \<le> lo new" using le by (auto simp: region_less_nat)
  note e = unat_region_end[OF ok(1)] unat_region_end[OF ok(2)]
  have no: "\<not> overlaps y z" using ok y by (simp add: overlaps_nat)
  show ?thesis
  proof (cases "hi y = lo z \<and> reg_type y = reg_type z")
    case True
    let ?u = "y\<lparr>reg_size := region_end z - reg_location y\<rparr>"
    have u: "lo ?u = lo y" "hi ?u = hi z" using resize[OF e(2), of y] y by auto
    have eq: "region_end y = reg_location z" using True e by (simp add: word_unat_eq_iff lo_def)
    have tr: "trim ?m (length pre) = Some (pre @ ?u # insert_loop new zs, Some (length pre))"
      using True no eq by (intro trim_join) auto
    have "type_at (pre @ ?u # insert_loop new zs) a = type_at ?m a" for a
      using type_merge[of y z ?u a] True u y by (simp add: tmax_ac)
    moreover have "\<not> region_less new ?u" using u y lz by (simp add: region_less_nat)
    then have "pre @ ?u # insert_loop new zs = pre @ insert_loop new (?u # zs)" by simp
    moreover have "floating pre new (?u # zs)"
      using fl c u y ok True lz hd by (auto simp: floating_def high_disjoint_def region_ok_def)
    ultimately show ?thesis using tr len unfolding loop_inv_def
      by (intro trim_okI[OF tr]) (auto simp: loop_inv_def)
  next
    case False
    then have tr: "trim ?m (length pre) = Some (?m, Some (length pre + 1))"
      using no e by (intro trim_skip) (auto simp: word_unat_eq_iff lo_def)
    have "floating (pre @ [y]) new (z # zs)"
      using fl c y lz by (auto simp: floating_def high_disjoint_def)
    moreover have "?m = (pre @ [y]) @ insert_loop new (z # zs)" using le by simp
    ultimately have "loop_inv (length pre + 1) ?m"
      using len unfolding loop_inv_def
      by (intro disjI2 conjI exI[of _ "pre @ [y]"] exI[of _ new] exI[of _ "z # zs"]) auto
    then show ?thesis using tr by (blast intro: trim_okI)
  qed
qed

lemma trim_step:
  assumes "loop_inv i m"
  shows "trim_ok i m"
proof (cases "settled i m")
  case True
  then show ?thesis by (rule trim_settled)
next
  case False
  then obtain pre new d where m: "m = pre @ insert_loop new d" and i: "i = length pre"
    and fl: "floating pre new d" and len: "length m < capacity"
    using assms by (auto simp: loop_inv_def)
  have ch: "insert_loop r rs = r # rs" if "chain 0 (xs @ r # rs)" for xs r rs
    using that by (auto intro: insert_loop_chain)
  show ?thesis
  proof (cases d)
    case Nil
    then have "map_wf m" using m fl by (auto simp: map_wf_def floating_def)
    then show ?thesis using m i Nil by (simp add: trim_ok_def trim_last)
  next
    case (Cons y ys)
    have yys: "insert_loop y ys = y # ys"
      using fl Cons ch[of pre] by (auto simp: floating_def)
    consider (left) "region_less new y"
      | (right) "\<not> region_less new y" "ys = [] \<or> region_less new (hd ys)"
      | (later) z zs where "ys = z # zs" "\<not> region_less new y" "\<not> region_less new z"
      by (cases ys) auto
    then show ?thesis
    proof cases
      case left
      then show ?thesis using trim_floating_left[of pre new y ys] fl m i Cons len yys by simp
    next
      case right
      have "insert_loop new ys = new # ys"
      proof (cases ys)
        case (Cons z zs)
        then have "insert_loop z zs = z # zs"
          using fl \<open>d = y # ys\<close> ch[of "pre @ [y]"] by (auto simp: floating_def)
        then show ?thesis using right Cons by simp
      qed simp
      then show ?thesis using trim_floating_right[of pre new y ys] fl m i Cons len right by simp
    next
      case later
      then show ?thesis using trim_floating_later[of pre new y z zs] fl m i Cons len by simp
    qed
  qed
qed

lemma place_loop_correct:
  assumes "loop_inv i m"
  shows "\<exists>m'. place_loop m i = Some m' \<and> map_wf m' \<and> (\<forall>a. type_at m' a = type_at m a)"
  using assms
proof (induction m i rule: place_loop.induct)
  case (1 m i)
  from trim_step[OF "1.prems"] obtain m' nx where tr: "trim m i = Some (m', nx)"
    and ty: "\<forall>a. type_at m' a = type_at m a"
    and nx: "case nx of None \<Rightarrow> map_wf m' | Some j \<Rightarrow> loop_inv j m'"
    by (auto simp: trim_ok_def)
  show ?case
  proof (cases nx)
    case None
    then show ?thesis using tr ty nx by (simp add: place_loop.simps[of m i])
  next
    case (Some j)
    then obtain m'' where "place_loop m' j = Some m''" "map_wf m''" "\<forall>a. type_at m'' a = type_at m' a"
      using "1.IH"[of "(m', Some j)" m' "Some j" j] tr nx by auto
    then show ?thesis using tr ty Some by (simp add: place_loop.simps[of m i])
  qed
qed


section \<open>Placing a region\<close>

definition span_type :: "MemoryType \<Rightarrow> u64 \<Rightarrow> u64 \<Rightarrow> nat \<Rightarrow> MemoryType option" where
  "span_type t l s a = (if unat l \<le> a \<and> a < unat l + unat s then Some t else None)"

lemma type_in_mk: "type_in \<lparr>reg_type = t, reg_location = l, reg_size = s\<rparr> a = span_type t l s a"
  by (simp add: type_in_def span_type_def lo_def hi_def)

lemma place_starts_loop:
  assumes "map_wf m" "length m \<le> capacity - 2" "s \<noteq> 0" "unat l + unat s < 2 ^ 64"
    and hd: "\<And>r. r \<in> set m \<Longrightarrow> t < reg_type r \<Longrightarrow> hi r \<le> unat l \<or> unat l + unat s \<le> lo r"
  shows "loop_inv 0 (insert_loop \<lparr>reg_type = t, reg_location = l, reg_size = s\<rparr> m)"
proof -
  let ?r = "\<lparr>reg_type = t, reg_location = l, reg_size = s\<rparr>"
  have "0 < unat s" using assms(3) by (simp add: unat_gt_0)
  then have "region_ok ?r" using assms(4) by (simp add: region_ok_def lo_def hi_def)
  moreover have "high_disjoint ?r m" using hd by (simp add: high_disjoint_def lo_def hi_def)
  ultimately have "floating [] ?r m" using assms(1) by (simp add: floating_def map_wf_def)
  moreover have "length (insert_loop ?r m) < capacity"
    using assms(2) by (simp add: capacity_def)
  ultimately show ?thesis unfolding loop_inv_def by force
qed



text \<open>The map refuses a region, unchanged and with a nonzero result, when fewer than two of
  the sixteen entries are left.\<close>

theorem place_refuses_when_full: "place m t l s = Some (-1, m) \<longleftrightarrow> 14 < length m"
proof -
  have "place m t l s \<noteq> Some (-1, m)" if "length m \<le> 14"
    using that by (auto simp: place_def capacity_def split: option.splits)
  then show ?thesis by (auto simp: place_def capacity_def)
qed

text \<open>Without the restriction on the types the specification fails. Placing available memory
  over a defective, an MMIO and a further MMIO region where the first two touch leaves two
  overlapping regions: after the split whose left part is empty, \<open>trim\<close> skips the entry it has
  just inserted.\<close>

theorem place_leaves_overlap:
  "place [\<lparr>reg_type = DEFECTIVE, reg_location = 0, reg_size = 10\<rparr>,
          \<lparr>reg_type = MMIO, reg_location = 10, reg_size = 10\<rparr>,
          \<lparr>reg_type = MMIO, reg_location = 30, reg_size = 10\<rparr>] AVAILABLE 5 95
   = Some (0, [\<lparr>reg_type = DEFECTIVE, reg_location = 0, reg_size = 10\<rparr>,
               \<lparr>reg_type = MMIO, reg_location = 10, reg_size = 10\<rparr>,
               \<lparr>reg_type = AVAILABLE, reg_location = 20, reg_size = 80\<rparr>,
               \<lparr>reg_type = MMIO, reg_location = 30, reg_size = 10\<rparr>])"
  by code_simp

text \<open>The check for two free entries does not bound the number of splits. Placing available
  memory over fourteen separate unavailable regions stores outside the array of the map.\<close>

theorem place_overruns_array:
  "place (map (\<lambda>i. \<lparr>reg_type = UNAVAILABLE, reg_location = 20 * of_nat i + 10, reg_size = 10\<rparr>)
            [0..<14]) AVAILABLE 0 1000 = None"
  by code_simp

end
