(* ===== verification/Util_Math.thy ===== *)
theory Util_Math
  imports Cros_Prelude
begin

text \<open>
  The integer helpers of \<^verbatim>\<open>src/util/math.h\<close> and \<^verbatim>\<open>src/containers/math.h\<close>. The kernel is
  built with GCC for a target with 8-byte \<open>long\<close>, so of the conditional bodies of \<open>ilog2\<close>
  and \<open>llog2\<close> the ones on \<^verbatim>\<open>__builtin_clz\<close> and \<^verbatim>\<open>__builtin_clzl\<close> are modelled. The compiler
  builtin counts the leading zero bits of a nonzero word.
\<close>

definition clz :: "'a::len word \<Rightarrow> nat" where
  "clz w = length (takeWhile (\<lambda>i. \<not> bit w i) (rev [0..<LENGTH('a)]))"

definition ilog2 :: "u32 \<Rightarrow> nat" where
  "ilog2 x = (if x \<le> 1 then 0 else 32 - clz (x - 1))"

definition llog2 :: "u64 \<Rightarrow> nat" where
  "llog2 x = (if x \<le> 1 then 0 else 64 - clz (x - 1))"

definition math_min :: "int \<Rightarrow> int \<Rightarrow> int" where
  "math_min x y = (if x < y then x else y)"

definition math_max :: "int \<Rightarrow> int \<Rightarrow> int" where
  "math_max x y = (if x > y then x else y)"

definition math_abs :: "int \<Rightarrow> int" where
  "math_abs x = (if x < 0 then - x else x)"

text \<open>\<open>pow\<close> at type \<open>int\<close>; the integer quotient \<open>1 / result\<close> truncates towards zero, and
  divides by zero (no value) for base 0.\<close>

primrec pow_loop :: "int \<Rightarrow> nat \<Rightarrow> int \<Rightarrow> int" where
  "pow_loop base 0 result = result"
| "pow_loop base (Suc n) result = pow_loop base n (result * base)"

definition math_pow :: "int \<Rightarrow> int \<Rightarrow> int option" where
  "math_pow base exponent =
     (let result = pow_loop base (nat (math_abs exponent)) 1
      in if exponent \<ge> 0 then Some result
         else if result = 0 then None
         else Some (sgn result * (1 div \<bar>result\<bar>)))"

section \<open>Leading zeros and logarithms\<close>

lemma clz_top_bit:
  fixes w :: "'a::len word"
  assumes "w \<noteq> 0"
  shows "clz w < LENGTH('a)" and "bit w (LENGTH('a) - 1 - clz w)"
    and "\<And>i. LENGTH('a) - clz w \<le> i \<Longrightarrow> \<not> bit w i"
proof -
  let ?xs = "rev [0..<LENGTH('a)]"
  let ?P = "\<lambda>i. \<not> bit w i"
  have nth: "?xs ! j = LENGTH('a) - 1 - j" if "j < LENGTH('a)" for j
    using that by (simp add: rev_nth)
  obtain b where b: "bit w b" using assms bit_eq_iff [of w 0] by auto
  then have "b \<in> set ?xs" by (simp add: bit_imp_le_length)
  then have "takeWhile ?P ?xs \<noteq> ?xs" using b by (metis takeWhile_eq_all_conv)
  then have lt: "length (takeWhile ?P ?xs) < length ?xs"
    by (metis length_takeWhile_le nat_less_le append_Nil2 append_eq_append_conv takeWhile_dropWhile_id)
  then show len: "clz w < LENGTH('a)" by (simp add: clz_def)
  have "\<not> ?P (?xs ! length (takeWhile ?P ?xs))" by (rule nth_length_takeWhile [OF lt])
  then show "bit w (LENGTH('a) - 1 - clz w)" using len nth by (simp add: clz_def)
  show "\<not> bit w i" if "LENGTH('a) - clz w \<le> i" for i
  proof
    assume bi: "bit w i"
    then have i: "i < LENGTH('a)" by (rule bit_imp_le_length)
    define j where "j = LENGTH('a) - 1 - i"
    have j: "j < clz w" "j < LENGTH('a)" using that i by (auto simp: j_def)
    then have "takeWhile ?P ?xs ! j \<in> set (takeWhile ?P ?xs)" by (simp add: clz_def)
    moreover have "takeWhile ?P ?xs ! j = i"
      using j i nth[of j] by (simp add: takeWhile_nth clz_def j_def)
    ultimately have "\<not> bit w i" by (metis (no_types, lifting) set_takeWhileD)
    then show False using bi by simp
  qed
qed

lemma clz_bounds:
  fixes w :: "'a::len word"
  assumes "w \<noteq> 0"
  shows "unat w < 2 ^ (LENGTH('a) - clz w)" and "2 ^ (LENGTH('a) - clz w - 1) \<le> unat w"
proof -
  show "unat w < 2 ^ (LENGTH('a) - clz w)"
    by (rule unat_less_if_high_bits_clear) (rule clz_top_bit(3) [OF assms])
  have "bit w (LENGTH('a) - clz w - 1)"
    using clz_top_bit(2) [OF assms] by (simp add: diff_diff_add add.commute)
  then show "2 ^ (LENGTH('a) - clz w - 1) \<le> unat w" by (rule unat_bit_ge)
qed

lemma unat_pred_word: "(x::'a::len word) \<noteq> 0 \<Longrightarrow> unat (x - 1) = unat x - 1"
  by (simp add: unat_minus_one)

lemma llog2_upper: "unat x \<le> 2 ^ llog2 x"
proof (cases "x \<le> 1")
  case True
  then show ?thesis by (simp add: llog2_def word_le_nat_alt)
next
  case False
  then have nz: "x - 1 \<noteq> 0" and x0: "x \<noteq> 0" by auto
  have "unat (x - 1) < 2 ^ (64 - clz (x - 1))" using clz_bounds(1) [OF nz] by simp
  then show ?thesis using False x0 by (simp add: llog2_def unat_pred_word)
qed

lemma llog2_lower: "0 < llog2 x \<Longrightarrow> 2 ^ (llog2 x - 1) < unat x"
proof -
  assume pos: "0 < llog2 x"
  then have gt: "\<not> x \<le> 1" by (auto simp: llog2_def)
  then have nz: "x - 1 \<noteq> 0" and x0: "x \<noteq> 0" by auto
  have "2 ^ (64 - clz (x - 1) - 1) \<le> unat (x - 1)" using clz_bounds(2) [OF nz] by simp
  then have "2 ^ (llog2 x - 1) \<le> unat x - 1"
    using gt x0 by (simp add: llog2_def unat_pred_word)
  moreover have "0 < unat x" using x0 by (simp add: unat_gt_0)
  ultimately show ?thesis by linarith
qed

lemma llog2_le_64: "llog2 x \<le> 64"
  by (simp add: llog2_def)

lemma llog2_eq_if:
  assumes "2 ^ k < 2 * unat x" and "unat x \<le> 2 ^ k"
  shows "llog2 x = k"
proof (rule antisym)
  show "llog2 x \<le> k"
  proof (rule ccontr)
    assume "\<not> llog2 x \<le> k"
    then have k: "k \<le> llog2 x - 1" and p: "0 < llog2 x" by auto
    have "(2::nat) ^ k \<le> 2 ^ (llog2 x - 1)" using k by (simp add: power_increasing)
    then show False using llog2_lower [OF p] assms(2) by linarith
  qed
  show "k \<le> llog2 x"
  proof (rule ccontr)
    assume "\<not> k \<le> llog2 x"
    then have "Suc (llog2 x) \<le> k" by simp
    then have "(2::nat) ^ Suc (llog2 x) \<le> 2 ^ k" by (rule power_increasing) simp
    then show False using llog2_upper [of x] assms(1) by simp
  qed
qed

lemma llog2_exp: "k < 64 \<Longrightarrow> llog2 (2 ^ k) = k"
  by (rule llog2_eq_if) (simp_all add: unat_pow2)

lemma pow_loop_eq: "pow_loop b n r = r * b ^ n"
  by (induction n arbitrary: r) (simp_all add: mult.assoc)

lemma math_pow_nonneg: "0 \<le> e \<Longrightarrow> math_pow b e = Some (b ^ nat e)"
  by (simp add: math_pow_def pow_loop_eq math_abs_def)

text \<open>\<open>llog2\<close> is the binary logarithm rounded up.\<close>

theorem llog2_is_ceiling:
  "unat x \<le> 2 ^ llog2 x \<and> (llog2 x = 0 \<or> 2 ^ (llog2 x - 1) < unat x)"
  using llog2_upper llog2_lower by blast

end
