(* ===== verification/Page_Allocator.thy ===== *)
theory Page_Allocator
  imports Util_Math Memory_Map
begin

text \<open>
  The buddy allocator of physical pages, \<^verbatim>\<open>src/memory/pageallocator.cpp\<close>. The code links its
  free blocks into circular doubly linked lists whose nodes lie in two arrays: the list
  heads in \<open>availList\<close> and the blocks in \<open>blockMap\<close>. A pointer to a \<open>Block\<close> is therefore one
  of \<open>Avail k\<close> (\<^verbatim>\<open>&availList[k]\<close>), \<open>Blk i\<close> (\<^verbatim>\<open>&blockMap[i]\<close>) or \<open>Null\<close>. The arrays are functions of
  the index: \<open>blockMap\<close> is the memory from \<open>mapBase\<close> on. Indices, orders and tags are natural
  numbers; sizes, addresses and \<open>freeBlockCount\<close> are 64-bit words with wrap-around.
\<close>

section \<open>State\<close>

datatype blockref = Null | Avail nat | Blk nat

record Block =
  linkb :: blockref
  linkf :: blockref
  kval :: nat
  tag :: nat

definition RESERVED :: nat where "RESERVED = 0"

definition FREE :: nat where "FREE = 1"

definition Block_default :: Block where
  "Block_default = \<lparr>linkb = Null, linkf = Null, kval = 0, tag = RESERVED\<rparr>"

definition mk_Block :: "blockref \<Rightarrow> blockref \<Rightarrow> nat \<Rightarrow> nat \<Rightarrow> Block" where
  "mk_Block f b k t = \<lparr>linkb = b, linkf = f, kval = k, tag = t\<rparr>"

record PageAllocator =
  availList :: "nat \<Rightarrow> Block"
  blockMap :: "nat \<Rightarrow> Block"
  blockMapSize :: u64
  maxKVal :: nat
  blockSize :: u64
  pa_offset :: u64
  freeBlockCount :: u64

definition NOMEM :: physaddr_t where
  "NOMEM = NOT 0"

definition availListSize :: nat where
  "availListSize = 32"

definition sizeof_Block :: u64 where
  "sizeof_Block = 32"

section \<open>Link fields through a pointer\<close>

fun set_linkf :: "PageAllocator \<Rightarrow> blockref \<Rightarrow> blockref \<Rightarrow> PageAllocator option" where
  "set_linkf pa Null v = None"
| "set_linkf pa (Avail k) v =
     Some (pa\<lparr>availList := (availList pa)(k := (availList pa k)\<lparr>linkf := v\<rparr>)\<rparr>)"
| "set_linkf pa (Blk i) v =
     Some (pa\<lparr>blockMap := (blockMap pa)(i := (blockMap pa i)\<lparr>linkf := v\<rparr>)\<rparr>)"

fun set_linkb :: "PageAllocator \<Rightarrow> blockref \<Rightarrow> blockref \<Rightarrow> PageAllocator option" where
  "set_linkb pa Null v = None"
| "set_linkb pa (Avail k) v =
     Some (pa\<lparr>availList := (availList pa)(k := (availList pa k)\<lparr>linkb := v\<rparr>)\<rparr>)"
| "set_linkb pa (Blk i) v =
     Some (pa\<lparr>blockMap := (blockMap pa)(i := (blockMap pa i)\<lparr>linkb := v\<rparr>)\<rparr>)"

definition set_block :: "PageAllocator \<Rightarrow> nat \<Rightarrow> Block \<Rightarrow> PageAllocator" where
  "set_block pa i b = pa\<lparr>blockMap := (blockMap pa)(i := b)\<rparr>"

section \<open>Operations\<close>

text \<open>The body of the merging loop of \<open>insert\<close>: the buddy is unlinked from its list.\<close>

definition unlink_buddy :: "PageAllocator \<Rightarrow> nat \<Rightarrow> PageAllocator option" where
  "unlink_buddy pa b = do {
     pa1 \<leftarrow> set_linkf pa (linkb (blockMap pa b)) (linkf (blockMap pa b));
     pa2 \<leftarrow> set_linkb pa1 (linkf (blockMap pa1 b)) (linkb (blockMap pa1 b));
     Some (set_block pa2 b ((blockMap pa2 b)\<lparr>tag := RESERVED\<rparr>)) }"

text \<open>The loop \<^verbatim>\<open>while (k < maxKVal)\<close>, by the number of orders left.\<close>

primrec merge_loop ::
  "nat \<Rightarrow> PageAllocator \<Rightarrow> nat \<Rightarrow> nat \<Rightarrow> (PageAllocator \<times> nat \<times> nat) option" where
  "merge_loop 0 pa index k = Some (pa, index, k)"
| "merge_loop (Suc n) pa index k =
     (let buddyIndex = index XOR 2 ^ k in
      if tag (blockMap pa buddyIndex) \<noteq> FREE \<or> kval (blockMap pa buddyIndex) \<noteq> k
      then Some (pa, index, k)
      else do {
        pa' \<leftarrow> unlink_buddy pa buddyIndex;
        merge_loop n pa' (if buddyIndex < index then buddyIndex else index) (k + 1) })"

definition link_block :: "PageAllocator \<Rightarrow> nat \<Rightarrow> nat \<Rightarrow> PageAllocator option" where
  "link_block pa index k =
     (let p = linkf (availList pa k);
          pa1 = set_block pa index (mk_Block p (Avail k) k FREE)
      in do {
        pa2 \<leftarrow> set_linkb pa1 p (Blk index);
        set_linkf pa2 (Avail k) (Blk index) })"

definition pa_insert :: "PageAllocator \<Rightarrow> nat \<Rightarrow> nat \<Rightarrow> PageAllocator option" where
  "pa_insert pa index k = do {
     (pa', index', k') \<leftarrow>
        merge_loop (maxKVal pa - k) (pa\<lparr>freeBlockCount := freeBlockCount pa + 2 ^ k\<rparr>) index k;
     link_block pa' index' k' }"

text \<open>The loop \<^verbatim>\<open>while (j > k)\<close> of \<open>reserve\<close>, by the number of halvings left; \<open>i\<close> is the index
  of the block being split.\<close>

definition split_step :: "PageAllocator \<Rightarrow> nat \<Rightarrow> nat \<Rightarrow> PageAllocator" where
  "split_step pa i j =
     (let buddy = i + 2 ^ j;
          pa1 = set_block pa buddy (mk_Block (Avail j) (Avail j) j FREE);
          pa2 = set_block pa1 i ((blockMap pa1 i)\<lparr>kval := j\<rparr>)
      in pa2\<lparr>availList := (availList pa2)(j :=
           (availList pa2 j)\<lparr>linkb := Blk buddy, linkf := Blk buddy\<rparr>)\<rparr>)"

primrec split_loop :: "nat \<Rightarrow> PageAllocator \<Rightarrow> nat \<Rightarrow> nat \<Rightarrow> PageAllocator" where
  "split_loop 0 pa i j = pa"
| "split_loop (Suc n) pa i j = split_loop n (split_step pa i (j - 1)) i (j - 1)"

text \<open>Taking the last block of list \<open>j\<close> off the list.\<close>

definition pop_block :: "PageAllocator \<Rightarrow> nat \<Rightarrow> (nat \<times> PageAllocator) option" where
  "pop_block pa j =
     (case linkb (availList pa j) of
        Blk i \<Rightarrow> do {
          pa1 \<leftarrow> set_linkb pa (Avail j) (linkb (blockMap pa i));
          pa2 \<leftarrow> set_linkf pa1 (linkb (availList pa1 j)) (Avail j);
          Some (i, set_block pa2 i ((blockMap pa2 i)\<lparr>tag := RESERVED\<rparr>)) }
      | _ \<Rightarrow> None)"

text \<open>The loop over the orders \<open>j = k, \<dots>, maxKVal\<close>, by the number of orders left.\<close>

primrec reserve_loop ::
  "nat \<Rightarrow> PageAllocator \<Rightarrow> nat \<Rightarrow> nat \<Rightarrow> (physaddr_t \<times> PageAllocator) option" where
  "reserve_loop 0 pa k j = Some (NOMEM, pa)"
| "reserve_loop (Suc n) pa k j =
     (if linkf (availList pa j) \<noteq> Avail j
      then do {
        (i, pa1) \<leftarrow> pop_block pa j;
        let pa2 = split_loop (j - k) pa1 i j;
        Some (pa_offset pa2 + of_nat i * blockSize pa2,
              pa2\<lparr>freeBlockCount := freeBlockCount pa2 - 2 ^ k\<rparr>) }
      else reserve_loop n pa k (j + 1))"

definition pa_reserve :: "PageAllocator \<Rightarrow> u64 \<Rightarrow> (physaddr_t \<times> PageAllocator) option" where
  "pa_reserve pa sz =
     (if blockSize pa = 0 then None
      else let k = llog2 ((sz - 1) div blockSize pa + 1)
           in reserve_loop (Suc (maxKVal pa) - k) pa k k)"

definition pa_free :: "PageAllocator \<Rightarrow> physaddr_t \<Rightarrow> (u64 \<times> PageAllocator) option" where
  "pa_free pa location =
     (if blockSize pa = 0 then None
      else let index = unat ((location - pa_offset pa) div blockSize pa);
               k = kval (blockMap pa index)
           in do {
             pa' \<leftarrow> pa_insert pa index k;
             Some (2 ^ k * blockSize pa', pa') })"

section \<open>Construction\<close>

text \<open>\<open>mapSize\<close> looks for the last available region; with none it reads before the array.\<close>

fun last_available :: "MemoryMap \<Rightarrow> nat \<Rightarrow> nat option" where
  "last_available m 0 = None"
| "last_available m (Suc index) =
     (if reg_type (m ! index) \<noteq> AVAILABLE then last_available m index else Some index)"

definition mapSize :: "MemoryMap \<Rightarrow> u64 \<Rightarrow> u64 option" where
  "mapSize m bs =
     (if bs = 0 then None
      else map_option (\<lambda>index. 2 ^ llog2 (sizeof_Block * region_end (m ! index) div bs))
             (last_available m (length m)))"

definition PageAllocator_default :: "(nat \<Rightarrow> Block) \<Rightarrow> PageAllocator" where
  "PageAllocator_default mem = \<lparr>availList = (\<lambda>_. Block_default), blockMap = mem,
     blockMapSize = 0, maxKVal = 0, blockSize = 0, pa_offset = 0, freeBlockCount = 0\<rparr>"

text \<open>The loop over the pages of one region. It does not end when the region reaches the top of
  the address space and the location wraps around, so it is a partial function.\<close>

partial_function (option) insert_pages ::
  "PageAllocator \<Rightarrow> u64 \<Rightarrow> u64 \<Rightarrow> PageAllocator option" where
  "insert_pages pa location end =
     (if location + blockSize pa \<le> end
      then do {
        pa' \<leftarrow> pa_insert pa (unat (location div blockSize pa)) 0;
        insert_pages (pa'\<lparr>freeBlockCount := freeBlockCount pa' + 1\<rparr>)
                     (location + blockSize pa) end }
      else Some pa)"

fun insert_regions :: "PageAllocator \<Rightarrow> MemoryMap \<Rightarrow> PageAllocator option" where
  "insert_regions pa [] = Some pa"
| "insert_regions pa (r # rs) =
     (if reg_type r \<noteq> AVAILABLE then insert_regions pa rs
      else let l0 = reg_location r + blockSize pa - 1;
               location = l0 - l0 mod blockSize pa
           in do { pa' \<leftarrow> insert_pages pa location (region_end r); insert_regions pa' rs })"

text \<open>The constructor writes the list heads \<open>0, \<dots>, maxKVal\<close> of an array of 32; an order beyond
  that is a store outside the array. \<open>mem\<close> is the memory at \<open>mapBase\<close> before the call.\<close>

definition PageAllocator_init ::
  "MemoryMap \<Rightarrow> (nat \<Rightarrow> Block) \<Rightarrow> u64 \<Rightarrow> PageAllocator option" where
  "PageAllocator_init m mem bs = do {
     bms \<leftarrow> mapSize m bs;
     let maxk = llog2 (bms div sizeof_Block);
     _ \<leftarrow> (if maxk < availListSize then Some () else None);
     let pa = \<lparr>availList = (\<lambda>i. if i \<le> maxk then Block_default\<lparr>linkf := Avail i, linkb := Avail i\<rparr>
                                else Block_default),
               blockMap = (\<lambda>i. if i < unat (bms div sizeof_Block)
                               then mk_Block Null Null 0 RESERVED else mem i),
               blockMapSize = bms, maxKVal = maxk, blockSize = bs, pa_offset = 0,
               freeBlockCount = 0\<rparr>;
     insert_regions pa m }"

declare insert_pages.simps [code]

end
