(* ===== verification/Page_Allocator_Correct.thy ===== *)
theory Page_Allocator_Correct
  imports Page_Allocator
begin

text \<open>
  Correctness of the buddy allocator: the linked lists of the state represent one list of
  free blocks per order, the free blocks are aligned and disjoint, and \<open>reserve\<close>, \<open>free\<close> and
  the constructor act on the set of free pages as an allocator should.
\<close>

section \<open>Circular doubly linked lists\<close>

text \<open>\<open>pchain f a xs b\<close>: following the links \<open>f\<close> from \<open>a\<close> visits the blocks \<open>xs\<close> and then \<open>b\<close>.\<close>

fun pchain :: "(blockref \<Rightarrow> blockref) \<Rightarrow> blockref \<Rightarrow> nat list \<Rightarrow> blockref \<Rightarrow> bool" where
  "pchain f a [] b = (f a = b)"
| "pchain f a (x # xs) b = (f a = Blk x \<and> pchain f (Blk x) xs b)"

fun pend :: "blockref \<Rightarrow> nat list \<Rightarrow> blockref" where
  "pend a [] = a"
| "pend a (x # xs) = pend (Blk x) xs"

fun pfirst :: "nat list \<Rightarrow> blockref \<Rightarrow> blockref" where
  "pfirst [] b = b"
| "pfirst (x # xs) b = Blk x"

lemma pchain_append:
  "pchain f a (xs @ y # ys) b \<longleftrightarrow> pchain f a xs (Blk y) \<and> pchain f (Blk y) ys b"
  by (induction xs arbitrary: a) auto

lemma pchain_cong:
  "(\<And>r. r \<in> insert a (Blk ` set xs) \<Longrightarrow> f r = g r) \<Longrightarrow> pchain f a xs b = pchain g a xs b"
  by (induction xs arbitrary: a) auto

lemma pend_in: "pend a xs \<in> insert a (Blk ` set xs)"
  by (induction xs arbitrary: a) auto

lemma pend_snoc [simp]: "pend a (xs @ [x]) = Blk x"
  by (induction xs arbitrary: a) auto

lemma pchain_first: "pchain f a xs b \<Longrightarrow> f a = pfirst xs b"
  by (cases xs) auto

lemma pchain_retarget:
  assumes "pchain f a xs b" "distinct xs" "a \<notin> Blk ` set xs"
  shows "pchain (f(pend a xs := c)) a xs c"
  using assms
proof (induction xs arbitrary: a)
  case (Cons x xs)
  have "pend (Blk x) xs \<noteq> a" using pend_in[of "Blk x" xs] Cons.prems(3) by auto
  moreover have "pchain (f(pend (Blk x) xs := c)) (Blk x) xs c"
    using Cons by (intro Cons.IH) auto
  ultimately show ?case using Cons.prems by (simp add: fun_upd_def)
qed simp

lemma pchain_skip:
  assumes ch: "pchain f s (ys @ b # zs) e" and d: "distinct (ys @ b # zs)"
    and s: "s \<notin> Blk ` set (ys @ b # zs)"
  shows "pchain (f(pend s ys := f (Blk b))) s (ys @ zs) e"
proof -
  let ?f = "f(pend s ys := f (Blk b))"
  have l: "pchain f s ys (Blk b)" and r: "pchain f (Blk b) zs e" using ch by (auto simp: pchain_append)
  have fb: "f (Blk b) = pfirst zs e" using r by (rule pchain_first)
  have l': "pchain ?f s ys (pfirst zs e)" unfolding fb by (rule pchain_retarget[OF l]) (use d s in auto)
  show ?thesis
  proof (cases zs)
    case Nil
    then show ?thesis using l' by simp
  next
    case (Cons z zs')
    have "pchain f (Blk z) zs' e" using r Cons by simp
    moreover have "pchain ?f (Blk z) zs' e = pchain f (Blk z) zs' e"
      by (rule pchain_cong) (use pend_in[of s ys] d s Cons in auto)
    ultimately show ?thesis using l' Cons by (simp add: pchain_append)
  qed
qed

text \<open>One circular list per order.\<close>

definition dlists :: "(blockref \<Rightarrow> blockref) \<Rightarrow> (blockref \<Rightarrow> blockref) \<Rightarrow> (nat \<Rightarrow> nat list) \<Rightarrow> nat \<Rightarrow> bool"
  where
  "dlists f g L K \<longleftrightarrow>
     (\<forall>k \<le> K. pchain f (Avail k) (L k) (Avail k) \<and> pchain g (Avail k) (rev (L k)) (Avail k)
              \<and> distinct (L k))
     \<and> (\<forall>k \<le> K. \<forall>l \<le> K. k \<noteq> l \<longrightarrow> set (L k) \<inter> set (L l) = {})"

lemma dlistsD:
  assumes "dlists f g L K" "k \<le> K"
  shows "pchain f (Avail k) (L k) (Avail k)" "pchain g (Avail k) (rev (L k)) (Avail k)" "distinct (L k)"
  using assms by (auto simp: dlists_def)

lemma dlists_replace:
  assumes D: "dlists f g L K"
    and xs: "pchain f' (Avail k) xs (Avail k)" "pchain g' (Avail k) (rev xs) (Avail k)" "distinct xs"
    and other: "\<And>l. l \<le> K \<Longrightarrow> l \<noteq> k \<Longrightarrow> pchain f' (Avail l) (L l) (Avail l)"
      "\<And>l. l \<le> K \<Longrightarrow> l \<noteq> k \<Longrightarrow> pchain g' (Avail l) (rev (L l)) (Avail l)"
    and disj: "\<And>l. l \<le> K \<Longrightarrow> l \<noteq> k \<Longrightarrow> set (L l) \<inter> set xs = {}"
  shows "dlists f' g' (L(k := xs)) K"
  unfolding dlists_def
proof (intro conjI allI impI)
  fix l assume l: "l \<le> K"
  show "pchain f' (Avail l) ((L(k := xs)) l) (Avail l)" using xs other(1)[OF l] by simp
  show "pchain g' (Avail l) (rev ((L(k := xs)) l)) (Avail l)" using xs other(2)[OF l] by simp
  show "distinct ((L(k := xs)) l)" using xs dlistsD(3)[OF D l] by simp
  fix l' assume l': "l' \<le> K" "l \<noteq> l'"
  show "set ((L(k := xs)) l) \<inter> set ((L(k := xs)) l') = {}"
    using D l l' disj[OF l] disj[OF l'(1)] by (auto simp: dlists_def)
qed

lemma dlists_unlink:
  assumes D: "dlists f g L K" and k: "k \<le> K" and Lk: "L k = ys @ b # zs"
  shows "dlists (f(g (Blk b) := f (Blk b))) (g(f (Blk b) := g (Blk b))) (L(k := ys @ zs)) K"
    and "g (Blk b) = pend (Avail k) ys" and "f (Blk b) = pend (Avail k) (rev zs)"
proof -
  note d = dlistsD[OF D k]
  have f: "pchain f (Avail k) (ys @ b # zs) (Avail k)" using d(1) Lk by simp
  have g: "pchain g (Avail k) (rev zs @ b # rev ys) (Avail k)" using d(2) Lk by simp
  have dis: "distinct (ys @ b # zs)" using d(3) Lk by simp
  have first_rev: "pfirst (rev xs) a = pend a xs" for xs a
    by (cases xs rule: rev_cases) simp_all
  show gb: "g (Blk b) = pend (Avail k) ys"
    using g by (metis pchain_append pchain_first first_rev)
  show fb: "f (Blk b) = pend (Avail k) (rev zs)"
    using f by (metis pchain_append pchain_first first_rev rev_rev_ident)
  have f': "pchain (f(g (Blk b) := f (Blk b))) (Avail k) (ys @ zs) (Avail k)"
    unfolding gb by (rule pchain_skip[OF f dis]) auto
  have g': "pchain (g(f (Blk b) := g (Blk b))) (Avail k) (rev (ys @ zs)) (Avail k)"
    unfolding fb using pchain_skip[OF g] dis by (auto simp: image_iff)
  have other: "pchain (f(g (Blk b) := f (Blk b))) (Avail l) (L l) (Avail l)"
    "pchain (g(f (Blk b) := g (Blk b))) (Avail l) (rev (L l)) (Avail l)" if "l \<le> K" "l \<noteq> k" for l
  proof -
    have disj: "set (L l) \<inter> set (ys @ b # zs) = {}" using D that k Lk by (fastforce simp: dlists_def)
    have "g (Blk b) \<notin> insert (Avail l) (Blk ` set (L l))"
      unfolding gb using pend_in[of "Avail k" ys] that disj by auto
    moreover have "f (Blk b) \<notin> insert (Avail l) (Blk ` set (L l))"
      unfolding fb using pend_in[of "Avail k" "rev zs"] that disj by auto
    ultimately have
      "pchain (f(g (Blk b) := f (Blk b))) (Avail l) (L l) (Avail l) = pchain f (Avail l) (L l) (Avail l)"
      "pchain (g(f (Blk b) := g (Blk b))) (Avail l) (rev (L l)) (Avail l)
        = pchain g (Avail l) (rev (L l)) (Avail l)"
      by (intro pchain_cong; auto)+
    then show "pchain (f(g (Blk b) := f (Blk b))) (Avail l) (L l) (Avail l)"
      "pchain (g(f (Blk b) := g (Blk b))) (Avail l) (rev (L l)) (Avail l)"
      using dlistsD[OF D that(1)] by auto
  qed
  have "distinct (ys @ zs)" using dis by auto
  then show "dlists (f(g (Blk b) := f (Blk b))) (g(f (Blk b) := g (Blk b))) (L(k := ys @ zs)) K"
  proof (intro dlists_replace[OF D f' g' _ other])
    fix l assume "l \<le> K" "l \<noteq> k"
    then have "set (L l) \<inter> set (L k) = {}" using D k by (auto simp: dlists_def)
    then show "set (L l) \<inter> set (ys @ zs) = {}" using Lk by auto
  qed
qed

lemma dlists_push:
  assumes D: "dlists f g L K" and k: "k \<le> K" and new: "\<forall>l \<le> K. i \<notin> set (L l)"
  shows "dlists (f(Blk i := f (Avail k), Avail k := Blk i))
                (g(Blk i := Avail k, f (Avail k) := Blk i)) (L(k := i # L k)) K"
proof -
  note d = dlistsD[OF D k]
  let ?f = "f(Blk i := f (Avail k), Avail k := Blk i)"
  let ?g = "g(Blk i := Avail k, f (Avail k) := Blk i)"
  have ik: "i \<notin> set (L k)" using new k by simp
  have fa: "f (Avail k) = pend (Avail k) (rev (L k))"
    using pchain_first[OF d(1)] by (cases "L k") simp_all
  have fan: "f (Avail k) \<noteq> Blk i" unfolding fa using pend_in[of "Avail k" "rev (L k)"] ik by auto
  have fk: "pchain ?f (Avail k) (i # L k) (Avail k)"
  proof (cases "L k")
    case Nil
    then show ?thesis using d(1) by simp
  next
    case (Cons x xs)
    have "pchain ?f (Blk x) xs (Avail k) = pchain f (Blk x) xs (Avail k)"
      by (rule pchain_cong) (use ik Cons in auto)
    then show ?thesis using d(1) Cons by simp
  qed
  have "pchain (g(f (Avail k) := Blk i)) (Avail k) (rev (L k)) (Blk i)"
    unfolding fa by (rule pchain_retarget[OF d(2)]) (use d(3) in auto)
  moreover have "pchain ?g (Avail k) (rev (L k)) (Blk i)
      = pchain (g(f (Avail k) := Blk i)) (Avail k) (rev (L k)) (Blk i)"
    by (rule pchain_cong) (use ik in auto)
  ultimately have gk: "pchain ?g (Avail k) (rev (i # L k)) (Avail k)"
    using fan by (simp add: pchain_append)
  have other: "pchain ?f (Avail l) (L l) (Avail l)" "pchain ?g (Avail l) (rev (L l)) (Avail l)"
    if "l \<le> K" "l \<noteq> k" for l
  proof -
    have disj: "set (L l) \<inter> set (L k) = {}" "i \<notin> set (L l)" using D that k new by (auto simp: dlists_def)
    have fo: "f (Avail k) \<notin> insert (Avail l) (Blk ` set (L l))"
      unfolding fa using pend_in[of "Avail k" "rev (L k)"] that disj by auto
    then have fo': "Blk x \<noteq> f (Avail k)" if "x \<in> set (L l)" for x using that by (metis image_eqI insertCI)
    have "pchain ?f (Avail l) (L l) (Avail l) = pchain f (Avail l) (L l) (Avail l)"
      by (rule pchain_cong) (use disj that in auto)
    moreover have "pchain ?g (Avail l) (rev (L l)) (Avail l) = pchain g (Avail l) (rev (L l)) (Avail l)"
      by (rule pchain_cong) (use disj fo fo' in auto)
    ultimately show "pchain ?f (Avail l) (L l) (Avail l)" "pchain ?g (Avail l) (rev (L l)) (Avail l)"
      using dlistsD[OF D that(1)] by auto
  qed
  show ?thesis
  proof (rule dlists_replace[OF D fk gk _ other])
    show "distinct (i # L k)" using ik d(3) by simp
    fix l assume "l \<le> K" "l \<noteq> k"
    then show "set (L l) \<inter> set (i # L k) = {}" using D k new by (auto simp: dlists_def)
  qed
qed


section \<open>Buddies\<close>

lemma ivl_split: "x \<le> y \<Longrightarrow> {a..<a + y} = {a..<a + x} \<union> {a + x..<a + (y::nat)}"
  by auto

lemma xor_one_nat: "(q::nat) XOR 1 = (if even q then q + 1 else q - 1)"
  by (simp add: xor_Suc_0_eq)

lemma xor_buddy:
  assumes "2 ^ k dvd i"
  shows "(i::nat) XOR 2 ^ k = (if even (i div 2 ^ k) then i + 2 ^ k else i - 2 ^ k)"
proof -
  obtain q where q: "i = 2 ^ k * q" using assms by blast
  have "i XOR 2 ^ k = push_bit k (q XOR 1)"
    by (simp only: q push_bit_xor) (simp add: push_bit_eq_mult mult.commute)
  also have "\<dots> = (if even q then (q + 1) * 2 ^ k else (q - 1) * 2 ^ k)"
    by (simp only: xor_one_nat push_bit_eq_mult if_distrib[of "\<lambda>x. x * 2 ^ k"])
  finally show ?thesis using q by (simp add: algebra_simps)
qed

lemma buddy_props:
  assumes "2 ^ k dvd i" "(i::nat) + 2 ^ k \<le> 2 ^ K" "k < K"
  defines "b \<equiv> i XOR 2 ^ k"
  shows "2 ^ k dvd b" "b + 2 ^ k \<le> 2 ^ K" "2 ^ Suc k dvd min b i"
    "i + 2 ^ k \<le> b \<or> b + 2 ^ k \<le> i" "max b i = min b i + 2 ^ k"
proof -
  obtain q where q: "i = 2 ^ k * q" using assms(1) by blast
  obtain n where n: "(2::nat) ^ K = 2 ^ k * (2 * 2 ^ n)"
    using assms(3) by (metis less_imp_Suc_add power_Suc power_add add_Suc_right)
  have b: "b = (if even q then 2 ^ k * (q + 1) else 2 ^ k * (q - 1))"
    using xor_buddy[OF assms(1)] q by (simp add: b_def algebra_simps)
  have bound: "q + 1 \<le> 2 * 2 ^ n"
  proof -
    have "2 ^ k * (q + 1) \<le> 2 ^ k * (2 * 2 ^ n)" using assms(2) q n by (simp add: algebra_simps)
    then show ?thesis using nat_mult_le_cancel1[of "2 ^ k" "q + 1"] by simp
  qed
  show "2 ^ k dvd b" using b by auto
  show "b + 2 ^ k \<le> 2 ^ K"
  proof (cases "even q")
    case True
    then have "q + 1 \<noteq> 2 * 2 ^ n" by (metis dvd_triv_left even_plus_one_iff)
    then have "q + 2 \<le> 2 * 2 ^ n" using bound by linarith
    then have "2 ^ k * (q + 2) \<le> 2 ^ k * (2 * 2 ^ n)" by (rule mult_le_mono2)
    then show ?thesis using True b n by (simp add: algebra_simps)
  next
    case False
    then have "b \<le> i" using b q by simp
    then show ?thesis using assms(2) by linarith
  qed
  show "2 ^ Suc k dvd min b i"
  proof (cases "even q")
    case True
    then have "min b i = 2 ^ k * q" using b q by simp
    then show ?thesis using True by (auto elim!: evenE)
  next
    case False
    then obtain r where "q = 2 * r + 1" by (elim oddE)
    then have "min b i = 2 ^ k * (2 * r)" using b q by simp
    then show ?thesis by simp
  qed
  show "i + 2 ^ k \<le> b \<or> b + 2 ^ k \<le> i" "max b i = min b i + 2 ^ k"
    using b q by (cases "even q"; auto elim!: oddE simp: algebra_simps)+
qed

section \<open>The invariant\<close>

fun lf :: "PageAllocator \<Rightarrow> blockref \<Rightarrow> blockref" where
  "lf pa Null = Null"
| "lf pa (Avail k) = linkf (availList pa k)"
| "lf pa (Blk i) = linkf (blockMap pa i)"

fun lb :: "PageAllocator \<Rightarrow> blockref \<Rightarrow> blockref" where
  "lb pa Null = Null"
| "lb pa (Avail k) = linkb (availList pa k)"
| "lb pa (Blk i) = linkb (blockMap pa i)"

text \<open>The blocks on the lists are aligned, inside the map and pairwise disjoint.\<close>

definition blocks_ok :: "(nat \<Rightarrow> nat list) \<Rightarrow> nat \<Rightarrow> bool" where
  "blocks_ok L K \<longleftrightarrow>
     (\<forall>k \<le> K. \<forall>i \<in> set (L k). 2 ^ k dvd i \<and> i + 2 ^ k \<le> 2 ^ K)
     \<and> (\<forall>k \<le> K. \<forall>l \<le> K. \<forall>i \<in> set (L k). \<forall>j \<in> set (L l).
          (i, k) \<noteq> (j, l) \<longrightarrow> i + 2 ^ k \<le> j \<or> j + 2 ^ l \<le> i)"

text \<open>The tags of the map tell the blocks on the lists from all others.\<close>

definition tags_ok :: "PageAllocator \<Rightarrow> (nat \<Rightarrow> nat list) \<Rightarrow> bool" where
  "tags_ok pa L \<longleftrightarrow>
     (\<forall>i < 2 ^ maxKVal pa. tag (blockMap pa i) = FREE \<longleftrightarrow> (\<exists>k \<le> maxKVal pa. i \<in> set (L k)))
     \<and> (\<forall>k \<le> maxKVal pa. \<forall>i \<in> set (L k). kval (blockMap pa i) = k)"

definition pa_inv :: "PageAllocator \<Rightarrow> (nat \<Rightarrow> nat list) \<Rightarrow> bool" where
  "pa_inv pa L \<longleftrightarrow> blockSize pa \<noteq> 0 \<and> dlists (lf pa) (lb pa) L (maxKVal pa)
     \<and> blocks_ok L (maxKVal pa) \<and> tags_ok pa L"

definition pages :: "(nat \<Rightarrow> nat list) \<Rightarrow> nat \<Rightarrow> nat set" where
  "pages L K = {p. \<exists>k \<le> K. \<exists>i \<in> set (L k). i \<le> p \<and> p < i + 2 ^ k}"

definition same_config :: "PageAllocator \<Rightarrow> PageAllocator \<Rightarrow> bool" where
  "same_config pa pa' \<longleftrightarrow> maxKVal pa' = maxKVal pa \<and> blockSize pa' = blockSize pa
     \<and> pa_offset pa' = pa_offset pa \<and> freeBlockCount pa' = freeBlockCount pa"

definition same_info :: "PageAllocator \<Rightarrow> PageAllocator \<Rightarrow> bool" where
  "same_info pa pa' \<longleftrightarrow> (\<forall>i. tag (blockMap pa' i) = tag (blockMap pa i)
     \<and> kval (blockMap pa' i) = kval (blockMap pa i))"

definition same_kval :: "PageAllocator \<Rightarrow> PageAllocator \<Rightarrow> bool" where
  "same_kval pa pa' \<longleftrightarrow> (\<forall>i. kval (blockMap pa' i) = kval (blockMap pa i))"

lemma lf_cases: "lf pa = h \<longleftrightarrow> h Null = Null \<and> (\<forall>k. linkf (availList pa k) = h (Avail k))
    \<and> (\<forall>i. linkf (blockMap pa i) = h (Blk i))"
proof
  assume r: "h Null = Null \<and> (\<forall>k. linkf (availList pa k) = h (Avail k))
    \<and> (\<forall>i. linkf (blockMap pa i) = h (Blk i))"
  show "lf pa = h"
  proof
    fix x show "lf pa x = h x" using r by (cases x) auto
  qed
qed auto

lemma lb_cases: "lb pa = h \<longleftrightarrow> h Null = Null \<and> (\<forall>k. linkb (availList pa k) = h (Avail k))
    \<and> (\<forall>i. linkb (blockMap pa i) = h (Blk i))"
proof
  assume r: "h Null = Null \<and> (\<forall>k. linkb (availList pa k) = h (Avail k))
    \<and> (\<forall>i. linkb (blockMap pa i) = h (Blk i))"
  show "lb pa = h"
  proof
    fix x show "lb pa x = h x" using r by (cases x) auto
  qed
qed auto

lemma set_linkf_eq:
  assumes "r \<noteq> Null"
  obtains pa' where "set_linkf pa r v = Some pa'" "lf pa' = (lf pa)(r := v)" "lb pa' = lb pa"
    "same_config pa pa'" "same_info pa pa'"
  using assms
  by (cases r; simp add: lf_cases lb_cases same_config_def same_info_def)

lemma set_linkb_eq:
  assumes "r \<noteq> Null"
  obtains pa' where "set_linkb pa r v = Some pa'" "lb pa' = (lb pa)(r := v)" "lf pa' = lf pa"
    "same_config pa pa'" "same_info pa pa'"
  using assms
  by (cases r; simp add: lf_cases lb_cases same_config_def same_info_def)

lemma pend_not_Null: "pend (Avail k) xs \<noteq> Null"
  using pend_in[of "Avail k" xs] by auto


lemma pa_invD:
  assumes "pa_inv pa L"
  shows "blockSize pa \<noteq> 0" "dlists (lf pa) (lb pa) L (maxKVal pa)"
    "blocks_ok L (maxKVal pa)" "tags_ok pa L"
  using assms by (auto simp: pa_inv_def)

lemma blocks_okD:
  assumes "blocks_ok L K" "k \<le> K" "i \<in> set (L k)"
  shows "2 ^ k dvd i" "i + 2 ^ k \<le> 2 ^ K" "i < 2 ^ K"
proof -
  show "2 ^ k dvd i" and le: "i + 2 ^ k \<le> 2 ^ K" using assms by (auto simp: blocks_ok_def)
  have "0 < (2::nat) ^ k" by simp
  then show "i < 2 ^ K" using le by linarith
qed

lemma blocks_ok_disjoint:
  assumes "blocks_ok L K" "k \<le> K" "l \<le> K" "i \<in> set (L k)" "j \<in> set (L l)" "(i, k) \<noteq> (j, l)"
  shows "i + 2 ^ k \<le> j \<or> j + 2 ^ l \<le> i"
  using assms unfolding blocks_ok_def by blast

lemma blocks_ok_subset:
  assumes "blocks_ok L K" "\<And>k. k \<le> K \<Longrightarrow> set (L' k) \<subseteq> set (L k)"
  shows "blocks_ok L' K"
  unfolding blocks_ok_def
proof (intro conjI allI impI ballI)
  fix k i assume k: "k \<le> K" and "i \<in> set (L' k)"
  then have i: "i \<in> set (L k)" using assms(2) by blast
  show "2 ^ k dvd i" "i + 2 ^ k \<le> 2 ^ K" using blocks_okD[OF assms(1) k i] by auto
  fix l j assume l: "l \<le> K" and "j \<in> set (L' l)" and ne: "(i, k) \<noteq> (j, l)"
  then have j: "j \<in> set (L l)" using assms(2) by blast
  show "i + 2 ^ k \<le> j \<or> j + 2 ^ l \<le> i" by (rule blocks_ok_disjoint[OF assms(1) k l i j ne])
qed

lemma pages_block: "k \<le> K \<Longrightarrow> i \<in> set (L k) \<Longrightarrow> {i..<i + 2 ^ k} \<subseteq> pages L K"
  by (auto simp: pages_def intro!: exI[of _ k] bexI[of _ i])

lemma pages_member: "p \<in> pages L K \<longleftrightarrow> (\<exists>k \<le> K. \<exists>i \<in> set (L k). i \<le> p \<and> p < i + 2 ^ k)"
  by (simp add: pages_def)

lemma pages_remove:
  assumes B: "blocks_ok L K" and k: "k \<le> K" and Lk: "L k = ys @ b # zs" and d: "distinct (L k)"
  shows "pages L K = pages (L(k := ys @ zs)) K \<union> {b..<b + 2 ^ k}"
    and "pages (L(k := ys @ zs)) K \<inter> {b..<b + 2 ^ k} = {}"
proof -
  let ?L = "L(k := ys @ zs)"
  have sub: "set (?L l) \<subseteq> set (L l)" for l using Lk by auto
  show "pages L K = pages ?L K \<union> {b..<b + 2 ^ k}"
  proof (intro set_eqI iffI)
    fix p assume "p \<in> pages L K"
    then obtain l i where li: "l \<le> K" "i \<in> set (L l)" "i \<le> p" "p < i + 2 ^ l"
      by (auto simp: pages_def)
    show "p \<in> pages ?L K \<union> {b..<b + 2 ^ k}"
    proof (cases "(i, l) = (b, k)")
      case True
      then show ?thesis using li by auto
    next
      case False
      then have "i \<in> set (?L l)" using li Lk by auto
      then show ?thesis using li unfolding pages_def by blast
    qed
  next
    fix p assume "p \<in> pages ?L K \<union> {b..<b + 2 ^ k}"
    then show "p \<in> pages L K"
    proof
      assume "p \<in> pages ?L K" then show ?thesis using sub unfolding pages_def by blast
    next
      assume "p \<in> {b..<b + 2 ^ k}" then show ?thesis using k Lk pages_block[of k K b L] by auto
    qed
  qed
  show "pages ?L K \<inter> {b..<b + 2 ^ k} = {}"
  proof (rule ccontr)
    assume "\<not> ?thesis"
    then obtain p l i where li: "l \<le> K" "i \<in> set (?L l)" "i \<le> p" "p < i + 2 ^ l"
      "b \<le> p" "p < b + 2 ^ k" by (auto simp: pages_def)
    have ne: "(i, l) \<noteq> (b, k)" using li d Lk by auto
    have "i \<in> set (L l)" using li sub by blast
    from blocks_ok_disjoint[OF B li(1) k this _ ne] Lk
    have "i + 2 ^ l \<le> b \<or> b + 2 ^ k \<le> i" by simp
    then show False using li by linarith
  qed
qed

lemma pages_add: "k \<le> K \<Longrightarrow> pages (L(k := i # L k)) K = pages L K \<union> {i..<i + 2 ^ k}"
proof (intro set_eqI iffI)
  fix p assume k: "k \<le> K" and "p \<in> pages (L(k := i # L k)) K"
  then obtain l j where lj: "l \<le> K" "j \<in> set ((L(k := i # L k)) l)" "j \<le> p" "p < j + 2 ^ l"
    by (auto simp: pages_def)
  then have "j \<in> set (L l) \<or> (l = k \<and> j = i)" by (auto split: if_splits)
  then show "p \<in> pages L K \<union> {i..<i + 2 ^ k}"
  proof (elim disjE)
    assume "j \<in> set (L l)"
    moreover have "p \<in> {j..<j + 2 ^ l}" using lj by simp
    ultimately show ?thesis using pages_block[OF lj(1), of j L] by blast
  qed (use lj in auto)
next
  fix p assume k: "k \<le> K" and "p \<in> pages L K \<union> {i..<i + 2 ^ k}"
  then show "p \<in> pages (L(k := i # L k)) K"
  proof (elim UnE)
    assume "p \<in> {i..<i + 2 ^ k}"
    then show ?thesis using k unfolding pages_def by (auto intro!: exI[of _ k])
  next
    assume "p \<in> pages L K"
    then obtain l j where "l \<le> K" "j \<in> set (L l)" "j \<le> p" "p < j + 2 ^ l" by (auto simp: pages_def)
    moreover from this have "j \<in> set ((L(k := i # L k)) l)" by auto
    ultimately show ?thesis unfolding pages_def by blast
  qed
qed

lemma blocks_ok_add:
  assumes B: "blocks_ok L K" and k: "k \<le> K" and al: "2 ^ k dvd i" "i + 2 ^ k \<le> 2 ^ K"
    and disj: "{i..<i + 2 ^ k} \<inter> pages L K = {}"
  shows "blocks_ok (L(k := i # L k)) K"
proof -
  have apart: "i + 2 ^ k \<le> j \<or> j + 2 ^ l \<le> i" if "l \<le> K" "j \<in> set (L l)" for j l
  proof (rule ccontr)
    assume n: "\<not> ?thesis"
    have "max i j \<in> {i..<i + 2 ^ k}" using n by (auto simp: not_le max_def)
    moreover have "max i j \<in> {j..<j + 2 ^ l}" using n by (auto simp: not_le max_def)
    ultimately show False using disj pages_block[of l K j L] that by blast
  qed
  have set: "x \<in> set ((L(k := i # L k)) l) \<longleftrightarrow> x \<in> set (L l) \<or> (l = k \<and> x = i)" for x l by auto
  show ?thesis unfolding blocks_ok_def set
  proof (intro conjI allI impI ballI)
    fix l j assume l: "l \<le> K" and j: "j \<in> set ((L(k := i # L k)) l)"
    then have "j \<in> set (L l) \<or> (l = k \<and> j = i)" using set by blast
    then show "2 ^ l dvd j" "j + 2 ^ l \<le> 2 ^ K" using blocks_okD[OF B l] al by auto
    fix m x assume m: "m \<le> K" and x: "x \<in> set ((L(k := i # L k)) m)" and ne: "(j, l) \<noteq> (x, m)"
    then have "x \<in> set (L m) \<or> (m = k \<and> x = i)" using set by blast
    then show "j + 2 ^ l \<le> x \<or> x + 2 ^ m \<le> j"
      using \<open>j \<in> set (L l) \<or> (l = k \<and> j = i)\<close> apart[OF l] apart[OF m]
        blocks_ok_disjoint[OF B l m _ _ ne] ne by auto
  qed
qed

section \<open>Inserting a block\<close>

lemma lf_set_block_info:
  assumes "linkf b = linkf (blockMap pa i)" "linkb b = linkb (blockMap pa i)"
  shows "lf (set_block pa i b) = lf pa" "lb (set_block pa i b) = lb pa"
  using assms by (auto simp: lf_cases lb_cases set_block_def)

lemma same_config_trans: "same_config a b \<Longrightarrow> same_config b c \<Longrightarrow> same_config a c"
  by (simp add: same_config_def)

lemma same_kval_trans: "same_kval a b \<Longrightarrow> same_kval b c \<Longrightarrow> same_kval a c"
  by (simp add: same_kval_def)

lemma same_config_set_block [simp]: "same_config pa (set_block pa' i b) = same_config pa pa'"
  by (simp add: same_config_def set_block_def)

lemma unlink_buddy_correct:
  assumes I: "pa_inv pa L" and k: "k \<le> maxKVal pa" and Lk: "L k = ys @ b # zs"
  obtains pa' where "unlink_buddy pa b = Some pa'" "pa_inv pa' (L(k := ys @ zs))" "same_config pa pa'"
    "same_kval pa pa'"
proof -
  note D = pa_invD[OF I]
  let ?f = "lf pa" and ?g = "lb pa" and ?K = "maxKVal pa"
  note u = dlists_unlink[OF D(2) k Lk]
  have dis: "distinct (ys @ b # zs)" using dlistsD(3)[OF D(2) k] Lk by simp
  have nb: "?g (Blk b) \<noteq> Null" "?f (Blk b) \<noteq> Null" "?g (Blk b) \<noteq> Blk b"
    unfolding u(2,3) using pend_not_Null pend_in[of "Avail k" ys] dis by auto
  obtain pa1 where p1: "set_linkf pa (?g (Blk b)) (?f (Blk b)) = Some pa1"
    "lf pa1 = ?f(?g (Blk b) := ?f (Blk b))" "lb pa1 = ?g" "same_config pa pa1" "same_info pa pa1"
    using set_linkf_eq[OF nb(1)] by blast
  have l1: "linkf (blockMap pa1 b) = ?f (Blk b)" "linkb (blockMap pa1 b) = ?g (Blk b)"
    using fun_cong[OF p1(2), of "Blk b"] fun_cong[OF p1(3), of "Blk b"] nb by auto
  obtain pa2 where p2: "set_linkb pa1 (?f (Blk b)) (?g (Blk b)) = Some pa2"
    "lb pa2 = (lb pa1)(?f (Blk b) := ?g (Blk b))" "lf pa2 = lf pa1" "same_config pa1 pa2" "same_info pa1 pa2"
    using set_linkb_eq[OF nb(2)] by blast
  let ?pa3 = "set_block pa2 b ((blockMap pa2 b)\<lparr>tag := RESERVED\<rparr>)"
  have r: "unlink_buddy pa b = Some ?pa3"
    using p1(1) p2(1) l1 by (simp add: unlink_buddy_def)
  have c: "same_config pa ?pa3" using p1(4) p2(4) by (auto intro: same_config_trans)
  have links: "lf ?pa3 = ?f(?g (Blk b) := ?f (Blk b))" "lb ?pa3 = ?g(?f (Blk b) := ?g (Blk b))"
    using lf_set_block_info[of "(blockMap pa2 b)\<lparr>tag := RESERVED\<rparr>" pa2 b] p1 p2 by auto
  have info: "tag (blockMap ?pa3 i) = (if i = b then RESERVED else tag (blockMap pa i))"
    "kval (blockMap ?pa3 i) = kval (blockMap pa i)" for i
    using p1(5) p2(5) by (auto simp: same_info_def set_block_def)
  have K: "maxKVal ?pa3 = ?K" using c by (simp add: same_config_def)
  have notin: "b \<notin> set ((L(k := ys @ zs)) l)" if "l \<le> ?K" for l
    using that D(2) k Lk dis by (auto simp: dlists_def)
  have "tags_ok ?pa3 (L(k := ys @ zs))" unfolding tags_ok_def K info
  proof (intro conjI allI impI ballI)
    fix i :: nat assume i: "i < 2 ^ ?K"
    have iff: "tag (blockMap pa i) = FREE \<longleftrightarrow> (\<exists>l \<le> ?K. i \<in> set (L l))"
      using D(4) i by (auto simp: tags_ok_def)
    show "(if i = b then RESERVED else tag (blockMap pa i)) = FREE
        \<longleftrightarrow> (\<exists>l \<le> ?K. i \<in> set ((L(k := ys @ zs)) l))"
    proof (cases "i = b")
      case True
      then show ?thesis using notin by (auto simp: RESERVED_def FREE_def)
    next
      case False
      then have "i \<in> set ((L(k := ys @ zs)) l) \<longleftrightarrow> i \<in> set (L l)" for l using Lk by auto
      then show ?thesis using iff False by simp
    qed
  next
    fix l i assume "l \<le> ?K" "i \<in> set ((L(k := ys @ zs)) l)"
    then show "kval (blockMap pa i) = l" using D(4) Lk k by (auto simp: tags_ok_def split: if_splits)
  qed
  moreover have "blocks_ok (L(k := ys @ zs)) ?K"
    by (rule blocks_ok_subset[OF D(3)]) (use Lk in auto)
  ultimately have "pa_inv ?pa3 (L(k := ys @ zs))"
    using D(1) u(1) links c K by (simp add: pa_inv_def same_config_def)
  then show thesis using that r c info(2) by (auto simp: same_kval_def)
qed


lemma merge_loop_correct:
  assumes "pa_inv pa L" "k + n = maxKVal pa" "2 ^ k dvd index" "index + 2 ^ k \<le> 2 ^ maxKVal pa"
    "{index..<index + 2 ^ k} \<inter> pages L (maxKVal pa) = {}"
  shows "\<exists>pa' L' index' k'. merge_loop n pa index k = Some (pa', index', k') \<and> pa_inv pa' L'
    \<and> same_config pa pa' \<and> same_kval pa pa' \<and> k' \<le> maxKVal pa \<and> 2 ^ k' dvd index'
    \<and> index' + 2 ^ k' \<le> 2 ^ maxKVal pa \<and> {index'..<index' + 2 ^ k'} \<inter> pages L' (maxKVal pa) = {}
    \<and> pages L' (maxKVal pa) \<union> {index'..<index' + 2 ^ k'}
        = pages L (maxKVal pa) \<union> {index..<index + 2 ^ k}"
  using assms
proof (induction n arbitrary: pa L index k)
  case 0
  then show ?case by (auto simp: same_config_def same_kval_def)
next
  case (Suc n)
  let ?K = "maxKVal pa" and ?b = "index XOR 2 ^ k"
  have k: "k < ?K" using Suc.prems(2) by simp
  note D = pa_invD[OF Suc.prems(1)]
  note b = buddy_props[OF Suc.prems(3,4) k]
  show ?case
  proof (cases "tag (blockMap pa ?b) \<noteq> FREE \<or> kval (blockMap pa ?b) \<noteq> k")
    case True
    then show ?thesis using Suc.prems k by (auto simp: same_config_def same_kval_def Let_def)
  next
    case False
    have "(0::nat) < 2 ^ k" by simp
    then have "?b < 2 ^ ?K" using b(2) by linarith
    then obtain l where l: "l \<le> ?K" "?b \<in> set (L l)" using D(4) False by (auto simp: tags_ok_def)
    then have "l = k" using D(4) False by (auto simp: tags_ok_def)
    then obtain ys zs where Lk: "L k = ys @ ?b # zs" using l(2) by (meson split_list)
    obtain pa1 where u: "unlink_buddy pa ?b = Some pa1" "pa_inv pa1 (L(k := ys @ zs))"
      "same_config pa pa1" "same_kval pa pa1"
      using unlink_buddy_correct[OF Suc.prems(1) less_imp_le[OF k] Lk] by blast
    have K1: "maxKVal pa1 = ?K" using u(3) by (simp add: same_config_def)
    define m where "m = min ?b index"
    have idx: "(if ?b < index then ?b else index) = m" by (simp add: m_def)
    have merged: "{m..<m + 2 ^ (k + 1)} = {index..<index + 2 ^ k} \<union> {?b..<?b + 2 ^ k}"
      using b(5) unfolding m_def by (cases "?b < index") (auto simp: max_def min_def)
    have pg: "pages L ?K = pages (L(k := ys @ zs)) ?K \<union> {?b..<?b + 2 ^ k}"
      "pages (L(k := ys @ zs)) ?K \<inter> {?b..<?b + 2 ^ k} = {}"
      using pages_remove[OF D(3) less_imp_le[OF k] Lk dlistsD(3)[OF D(2) less_imp_le[OF k]]] by auto
    have mb: "m + 2 ^ (k + 1) \<le> 2 ^ ?K"
      using b(5) b(2) Suc.prems(4) unfolding m_def by (cases "?b < index") (auto simp: max_def min_def)
    have md: "2 ^ (k + 1) dvd m" using b(3) by (simp add: m_def)
    have mdis: "{m..<m + 2 ^ (k + 1)} \<inter> pages (L(k := ys @ zs)) ?K = {}"
      unfolding merged using Suc.prems(5) pg by auto
    have mn: "k + 1 + n = ?K" using Suc.prems(2) by simp
    note Suc.IH[OF u(2), of "k + 1" m, unfolded K1, OF mn md mb mdis]
    moreover have "pages (L(k := ys @ zs)) ?K \<union> {m..<m + 2 ^ (k + 1)}
        = pages L ?K \<union> {index..<index + 2 ^ k}"
      unfolding merged pg(1) by auto
    moreover have "merge_loop (Suc n) pa index k = merge_loop n pa1 m (k + 1)"
      using False u(1) idx by (simp add: Let_def)
    ultimately show ?thesis using same_config_trans[OF u(3)] same_kval_trans[OF u(4)] by metis
  qed
qed

lemma link_block_correct:
  assumes I: "pa_inv pa L" and k: "k \<le> maxKVal pa" and al: "2 ^ k dvd index"
    and bd: "index + 2 ^ k \<le> 2 ^ maxKVal pa"
    and disj: "{index..<index + 2 ^ k} \<inter> pages L (maxKVal pa) = {}"
  obtains pa' where "link_block pa index k = Some pa'" "pa_inv pa' (L(k := index # L k))"
    "same_config pa pa'" "\<And>i. kval (blockMap pa' i) = (if i = index then k else kval (blockMap pa i))"
proof -
  note D = pa_invD[OF I]
  let ?f = "lf pa" and ?g = "lb pa" and ?K = "maxKVal pa"
  have fresh: "\<forall>l \<le> ?K. index \<notin> set (L l)"
    using disj pages_block[of _ ?K index L] by fastforce
  let ?p = "?f (Avail k)"
  have p: "?p = pend (Avail k) (rev (L k))"
    using pchain_first[OF dlistsD(1)[OF D(2) k]] by (cases "L k") simp_all
  have pn: "?p \<noteq> Null" "?p \<noteq> Blk index"
    unfolding p using pend_not_Null pend_in[of "Avail k" "rev (L k)"] fresh k by auto
  let ?pa1 = "set_block pa index (mk_Block ?p (Avail k) k FREE)"
  have l1: "lf ?pa1 = ?f(Blk index := ?p)" "lb ?pa1 = ?g(Blk index := Avail k)"
    by (auto simp: lf_cases lb_cases set_block_def mk_Block_def)
  obtain pa2 where p2: "set_linkb ?pa1 ?p (Blk index) = Some pa2"
    "lb pa2 = (lb ?pa1)(?p := Blk index)" "lf pa2 = lf ?pa1" "same_config ?pa1 pa2" "same_info ?pa1 pa2"
    using set_linkb_eq[OF pn(1)] by blast
  obtain pa3 where p3: "set_linkf pa2 (Avail k) (Blk index) = Some pa3"
    "lf pa3 = (lf pa2)(Avail k := Blk index)" "lb pa3 = lb pa2" "same_config pa2 pa3" "same_info pa2 pa3"
    using set_linkf_eq[of "Avail k"] by blast
  have r: "link_block pa index k = Some pa3" using p2(1) p3(1) by (simp add: link_block_def Let_def)
  have c: "same_config pa pa3"
    using same_config_trans[OF p2(4) p3(4)] by (simp add: same_config_def set_block_def)
  have K: "maxKVal pa3 = ?K" using c by (simp add: same_config_def)
  have "dlists (lf pa3) (lb pa3) (L(k := index # L k)) ?K"
    using dlists_push[OF D(2) k fresh] p2 p3 l1 by simp
  moreover have "blocks_ok (L(k := index # L k)) ?K" by (rule blocks_ok_add[OF D(3) k al bd disj])
  moreover have info: "tag (blockMap pa3 i) = (if i = index then FREE else tag (blockMap pa i))"
    "kval (blockMap pa3 i) = (if i = index then k else kval (blockMap pa i))" for i
    using p2(5) p3(5) by (auto simp: same_info_def set_block_def mk_Block_def)
  have "tags_ok pa3 (L(k := index # L k))" unfolding tags_ok_def K info
  proof (intro conjI allI impI ballI)
    fix i :: nat assume i: "i < 2 ^ ?K"
    have iff: "tag (blockMap pa i) = FREE \<longleftrightarrow> (\<exists>l \<le> ?K. i \<in> set (L l))"
      using D(4) i by (auto simp: tags_ok_def)
    have "i \<in> set ((L(k := index # L k)) l) \<longleftrightarrow> i \<in> set (L l) \<or> (l = k \<and> i = index)" for l by auto
    then show "(if i = index then FREE else tag (blockMap pa i)) = FREE
        \<longleftrightarrow> (\<exists>l \<le> ?K. i \<in> set ((L(k := index # L k)) l))"
      using iff k by auto
  next
    fix l i assume l: "l \<le> ?K" and "i \<in> set ((L(k := index # L k)) l)"
    then have "i \<in> set (L l) \<or> (l = k \<and> i = index)" by (auto split: if_splits)
    then show "(if i = index then k else kval (blockMap pa i)) = l"
      using D(4) fresh l by (auto simp: tags_ok_def)
  qed
  ultimately have "pa_inv pa3 (L(k := index # L k))"
    using D(1) K c by (simp add: pa_inv_def same_config_def)
  then show thesis using that[OF r _ c info(2)] by blast
qed

lemma pa_inv_count [simp]: "pa_inv (pa\<lparr>freeBlockCount := c\<rparr>) L = pa_inv pa L"
proof -
  have "lf (pa\<lparr>freeBlockCount := c\<rparr>) = lf pa" "lb (pa\<lparr>freeBlockCount := c\<rparr>) = lb pa"
    by (auto simp: lf_cases lb_cases)
  then show ?thesis by (simp add: pa_inv_def tags_ok_def)
qed

lemma pa_insert_correct:
  assumes "pa_inv pa L" "k \<le> maxKVal pa" "2 ^ k dvd index" "index + 2 ^ k \<le> 2 ^ maxKVal pa"
    "{index..<index + 2 ^ k} \<inter> pages L (maxKVal pa) = {}"
  shows "\<exists>pa' L'. pa_insert pa index k = Some pa' \<and> pa_inv pa' L'
    \<and> maxKVal pa' = maxKVal pa \<and> blockSize pa' = blockSize pa \<and> pa_offset pa' = pa_offset pa
    \<and> freeBlockCount pa' = freeBlockCount pa + 2 ^ k
    \<and> pages L' (maxKVal pa) = pages L (maxKVal pa) \<union> {index..<index + 2 ^ k}
    \<and> (\<forall>i. i \<notin> pages L (maxKVal pa) \<union> {index..<index + 2 ^ k}
           \<longrightarrow> kval (blockMap pa' i) = kval (blockMap pa i))"
proof -
  let ?pa = "pa\<lparr>freeBlockCount := freeBlockCount pa + 2 ^ k\<rparr>"
  have "pa_inv ?pa L" using assms(1) by simp
  from merge_loop_correct[OF this, of k "maxKVal pa - k" index] obtain pa1 L1 i1 k1 where
    m: "merge_loop (maxKVal pa - k) ?pa index k = Some (pa1, i1, k1)" "pa_inv pa1 L1"
    "same_config ?pa pa1" "k1 \<le> maxKVal pa" "2 ^ k1 dvd i1" "i1 + 2 ^ k1 \<le> 2 ^ maxKVal pa"
    "{i1..<i1 + 2 ^ k1} \<inter> pages L1 (maxKVal pa) = {}"
    "pages L1 (maxKVal pa) \<union> {i1..<i1 + 2 ^ k1} = pages L (maxKVal pa) \<union> {index..<index + 2 ^ k}"
    "same_kval ?pa pa1"
    using assms by auto
  have K1: "maxKVal pa1 = maxKVal pa" using m(3) by (simp add: same_config_def)
  obtain pa2 where l: "link_block pa1 i1 k1 = Some pa2" "pa_inv pa2 (L1(k1 := i1 # L1 k1))"
    "same_config pa1 pa2" "\<And>i. kval (blockMap pa2 i) = (if i = i1 then k1 else kval (blockMap pa1 i))"
    using link_block_correct[OF m(2), of k1 i1] m K1 by metis
  have "pa_insert pa index k = Some pa2" using m(1) l(1) by (simp add: pa_insert_def)
  moreover have "pages (L1(k1 := i1 # L1 k1)) (maxKVal pa)
      = pages L (maxKVal pa) \<union> {index..<index + 2 ^ k}"
    using pages_add[OF m(4), of L1 i1] m(8) by simp
  moreover have "i1 \<in> {i1..<i1 + 2 ^ k1}" by simp
  then have "i1 \<in> pages L (maxKVal pa) \<union> {index..<index + 2 ^ k}" using m(8) by blast
  then have "\<forall>i. i \<notin> pages L (maxKVal pa) \<union> {index..<index + 2 ^ k}
      \<longrightarrow> kval (blockMap pa2 i) = kval (blockMap pa i)"
    using l(4) m(9) by (auto simp: same_kval_def)
  ultimately show ?thesis using l(2,3) m(3) by (intro exI[of _ pa2]) (auto simp: same_config_def)
qed

section \<open>Reserving pages\<close>

lemma pop_block_correct:
  assumes I: "pa_inv pa L" and j: "j \<le> maxKVal pa" and ne: "L j \<noteq> []"
  obtains pa' where "pop_block pa j = Some (last (L j), pa')" "pa_inv pa' (L(j := butlast (L j)))"
    "same_config pa pa'" "same_kval pa pa'"
proof -
  let ?i = "last (L j)" and ?f = "lf pa" and ?g = "lb pa" and ?ys = "butlast (L j)"
  note D = pa_invD[OF I]
  have Lj: "L j = ?ys @ ?i # []" using ne by simp
  obtain pu where un: "unlink_buddy pa ?i = Some pu" "pa_inv pu (L(j := ?ys))" "same_config pa pu"
    "same_kval pa pu"
    using unlink_buddy_correct[OF I j Lj] by auto
  note u = dlists_unlink[OF D(2) j Lj]
  have fi: "?f (Blk ?i) = Avail j" using u(3) by simp
  have gi: "?g (Avail j) = Blk ?i"
    using pchain_first[OF dlistsD(2)[OF D(2) j]] Lj by (metis pfirst.simps(2) rev_eq_Cons_iff rev_rev_ident)
  have dis: "distinct (?ys @ [?i])" using dlistsD(3)[OF D(2) j] Lj by simp
  have gg: "?g (Blk ?i) \<noteq> Null" "?g (Blk ?i) \<noteq> Blk ?i"
    unfolding u(2) using pend_not_Null pend_in[of "Avail j" ?ys] dis by auto
  have eq: "pop_block pa j = Some (?i, pu)"
    using un(1) fi gi gg
    by (cases "linkb (blockMap pa ?i)")
       (auto simp: unlink_buddy_def pop_block_def set_block_def fun_upd_def fun_eq_iff
          intro!: PageAllocator.equality)
  show thesis using that[OF eq] un by blast
qed

lemma pa_inv_set_kval:
  assumes I: "pa_inv pa L" and i: "\<forall>l \<le> maxKVal pa. i \<notin> set (L l)"
  shows "pa_inv (set_block pa i ((blockMap pa i)\<lparr>kval := x\<rparr>)) L"
proof -
  let ?pa = "set_block pa i ((blockMap pa i)\<lparr>kval := x\<rparr>)"
  have "lf ?pa = lf pa" "lb ?pa = lb pa" by (simp_all add: lf_set_block_info)
  moreover have "tags_ok ?pa L"
    using pa_invD(4)[OF I] i by (auto simp: tags_ok_def set_block_def)
  ultimately show ?thesis using I by (simp add: pa_inv_def set_block_def)
qed

lemma split_step_correct:
  assumes I: "pa_inv pa L" and j: "Suc j \<le> maxKVal pa" and al: "2 ^ Suc j dvd i"
    and bd: "i + 2 ^ Suc j \<le> 2 ^ maxKVal pa"
    and disj: "{i..<i + 2 ^ Suc j} \<inter> pages L (maxKVal pa) = {}" and emp: "L j = []"
  shows "pa_inv (split_step pa i j) (L(j := [i + 2 ^ j]))" "same_config pa (split_step pa i j)"
    "kval (blockMap (split_step pa i j) p) = (if p = i \<or> p = i + 2 ^ j then j else kval (blockMap pa p))"
proof -
  let ?b = "i + 2 ^ j"
  have "2 ^ j dvd i" using al by (metis dvd_mult_right power_Suc)
  then have a: "2 ^ j dvd ?b" by simp
  have jk: "j \<le> maxKVal pa" using j by simp
  have bb: "?b + 2 ^ j \<le> 2 ^ maxKVal pa" using bd by simp
  have "{?b..<?b + 2 ^ j} \<subseteq> {i..<i + 2 ^ Suc j}" by auto
  then have bd': "{?b..<?b + 2 ^ j} \<inter> pages L (maxKVal pa) = {}" using disj by blast
  obtain pa' where l: "link_block pa ?b j = Some pa'" "pa_inv pa' (L(j := ?b # L j))" "same_config pa pa'"
    "\<And>p. kval (blockMap pa' p) = (if p = ?b then j else kval (blockMap pa p))"
    using link_block_correct[OF I jk a bb bd'] by blast
  have h: "linkf (availList pa j) = Avail j"
    using pchain_first[OF dlistsD(1)[OF pa_invD(2)[OF I] jk]] emp by simp
  have K': "maxKVal pa' = maxKVal pa" using l(3) by (simp add: same_config_def)
  have eq: "split_step pa i j = set_block pa' i ((blockMap pa' i)\<lparr>kval := j\<rparr>)"
    using l(1) h by (auto simp: link_block_def split_step_def set_block_def Let_def)
  have "i \<in> {i..<i + 2 ^ Suc j}" by simp
  then have "i \<notin> pages L (maxKVal pa)" using disj by blast
  then have "\<forall>l \<le> maxKVal pa. i \<notin> set (L l)" using pages_block[of _ "maxKVal pa" i L] by fastforce
  then have "\<forall>l \<le> maxKVal pa'. i \<notin> set ((L(j := ?b # L j)) l)" using K' by auto
  with l(2) show "pa_inv (split_step pa i j) (L(j := [?b]))"
    unfolding eq emp by (rule pa_inv_set_kval)
  show "same_config pa (split_step pa i j)" unfolding eq using l(3) by simp
  show "kval (blockMap (split_step pa i j) p) = (if p = i \<or> p = ?b then j else kval (blockMap pa p))"
    unfolding eq using l(4) by (simp add: set_block_def)
qed

lemma split_loop_correct:
  assumes "pa_inv pa L" "k + n \<le> maxKVal pa" "2 ^ (k + n) dvd i"
    "i + 2 ^ (k + n) \<le> 2 ^ maxKVal pa" "{i..<i + 2 ^ (k + n)} \<inter> pages L (maxKVal pa) = {}"
    "\<forall>l. k \<le> l \<and> l < k + n \<longrightarrow> L l = []" "kval (blockMap pa i) = k + n"
  shows "\<exists>pa' L'. split_loop n pa i (k + n) = pa' \<and> pa_inv pa' L' \<and> same_config pa pa'
    \<and> kval (blockMap pa' i) = k
    \<and> (\<forall>p. p \<notin> {i..<i + 2 ^ (k + n)} \<longrightarrow> kval (blockMap pa' p) = kval (blockMap pa p))
    \<and> pages L' (maxKVal pa) = pages L (maxKVal pa) \<union> {i + 2 ^ k..<i + 2 ^ (k + n)}"
  using assms
proof (induction n arbitrary: pa L)
  case 0
  then show ?case by (auto simp: same_config_def)
next
  case (Suc n)
  let ?K = "maxKVal pa" and ?j = "k + n" and ?pa = "split_step pa i (k + n)"
  let ?L = "L(k + n := [i + 2 ^ (k + n)])"
  have e: "L ?j = []" using Suc.prems(6) by simp
  note S = split_step_correct[OF Suc.prems(1), of ?j i]
  have s: "pa_inv ?pa ?L" "same_config pa ?pa" "kval (blockMap ?pa i) = ?j"
    "\<And>p. kval (blockMap ?pa p) = (if p = i \<or> p = i + 2 ^ ?j then ?j else kval (blockMap pa p))"
    using S Suc.prems e by auto
  have K: "maxKVal ?pa = ?K" using s(2) by (simp add: same_config_def)
  have pg: "pages ?L ?K = pages L ?K \<union> {i + 2 ^ ?j..<i + 2 ^ Suc ?j}"
    using pages_add[of ?j ?K L "i + 2 ^ ?j"] e Suc.prems(2) by (simp add: mult_2 add.assoc)
  have "2 ^ ?j dvd i" using Suc.prems(3) by (metis add_Suc_right dvd_mult_right power_Suc)
  moreover have "i + 2 ^ ?j \<le> 2 ^ ?K" using Suc.prems(4) by simp
  moreover have "{i..<i + 2 ^ ?j} \<inter> pages ?L ?K = {}"
  proof -
    have "{i..<i + 2 ^ ?j} \<subseteq> {i..<i + 2 ^ (k + Suc n)}" by auto
    moreover have "{i..<i + 2 ^ ?j} \<inter> {i + 2 ^ ?j..<i + 2 ^ Suc ?j} = {}" by auto
    ultimately show ?thesis unfolding pg using Suc.prems(5) by blast
  qed
  moreover have "\<forall>l. k \<le> l \<and> l < ?j \<longrightarrow> ?L l = []" using Suc.prems(6) by simp
  moreover have "?j \<le> ?K" using Suc.prems(2) by simp
  moreover note s(3)
  ultimately obtain pa' L' where r: "split_loop n ?pa i ?j = pa'" "pa_inv pa' L'" "same_config ?pa pa'"
    "kval (blockMap pa' i) = k" "pages L' ?K = pages ?L ?K \<union> {i + 2 ^ k..<i + 2 ^ ?j}"
    "\<forall>p. p \<notin> {i..<i + 2 ^ ?j} \<longrightarrow> kval (blockMap pa' p) = kval (blockMap ?pa p)"
    using Suc.IH[OF s(1), unfolded K] by metis
  have "{i + 2 ^ k..<i + 2 ^ ?j} \<union> {i + 2 ^ ?j..<i + 2 ^ Suc ?j} = {i + 2 ^ k..<i + 2 ^ (k + Suc n)}"
    by (subst ivl_disj_un_two(3)) simp_all
  then have "pages L' ?K = pages L ?K \<union> {i + 2 ^ k..<i + 2 ^ (k + Suc n)}" using r(5) pg by blast
  moreover have "\<forall>p. p \<notin> {i..<i + 2 ^ (k + Suc n)} \<longrightarrow> kval (blockMap pa' p) = kval (blockMap pa p)"
    using r(6) s(4) by auto
  moreover have "split_loop (Suc n) pa i (k + Suc n) = pa'" using r(1) by simp
  ultimately show ?case using r same_config_trans[OF s(2)] by blast
qed

lemma avail_empty_iff:
  assumes "pa_inv pa L" "j \<le> maxKVal pa"
  shows "linkf (availList pa j) = Avail j \<longleftrightarrow> L j = []"
  using pchain_first[OF dlistsD(1)[OF pa_invD(2)[OF assms(1)] assms(2)]] by (cases "L j") auto

lemma reserve_loop_none:
  assumes "pa_inv pa L" "j + n = Suc (maxKVal pa)" "\<forall>l. j \<le> l \<and> l \<le> maxKVal pa \<longrightarrow> L l = []"
  shows "reserve_loop n pa k j = Some (NOMEM, pa)"
  using assms(2,3)
proof (induction n arbitrary: j)
  case (Suc n)
  then have "linkf (availList pa j) = Avail j" using avail_empty_iff[OF assms(1), of j] by simp
  then show ?case using Suc by simp
qed simp

lemma reserve_loop_skip:
  assumes "pa_inv pa L" "j + n = Suc (maxKVal pa)" "j \<le> m" "m \<le> maxKVal pa"
    "\<forall>l. j \<le> l \<and> l < m \<longrightarrow> L l = []"
  shows "reserve_loop n pa k j = reserve_loop (Suc (maxKVal pa) - m) pa k m"
  using assms(2,3,5)
proof (induction n arbitrary: j)
  case 0
  then show ?case using assms(4) by simp
next
  case (Suc n)
  show ?case
  proof (cases "j = m")
    case True
    then show ?thesis using Suc.prems by (metis diff_add_inverse)
  next
    case False
    then have "linkf (availList pa j) = Avail j"
      using avail_empty_iff[OF assms(1), of j] Suc.prems assms(4) by simp
    then show ?thesis using Suc False by simp
  qed
qed

lemma reserve_loop_found:
  assumes I: "pa_inv pa L" and k: "k \<le> m" "m \<le> maxKVal pa"
    and first: "\<forall>l. k \<le> l \<and> l < m \<longrightarrow> L l = []" and ne: "L m \<noteq> []"
  shows "\<exists>pa' L' i. reserve_loop (Suc (maxKVal pa) - k) pa k k
      = Some (pa_offset pa + of_nat i * blockSize pa, pa')
    \<and> pa_inv pa' L' \<and> maxKVal pa' = maxKVal pa \<and> blockSize pa' = blockSize pa
    \<and> pa_offset pa' = pa_offset pa \<and> freeBlockCount pa' = freeBlockCount pa - 2 ^ k
    \<and> 2 ^ k dvd i \<and> i + 2 ^ k \<le> 2 ^ maxKVal pa \<and> kval (blockMap pa' i) = k
    \<and> {i..<i + 2 ^ k} \<subseteq> pages L (maxKVal pa)
    \<and> pages L' (maxKVal pa) = pages L (maxKVal pa) - {i..<i + 2 ^ k}
    \<and> (\<forall>p. p \<notin> pages L (maxKVal pa) \<longrightarrow> kval (blockMap pa' p) = kval (blockMap pa p))"
proof -
  let ?K = "maxKVal pa" and ?i = "last (L m)" and ?L = "L(m := butlast (L m))"
  note D = pa_invD[OF I]
  obtain pa1 where p: "pop_block pa m = Some (?i, pa1)" "pa_inv pa1 ?L" "same_config pa pa1" "same_kval pa pa1"
    using pop_block_correct[OF I k(2) ne] by blast
  have K1: "maxKVal pa1 = ?K" using p(3) by (simp add: same_config_def)
  have Lm: "L m = butlast (L m) @ ?i # []" using ne by simp
  have iL: "?i \<in> set (L m)" using ne by simp
  have pg: "pages L ?K = pages ?L ?K \<union> {?i..<?i + 2 ^ m}" "pages ?L ?K \<inter> {?i..<?i + 2 ^ m} = {}"
    using pages_remove[OF D(3) k(2) Lm dlistsD(3)[OF D(2) k(2)]] by simp_all
  note B = blocks_okD[OF D(3) k(2) iL]
  obtain n where m: "m = k + n" using k(1) le_Suc_ex by blast
  have "kval (blockMap pa1 ?i) = m"
    using D(4) k(2) iL p(4) by (auto simp: tags_ok_def same_kval_def)
  then obtain pa2 L2 where s: "split_loop n pa1 ?i m = pa2" "pa_inv pa2 L2" "same_config pa1 pa2"
    "kval (blockMap pa2 ?i) = k" "\<forall>p. p \<notin> {?i..<?i + 2 ^ m} \<longrightarrow> kval (blockMap pa2 p) = kval (blockMap pa1 p)"
    "pages L2 ?K = pages ?L ?K \<union> {?i + 2 ^ k..<?i + 2 ^ m}"
    using split_loop_correct[OF p(2), of k n ?i] B first pg(2) K1 m k(2) by (auto simp: Int_commute)
  have "linkf (availList pa m) \<noteq> Avail m" using avail_empty_iff[OF I k(2)] ne by simp
  then have r: "reserve_loop (Suc ?K - k) pa k k = Some (pa_offset pa2 + of_nat ?i * blockSize pa2,
      pa2\<lparr>freeBlockCount := freeBlockCount pa2 - 2 ^ k\<rparr>)"
    using reserve_loop_skip[OF I _ k first, of "Suc ?K - k" k] p(1) s(1) m k
    by (simp add: Suc_diff_le)
  have le: "(2::nat) ^ k \<le> 2 ^ m" using k(1) by (simp add: power_increasing)
  have sub: "{?i..<?i + 2 ^ k} \<subseteq> {?i..<?i + 2 ^ m}"
    "{?i..<?i + 2 ^ m} = {?i..<?i + 2 ^ k} \<union> {?i + 2 ^ k..<?i + 2 ^ m}"
    using ivl_split[OF le] by blast+
  have dv: "2 ^ k dvd ?i" using B(1) k(1) by (meson dvd_trans le_imp_power_dvd)
  have fin: "pages L2 ?K = pages L ?K - {?i..<?i + 2 ^ k}"
    unfolding s(6) pg(1) using pg(2) sub by auto
  show ?thesis
  proof (intro exI[of _ "pa2\<lparr>freeBlockCount := freeBlockCount pa2 - 2 ^ k\<rparr>"] exI[of _ L2] exI[of _ ?i] conjI)
    show "?i + 2 ^ k \<le> 2 ^ ?K" using B(2) le by linarith
    show "{?i..<?i + 2 ^ k} \<subseteq> pages L ?K" using sub(1) pg(1) by blast
    show "\<forall>p. p \<notin> pages L ?K \<longrightarrow>
      kval (blockMap (pa2\<lparr>freeBlockCount := freeBlockCount pa2 - 2 ^ k\<rparr>) p) = kval (blockMap pa p)"
      using s(5) p(4) pg(1) by (simp add: same_kval_def)
  qed (use r s(2,3,4) p(3) fin dv in \<open>simp_all add: same_config_def\<close>)
qed

section \<open>The interface of a page allocator\<close>

text \<open>The free pages of the state, read off the tags of the map, and the pages of the reserved
  block at an address.\<close>

definition free_pages :: "PageAllocator \<Rightarrow> nat set" where
  "free_pages pa = {p. \<exists>i < 2 ^ maxKVal pa. tag (blockMap pa i) = FREE \<and> i \<le> p
     \<and> p < i + 2 ^ kval (blockMap pa i)}"

definition block_at :: "PageAllocator \<Rightarrow> physaddr_t \<Rightarrow> nat set" where
  "block_at pa loc = (let i = unat ((loc - pa_offset pa) div blockSize pa)
     in {i..<i + 2 ^ kval (blockMap pa i)})"

definition block_valid :: "PageAllocator \<Rightarrow> physaddr_t \<Rightarrow> bool" where
  "block_valid pa loc \<longleftrightarrow> (let i = unat ((loc - pa_offset pa) div blockSize pa); k = kval (blockMap pa i)
     in k \<le> maxKVal pa \<and> 2 ^ k dvd i \<and> i + 2 ^ k \<le> 2 ^ maxKVal pa)"

text \<open>The geometry the kernel uses: the map starts at address 0 and does not reach beyond the
  address space, and pages are larger than a byte, so that no block lies at \<open>NOMEM\<close>.\<close>

definition pa_wf :: "PageAllocator \<Rightarrow> bool" where
  "pa_wf pa \<longleftrightarrow> pa_offset pa = 0 \<and> even (unat (blockSize pa))
     \<and> 2 ^ maxKVal pa * unat (blockSize pa) \<le> 2 ^ 64 \<and> (\<exists>L. pa_inv pa L)"

definition req_order :: "PageAllocator \<Rightarrow> u64 \<Rightarrow> nat" where
  "req_order pa sz = llog2 ((sz - 1) div blockSize pa + 1)"

lemma free_pages_eq:
  assumes "pa_inv pa L"
  shows "free_pages pa = pages L (maxKVal pa)"
proof -
  have T: "tag (blockMap pa i) = FREE \<longleftrightarrow> (\<exists>k \<le> maxKVal pa. i \<in> set (L k))" if "i < 2 ^ maxKVal pa" for i
    using pa_invD(4)[OF assms] that by (simp add: tags_ok_def)
  have k: "kval (blockMap pa i) = k" "i < 2 ^ maxKVal pa" if "k \<le> maxKVal pa" "i \<in> set (L k)" for i k
    using pa_invD(4)[OF assms] blocks_okD(3)[OF pa_invD(3)[OF assms]] that by (auto simp: tags_ok_def)
  show ?thesis
  proof (intro set_eqI iffI)
    fix p assume "p \<in> free_pages pa"
    then obtain i where i: "i < 2 ^ maxKVal pa" "tag (blockMap pa i) = FREE" "i \<le> p"
      "p < i + 2 ^ kval (blockMap pa i)" by (auto simp: free_pages_def)
    then obtain l where "l \<le> maxKVal pa" "i \<in> set (L l)" using T by blast
    then show "p \<in> pages L (maxKVal pa)" using i k(1) by (auto simp: pages_member)
  next
    fix p assume "p \<in> pages L (maxKVal pa)"
    then obtain l i where l: "l \<le> maxKVal pa" "i \<in> set (L l)" "i \<le> p" "p < i + 2 ^ l"
      by (auto simp: pages_member)
    then show "p \<in> free_pages pa"
      using T k[OF l(1,2)] unfolding free_pages_def by (intro CollectI exI[of _ i]) auto
  qed
qed

lemma block_index:
  assumes "2 ^ maxKVal pa * unat (blockSize pa) \<le> 2 ^ 64" "i < 2 ^ maxKVal pa" "blockSize pa \<noteq> 0"
  shows "unat (((pa_offset pa + of_nat i * blockSize pa) - pa_offset pa) div blockSize pa) = i"
    "unat (of_nat i * blockSize pa) = i * unat (blockSize pa)"
proof -
  have pos: "0 < unat (blockSize pa)" using assms(3) by (simp add: unat_gt_0)
  have "i * unat (blockSize pa) < 2 ^ maxKVal pa * unat (blockSize pa)" using assms(2) pos by simp
  then have lt: "i * unat (blockSize pa) < 2 ^ 64" using assms(1) by linarith
  have "i * 1 \<le> i * unat (blockSize pa)" using pos by (intro mult_le_mono2) simp
  then have "i < 2 ^ 64" using lt by linarith
  then have i: "unat (of_nat i :: u64) = i" by (intro unat_of_nat_no_wrap) simp
  show m: "unat (of_nat i * blockSize pa) = i * unat (blockSize pa)"
    using lt i by (simp add: unat_mult_lem[THEN iffD1])
  show "unat (((pa_offset pa + of_nat i * blockSize pa) - pa_offset pa) div blockSize pa) = i"
    using m pos by (simp add: unat_div_distrib)
qed

text \<open>A client of the allocator reserves blocks and gives back those it holds.\<close>

datatype pool_op = Reserve u64 | Release nat

fun run_ops :: "('s \<Rightarrow> u64 \<Rightarrow> (physaddr_t \<times> 's) option) \<Rightarrow> ('s \<Rightarrow> physaddr_t \<Rightarrow> (u64 \<times> 's) option)
    \<Rightarrow> pool_op list \<Rightarrow> 's \<Rightarrow> physaddr_t list \<Rightarrow> ('s \<times> physaddr_t list) option" where
  "run_ops res rel [] s live = Some (s, live)"
| "run_ops res rel (Reserve sz # ops) s live = do {
     (loc, s') \<leftarrow> res s sz;
     run_ops res rel ops s' (if loc = NOMEM then live else loc # live) }"
| "run_ops res rel (Release n # ops) s live =
     (if n < length live
      then do { (_, s') \<leftarrow> rel s (live ! n); run_ops res rel ops s' (take n live @ drop (Suc n) live) }
      else run_ops res rel ops s live)"

locale page_pool =
  fixes inv :: "'s \<Rightarrow> bool" and avail :: "'s \<Rightarrow> nat set" and blk :: "'s \<Rightarrow> physaddr_t \<Rightarrow> nat set"
    and valid :: "'s \<Rightarrow> physaddr_t \<Rightarrow> bool"
    and reserve :: "'s \<Rightarrow> u64 \<Rightarrow> (physaddr_t \<times> 's) option"
    and release :: "'s \<Rightarrow> physaddr_t \<Rightarrow> (u64 \<times> 's) option"
  assumes blk_nonempty: "blk s l \<noteq> {}"
    and reserve_law: "inv s \<Longrightarrow> \<exists>loc s'. reserve s sz = Some (loc, s') \<and> inv s'
      \<and> (loc = NOMEM \<and> s' = s
         \<or> loc \<noteq> NOMEM \<and> valid s' loc \<and> blk s' loc \<subseteq> avail s \<and> avail s' = avail s - blk s' loc
           \<and> (\<forall>l. valid s l \<and> blk s l \<inter> avail s = {} \<longrightarrow> valid s' l \<and> blk s' l = blk s l))"
    and release_law: "inv s \<Longrightarrow> valid s loc \<Longrightarrow> blk s loc \<inter> avail s = {} \<Longrightarrow>
      \<exists>n s'. release s loc = Some (n, s') \<and> inv s' \<and> avail s' = avail s \<union> blk s loc
        \<and> (\<forall>l. valid s l \<and> blk s l \<inter> (avail s \<union> blk s loc) = {} \<longrightarrow> valid s' l \<and> blk s' l = blk s l)"
begin

definition session_ok :: "'s \<Rightarrow> physaddr_t list \<Rightarrow> nat set \<Rightarrow> bool" where
  "session_ok s live T \<longleftrightarrow> inv s \<and> (\<forall>l \<in> set live. valid s l \<and> blk s l \<inter> avail s = {})
     \<and> distinct live \<and> (\<forall>a \<in> set live. \<forall>b \<in> set live. a \<noteq> b \<longrightarrow> blk s a \<inter> blk s b = {})
     \<and> avail s \<union> (\<Union>l \<in> set live. blk s l) = T"

lemma session_reserve:
  assumes ok: "session_ok s live T"
  shows "\<exists>loc s'. reserve s sz = Some (loc, s') \<and> session_ok s' (if loc = NOMEM then live else loc # live) T"
proof -
  have "inv s" using ok by (simp add: session_ok_def)
  from reserve_law[OF this, of sz] obtain loc s' where r: "reserve s sz = Some (loc, s')" "inv s'"
    "loc = NOMEM \<and> s' = s
     \<or> loc \<noteq> NOMEM \<and> valid s' loc \<and> blk s' loc \<subseteq> avail s \<and> avail s' = avail s - blk s' loc
       \<and> (\<forall>l. valid s l \<and> blk s l \<inter> avail s = {} \<longrightarrow> valid s' l \<and> blk s' l = blk s l)" by blast
  show ?thesis
  proof (cases "loc = NOMEM")
    case True
    then show ?thesis using r ok by auto
  next
    case False
    then have n: "valid s' loc" "blk s' loc \<subseteq> avail s" "avail s' = avail s - blk s' loc"
      and frame: "\<forall>l. valid s l \<and> blk s l \<inter> avail s = {} \<longrightarrow> valid s' l \<and> blk s' l = blk s l"
      using r(3) by simp_all
    have old: "\<forall>l \<in> set live. valid s' l \<and> blk s' l = blk s l \<and> blk s l \<inter> avail s = {}"
      using frame ok by (simp add: session_ok_def)
    have fresh: "\<forall>l \<in> set live. blk s' l \<inter> blk s' loc = {} \<and> l \<noteq> loc"
      using n(2) old blk_nonempty[of s' loc] by blast
    have un: "(\<Union>l \<in> set live. blk s' l) = (\<Union>l \<in> set live. blk s l)" using old by auto
    have "session_ok s' (loc # live) T"
      unfolding session_ok_def
    proof (intro conjI)
      show "\<forall>a \<in> set (loc # live). \<forall>b \<in> set (loc # live). a \<noteq> b \<longrightarrow> blk s' a \<inter> blk s' b = {}"
        using fresh ok old by (auto simp: session_ok_def)
      show "avail s' \<union> (\<Union>l \<in> set (loc # live). blk s' l) = T"
        using n un ok by (auto simp: session_ok_def)
    qed (use r(2) n old fresh ok in \<open>auto simp: session_ok_def\<close>)
    then show ?thesis using r(1) False by auto
  qed
qed

lemma session_release:
  assumes ok: "session_ok s live T" and n: "n < length live"
  shows "\<exists>c s'. release s (live ! n) = Some (c, s') \<and> session_ok s' (take n live @ drop (Suc n) live) T"
proof -
  let ?l = "live ! n" and ?r = "take n live @ drop (Suc n) live"
  have l: "live = take n live @ ?l # drop (Suc n) live" using n by (simp add: id_take_nth_drop)
  have d: "distinct ?r" "?l \<notin> set ?r" "set live = insert ?l (set ?r)"
  proof -
    have "distinct (take n live @ ?l # drop (Suc n) live)" using ok l by (simp add: session_ok_def)
    then show "distinct ?r" "?l \<notin> set ?r" by simp_all
    show "set live = insert ?l (set ?r)" by (subst l) simp
  qed
  have v: "inv s" "valid s ?l" "blk s ?l \<inter> avail s = {}" using ok n by (auto simp: session_ok_def)
  from release_law[OF this] obtain c s' where r: "release s ?l = Some (c, s')" "inv s'"
    "avail s' = avail s \<union> blk s ?l"
    "\<forall>l. valid s l \<and> blk s l \<inter> (avail s \<union> blk s ?l) = {} \<longrightarrow> valid s' l \<and> blk s' l = blk s l" by blast
  have old: "\<forall>l \<in> set ?r. valid s' l \<and> blk s' l = blk s l \<and> blk s l \<inter> (avail s \<union> blk s ?l) = {}"
  proof
    fix l assume "l \<in> set ?r"
    then have "l \<in> set live" "l \<noteq> ?l" using d by auto
    then have "valid s l" "blk s l \<inter> (avail s \<union> blk s ?l) = {}"
      using ok n unfolding session_ok_def by (auto simp: Int_Un_distrib)
    then show "valid s' l \<and> blk s' l = blk s l \<and> blk s l \<inter> (avail s \<union> blk s ?l) = {}" using r(4) by blast
  qed
  have un: "(\<Union>l \<in> set ?r. blk s' l) = (\<Union>l \<in> set ?r. blk s l)" using old by auto
  have "session_ok s' ?r T" unfolding session_ok_def
  proof (intro conjI)
    show "\<forall>a \<in> set ?r. \<forall>b \<in> set ?r. a \<noteq> b \<longrightarrow> blk s' a \<inter> blk s' b = {}"
      using ok old d(3) unfolding session_ok_def by (metis insertCI)
    have "T = avail s \<union> (blk s ?l \<union> (\<Union>l \<in> set ?r. blk s l))"
      using ok unfolding session_ok_def d(3) by auto
    then show "avail s' \<union> (\<Union>l \<in> set ?r. blk s' l) = T" unfolding un r(3) by auto
  qed (use r(2,3) old d in auto)
  then show ?thesis using r(1) by blast
qed

lemma session_run:
  "session_ok s live T \<Longrightarrow> \<exists>s' live'. run_ops reserve release ops s live = Some (s', live') \<and> session_ok s' live' T"
proof (induction ops arbitrary: s live)
  case (Cons op ops)
  show ?case
  proof (cases op)
    case (Reserve sz)
    obtain loc s' where "reserve s sz = Some (loc, s')"
      "session_ok s' (if loc = NOMEM then live else loc # live) T"
      using session_reserve[OF Cons.prems] by blast
    then show ?thesis using Cons.IH Reserve by simp
  next
    case (Release n)
    show ?thesis
    proof (cases "n < length live")
      case True
      obtain c s' where "release s (live ! n) = Some (c, s')"
        "session_ok s' (take n live @ drop (Suc n) live) T"
        using session_release[OF Cons.prems True] by blast
      then show ?thesis using Cons.IH True Release by simp
    qed (use Cons Release in simp)
  qed
qed simp

end

text \<open>\<open>reserve\<close> returns \<open>NOMEM\<close> exactly when no list of a sufficient order has a block.\<close>

lemma pa_reserve_cases:
  fixes sz :: u64
  assumes I: "pa_inv pa L"
  defines "k \<equiv> req_order pa sz"
  shows "if \<forall>l. k \<le> l \<and> l \<le> maxKVal pa \<longrightarrow> L l = [] then pa_reserve pa sz = Some (NOMEM, pa)
    else \<exists>pa' L' i. pa_reserve pa sz = Some (pa_offset pa + of_nat i * blockSize pa, pa')
      \<and> pa_inv pa' L' \<and> maxKVal pa' = maxKVal pa \<and> blockSize pa' = blockSize pa
      \<and> pa_offset pa' = pa_offset pa \<and> freeBlockCount pa' = freeBlockCount pa - 2 ^ k
      \<and> 2 ^ k dvd i \<and> i + 2 ^ k \<le> 2 ^ maxKVal pa \<and> kval (blockMap pa' i) = k
      \<and> {i..<i + 2 ^ k} \<subseteq> pages L (maxKVal pa)
      \<and> pages L' (maxKVal pa) = pages L (maxKVal pa) - {i..<i + 2 ^ k}
      \<and> (\<forall>p. p \<notin> pages L (maxKVal pa) \<longrightarrow> kval (blockMap pa' p) = kval (blockMap pa p))"
proof -
  have u: "pa_reserve pa sz = reserve_loop (Suc (maxKVal pa) - k) pa k k"
    using pa_invD(1)[OF I] by (simp add: pa_reserve_def k_def req_order_def Let_def)
  show ?thesis
  proof (cases "\<forall>l. k \<le> l \<and> l \<le> maxKVal pa \<longrightarrow> L l = []")
    case True
    have "reserve_loop (Suc (maxKVal pa) - k) pa k k = Some (NOMEM, pa)"
    proof (cases "k \<le> maxKVal pa")
      case True
      then show ?thesis using reserve_loop_none[OF I, of k "Suc (maxKVal pa) - k" k]
        \<open>\<forall>l. k \<le> l \<and> l \<le> maxKVal pa \<longrightarrow> L l = []\<close> by simp
    qed (simp add: not_less_eq_eq)
    then show ?thesis using True u by simp
  next
    case False
    define m where "m = (LEAST l. k \<le> l \<and> l \<le> maxKVal pa \<and> L l \<noteq> [])"
    obtain l where l: "k \<le> l \<and> l \<le> maxKVal pa \<and> L l \<noteq> []" using False by blast
    have m: "k \<le> m" "m \<le> maxKVal pa" "L m \<noteq> []" unfolding m_def using LeastI[of "\<lambda>l. k \<le> l \<and> l \<le> maxKVal pa \<and> L l \<noteq> []", OF l] by auto
    have "\<forall>l. k \<le> l \<and> l < m \<longrightarrow> L l = []"
      using not_less_Least[of _ "\<lambda>l. k \<le> l \<and> l \<le> maxKVal pa \<and> L l \<noteq> []"] m(2)
      unfolding m_def by (metis (no_types, lifting) le_trans less_imp_le_nat)
    from reserve_loop_found[OF I m(1,2) this m(3)] show ?thesis unfolding u if_not_P[OF False] .
  qed
qed

lemma block_addr_not_NOMEM:
  assumes w: "pa_wf pa" and i: "i < 2 ^ maxKVal pa"
  shows "pa_offset pa + of_nat i * blockSize pa \<noteq> NOMEM"
proof -
  obtain L where "pa_inv pa L" using w by (auto simp: pa_wf_def)
  then have "unat (of_nat i * blockSize pa) = i * unat (blockSize pa)"
    using block_index(2) w i pa_invD(1) by (auto simp: pa_wf_def)
  then have "even (unat (of_nat i * blockSize pa))" using w by (simp add: pa_wf_def)
  moreover have "odd (unat NOMEM)" by (simp add: NOMEM_def unsigned_minus_1_eq_mask even_mask_iff)
  ultimately show ?thesis using w by (auto simp: pa_wf_def)
qed

lemma block_at_addr:
  assumes "pa_wf pa" "i < 2 ^ maxKVal pa"
  shows "block_at pa (pa_offset pa + of_nat i * blockSize pa) = {i..<i + 2 ^ kval (blockMap pa i)}"
    "block_valid pa (pa_offset pa + of_nat i * blockSize pa) \<longleftrightarrow> kval (blockMap pa i) \<le> maxKVal pa
      \<and> 2 ^ kval (blockMap pa i) dvd i \<and> i + 2 ^ kval (blockMap pa i) \<le> 2 ^ maxKVal pa"
proof -
  obtain L where "pa_inv pa L" using assms by (auto simp: pa_wf_def)
  then have "unat (((pa_offset pa + of_nat i * blockSize pa) - pa_offset pa) div blockSize pa) = i"
    using block_index(1) assms pa_invD(1) unfolding pa_wf_def by blast
  then show "block_at pa (pa_offset pa + of_nat i * blockSize pa) = {i..<i + 2 ^ kval (blockMap pa i)}"
    "block_valid pa (pa_offset pa + of_nat i * blockSize pa) \<longleftrightarrow> kval (blockMap pa i) \<le> maxKVal pa
      \<and> 2 ^ kval (blockMap pa i) dvd i \<and> i + 2 ^ kval (blockMap pa i) \<le> 2 ^ maxKVal pa"
    by (simp_all add: block_at_def block_valid_def Let_def)
qed

lemma block_kept:
  assumes "maxKVal pa' = maxKVal pa" "blockSize pa' = blockSize pa" "pa_offset pa' = pa_offset pa"
    "\<forall>p. p \<notin> S \<longrightarrow> kval (blockMap pa' p) = kval (blockMap pa p)" "block_at pa l \<inter> S = {}"
  shows "block_at pa' l = block_at pa l" "block_valid pa' l = block_valid pa l"
proof -
  let ?i = "unat ((l - pa_offset pa) div blockSize pa)"
  have "?i \<in> block_at pa l" by (simp add: block_at_def Let_def)
  then have "?i \<notin> S" using assms(5) by blast
  then show "block_at pa' l = block_at pa l" "block_valid pa' l = block_valid pa l"
    using assms(1-4) by (simp_all add: block_at_def block_valid_def Let_def)
qed

lemma pa_reserve_law:
  assumes w: "pa_wf pa"
  shows "\<exists>loc pa'. pa_reserve pa sz = Some (loc, pa') \<and> pa_wf pa'
      \<and> (loc = NOMEM \<and> pa' = pa
         \<or> loc \<noteq> NOMEM \<and> block_valid pa' loc \<and> block_at pa' loc \<subseteq> free_pages pa
           \<and> free_pages pa' = free_pages pa - block_at pa' loc
           \<and> (\<forall>l. block_valid pa l \<and> block_at pa l \<inter> free_pages pa = {}
                 \<longrightarrow> block_valid pa' l \<and> block_at pa' l = block_at pa l))"
proof -
  obtain L where I: "pa_inv pa L" using w by (auto simp: pa_wf_def)
  let ?k = "req_order pa sz" and ?K = "maxKVal pa"
  note fp = free_pages_eq[OF I]
  show ?thesis
  proof (cases "\<forall>l. ?k \<le> l \<and> l \<le> ?K \<longrightarrow> L l = []")
    case True
    then show ?thesis using pa_reserve_cases[OF I, of sz] w by auto
  next
    case False
    then obtain pa' L' i where r: "pa_reserve pa sz = Some (pa_offset pa + of_nat i * blockSize pa, pa')"
      "pa_inv pa' L'" "maxKVal pa' = ?K" "blockSize pa' = blockSize pa" "pa_offset pa' = pa_offset pa"
      "2 ^ ?k dvd i" "i + 2 ^ ?k \<le> 2 ^ ?K" "kval (blockMap pa' i) = ?k"
      "{i..<i + 2 ^ ?k} \<subseteq> pages L ?K" "pages L' ?K = pages L ?K - {i..<i + 2 ^ ?k}"
      "\<forall>p. p \<notin> pages L ?K \<longrightarrow> kval (blockMap pa' p) = kval (blockMap pa p)"
      using pa_reserve_cases[OF I, of sz, unfolded if_not_P[OF False]] by blast
    have w': "pa_wf pa'" using w r(2-5) by (auto simp: pa_wf_def)
    have "(0::nat) < 2 ^ ?k" by simp
    then have i: "i < 2 ^ ?K" using r(7) by linarith
    have kK: "?k \<le> ?K" using False by (meson le_trans)
    note b = block_at_addr[OF w', of i, unfolded r(3,4,5,8), OF i]
    have "block_valid pa' (pa_offset pa + of_nat i * blockSize pa)" using b(2) kK r(6,7) by simp
    then show ?thesis
      using r(1) w' block_addr_not_NOMEM[OF w i] b(1) fp free_pages_eq[OF r(2)] r(3,9,10)
        block_kept[OF r(3-5) r(11)] by auto
  qed
qed

lemma pa_free_law:
  assumes w: "pa_wf pa" and v: "block_valid pa loc" and d: "block_at pa loc \<inter> free_pages pa = {}"
  shows "\<exists>n pa'. pa_free pa loc = Some (n, pa') \<and> pa_wf pa' \<and> free_pages pa' = free_pages pa \<union> block_at pa loc
        \<and> (\<forall>l. block_valid pa l \<and> block_at pa l \<inter> (free_pages pa \<union> block_at pa loc) = {}
              \<longrightarrow> block_valid pa' l \<and> block_at pa' l = block_at pa l)"
proof -
  obtain L where I: "pa_inv pa L" using w by (auto simp: pa_wf_def)
  note fp = free_pages_eq[OF I]
  define i where "i = unat ((loc - pa_offset pa) div blockSize pa)"
  let ?k = "kval (blockMap pa i)"
  have at: "block_at pa loc = {i..<i + 2 ^ ?k}" by (simp add: block_at_def i_def Let_def)
  have "?k \<le> maxKVal pa" "2 ^ ?k dvd i" "i + 2 ^ ?k \<le> 2 ^ maxKVal pa"
    using v by (simp_all add: block_valid_def i_def Let_def)
  from pa_insert_correct[OF I this] d obtain pa' L' where r: "pa_insert pa i ?k = Some pa'" "pa_inv pa' L'"
    "maxKVal pa' = maxKVal pa" "blockSize pa' = blockSize pa" "pa_offset pa' = pa_offset pa"
    "pages L' (maxKVal pa) = pages L (maxKVal pa) \<union> {i..<i + 2 ^ ?k}"
    "\<forall>p. p \<notin> pages L (maxKVal pa) \<union> {i..<i + 2 ^ ?k} \<longrightarrow> kval (blockMap pa' p) = kval (blockMap pa p)"
    unfolding at fp by blast
  have "pa_free pa loc = Some (2 ^ ?k * blockSize pa', pa')"
    using r(1) pa_invD(1)[OF I] by (simp add: pa_free_def i_def Let_def)
  moreover have "pa_wf pa'" using w r(2-5) by (auto simp: pa_wf_def)
  ultimately show ?thesis
    using free_pages_eq[OF r(2)] r(3,6) fp at block_kept[OF r(3-5) r(7)] by auto
qed

interpretation pagepool: page_pool pa_wf free_pages block_at block_valid pa_reserve pa_free
proof
  show "block_at pa l \<noteq> {}" for pa l by (simp add: block_at_def Let_def)
qed (rule pa_reserve_law, assumption, rule pa_free_law)

section \<open>Sizes\<close>

lemma req_order_bounds:
  assumes "sz \<noteq> 0" "blockSize pa \<noteq> 0"
  shows "unat sz \<le> 2 ^ req_order pa sz * unat (blockSize pa)"
    "req_order pa sz = 0 \<or> 2 ^ (req_order pa sz - 1) * unat (blockSize pa) < unat sz"
proof -
  let ?b = "unat (blockSize pa)" and ?q = "(unat sz - 1) div unat (blockSize pa)"
  have pos: "0 < ?b" "0 < unat sz" using assms by (simp_all add: unat_gt_0)
  have u1: "unat (sz - 1) = unat sz - 1" using assms(1) by (rule unat_pred_word)
  have "?q \<le> unat sz - 1" by (rule div_le_dividend)
  moreover have "unat sz < 2 ^ 64" by (rule order_less_le_trans[OF unsigned_less]) simp
  ultimately have "?q + 1 < 2 ^ 64" using pos(2) by linarith
  then have u: "unat ((sz - 1) div blockSize pa + 1) = ?q + 1"
    by (subst unat_add_no_wrap) (simp_all add: unat_div_distrib u1)
  have "?q + 1 \<le> 2 ^ req_order pa sz" using llog2_upper[of "(sz - 1) div blockSize pa + 1"] u
    by (simp add: req_order_def)
  then have "(?q + 1) * ?b \<le> 2 ^ req_order pa sz * ?b" by (rule mult_le_mono1)
  moreover have "unat sz - 1 < (?q + 1) * ?b" using pos(1) by (simp add: dividend_less_div_times)
  ultimately show "unat sz \<le> 2 ^ req_order pa sz * ?b" by linarith
  show "req_order pa sz = 0 \<or> 2 ^ (req_order pa sz - 1) * ?b < unat sz"
  proof (cases "req_order pa sz = 0")
    case False
    then have "2 ^ (req_order pa sz - 1) \<le> ?q"
      using llog2_lower[of "(sz - 1) div blockSize pa + 1"] u by (simp add: req_order_def)
    then have "2 ^ (req_order pa sz - 1) * ?b \<le> ?q * ?b" by (rule mult_le_mono1)
    moreover have "?q * ?b \<le> unat sz - 1" by (rule div_times_less_eq_dividend)
    ultimately show ?thesis using pos(2) by linarith
  qed simp
qed

end
