(* ===== verification/Page_Allocator_Init.thy ===== *)
theory Page_Allocator_Init
  imports Page_Allocator_Correct
begin

text \<open>
  The constructor of the page allocator: on a well-formed memory map it terminates and makes
  exactly the whole pages of the available regions free. The properties of the allocator as a
  whole close the theory.
\<close>

section \<open>Inserting the pages of a region\<close>

definition whole_pages :: "nat \<Rightarrow> MemoryRegion \<Rightarrow> nat set" where
  "whole_pages b r = {p. lo r \<le> p * b \<and> p * b + b \<le> hi r}"

lemma pages_fit: "0 < (b::nat) \<Longrightarrow> p * b + b \<le> e \<longleftrightarrow> p < e div b"
  using less_eq_div_iff_mult_less_eq[of b "Suc p" e] by (simp add: Suc_le_eq add.commute)

lemma round_up: "0 < (b::nat) \<Longrightarrow> l \<le> p * b \<longleftrightarrow> (l + b - 1) div b \<le> p"
proof -
  assume b: "0 < b"
  have "(l + b - 1) div b \<le> p \<longleftrightarrow> (l + b - 1) div b < Suc p" by auto
  also have "\<dots> \<longleftrightarrow> l + b - 1 < Suc p * b" using b by (rule div_less_iff_less_mult)
  also have "\<dots> \<longleftrightarrow> l \<le> p * b" using b by auto
  finally show ?thesis by simp
qed

lemma whole_pages_ivl: "0 < b \<Longrightarrow> whole_pages b r = {(lo r + b - 1) div b..<hi r div b}"
  by (auto simp: whole_pages_def pages_fit round_up)

definition same_geometry :: "PageAllocator \<Rightarrow> PageAllocator \<Rightarrow> bool" where
  "same_geometry pa pa' \<longleftrightarrow> maxKVal pa' = maxKVal pa \<and> blockSize pa' = blockSize pa
     \<and> pa_offset pa' = pa_offset pa"

lemma insert_pages_correct:
  assumes "pa_inv pa L" "unat l = p * unat (blockSize pa)" "unat l + unat (blockSize pa) < 2 ^ 64"
    "unat e + unat (blockSize pa) < 2 ^ 64" "unat e div unat (blockSize pa) \<le> 2 ^ maxKVal pa"
    "{p..<unat e div unat (blockSize pa)} \<inter> pages L (maxKVal pa) = {}"
  shows "\<exists>pa' L'. insert_pages pa l e = Some pa' \<and> pa_inv pa' L' \<and> same_geometry pa pa'
    \<and> pages L' (maxKVal pa) = pages L (maxKVal pa) \<union> {p..<unat e div unat (blockSize pa)}
    \<and> freeBlockCount pa' = freeBlockCount pa + 2 * of_nat (unat e div unat (blockSize pa) - p)"
  using assms
proof (induction "unat e div unat (blockSize pa) - p" arbitrary: pa L l p)
  case 0
  let ?b = "unat (blockSize pa)"
  have b: "0 < ?b" using pa_invD(1)[OF 0(2)] by (simp add: unat_gt_0)
  have z: "unat e div ?b - p = 0" using 0(1) by (rule sym)
  have "\<not> l + blockSize pa \<le> e"
    using z 0(3,4) pages_fit[OF b, of p "unat e"] by (simp add: word_le_nat_alt unat_add_no_wrap)
  then have r: "insert_pages pa l e = Some pa" by (subst insert_pages.simps) simp
  have em: "{p..<unat e div ?b} = {}" using z by simp
  show ?case unfolding z em
  proof (intro exI conjI)
    show "insert_pages pa l e = Some pa" "pa_inv pa L" by (fact r) (fact 0(2))
  qed (simp_all add: same_geometry_def)
next
  case (Suc n)
  let ?b = "unat (blockSize pa)" and ?K = "maxKVal pa" and ?q = "unat e div unat (blockSize pa)"
  have b: "0 < ?b" using pa_invD(1)[OF Suc(3)] by (simp add: unat_gt_0)
  have pq: "p < ?q" using Suc(2) by simp
  have le: "p * ?b + ?b \<le> unat e" using pages_fit[OF b] pq by blast
  have "unat (l + blockSize pa) = unat l + ?b"
    by (rule unat_add_no_wrap) (use Suc(5) in simp)
  then have ul: "unat (l + blockSize pa) = (p + 1) * ?b" unfolding Suc(4) by simp
  have go: "l + blockSize pa \<le> e" unfolding word_le_nat_alt ul using le by simp
  have idx: "unat (l div blockSize pa) = p" using Suc(4) b by (simp add: unat_div_distrib)
  have iv: "{p..<p + 2 ^ 0} \<subseteq> {p..<?q}" using pq by auto
  then have dis: "{p..<p + 2 ^ 0} \<inter> pages L ?K = {}" using Suc(8) by blast
  obtain pa1 L1 where r: "pa_insert pa p 0 = Some pa1" "pa_inv pa1 L1" "maxKVal pa1 = ?K"
    "blockSize pa1 = blockSize pa" "pa_offset pa1 = pa_offset pa"
    "freeBlockCount pa1 = freeBlockCount pa + 1" "pages L1 ?K = pages L ?K \<union> {p..<p + 2 ^ 0}"
    using pa_insert_correct[OF Suc(3), of 0 p] dis pq Suc(7) by auto
  let ?pa = "pa1\<lparr>freeBlockCount := freeBlockCount pa1 + 1\<rparr>"
  have "\<exists>pa' L'. insert_pages ?pa (l + blockSize pa) e = Some pa' \<and> pa_inv pa' L' \<and> same_geometry ?pa pa'
    \<and> pages L' ?K = pages L1 ?K \<union> {p + 1..<?q}
    \<and> freeBlockCount pa' = freeBlockCount ?pa + 2 * of_nat (?q - (p + 1))"
  proof -
    have "n = unat e div unat (blockSize ?pa) - (p + 1)" using Suc(2) r(4) by simp
    moreover have "unat (l + blockSize pa) + ?b < 2 ^ 64" using ul le Suc(6) by (simp add: algebra_simps)
    moreover have "{p + 1..<?q} \<inter> pages L1 ?K = {}"
    proof -
      have "{p + 1..<?q} \<subseteq> {p..<?q}" "{p + 1..<?q} \<inter> {p..<p + 2 ^ 0} = {}" by auto
      then show ?thesis unfolding r(7) using Suc(8) by blast
    qed
    ultimately show ?thesis
      using Suc(1)[of ?pa "p + 1" L1 "l + blockSize pa"] r Suc(6,7) ul by simp
  qed
  then obtain pa' L' where f: "insert_pages ?pa (l + blockSize pa) e = Some pa'" "pa_inv pa' L'"
    "same_geometry ?pa pa'" "pages L' ?K = pages L1 ?K \<union> {p + 1..<?q}"
    "freeBlockCount pa' = freeBlockCount ?pa + 2 * of_nat (?q - (p + 1))" by blast
  have "insert_pages pa l e = Some pa'" using go idx r(1) f(1) by (subst insert_pages.simps) simp
  moreover have "{p..<?q} = {p..<p + 2 ^ 0} \<union> {p + 1..<?q}" using pq by auto
  then have "pages L' ?K = pages L ?K \<union> {p..<?q}" using f(4) r(7) by blast
  moreover have "?q - p = Suc (?q - (p + 1))" using pq by simp
  then have "freeBlockCount pa' = freeBlockCount pa + 2 * of_nat (?q - p)"
    using f(5) r(6) by (simp add: algebra_simps)
  moreover have "same_geometry pa pa'" using f(3) r(3-5) by (simp add: same_geometry_def)
  ultimately show ?case using f(2) by blast
qed

section \<open>All regions\<close>

lemma round_location:
  assumes "unat loc + unat b < 2 ^ 64" "(b::u64) \<noteq> 0"
  shows "unat (loc + b - 1 - (loc + b - 1) mod b) = (unat loc + unat b - 1) div unat b * unat b"
proof -
  have nz: "loc + b \<noteq> 0" 
  proof
    assume "loc + b = 0"
    then have "unat loc + unat b = 0" using unat_add_no_wrap[of loc b] assms(1) by simp
    then show False using assms(2) by (simp add: unat_eq_zero)
  qed
  have u: "unat (loc + b - 1) = unat loc + unat b - 1"
    using unat_pred_word[OF nz] assms(1) by (simp add: unat_add_no_wrap)
  have "unat (loc + b - 1 - (loc + b - 1) mod b) = unat (loc + b - 1) - unat ((loc + b - 1) mod b)"
    by (rule unat_sub_no_wrap) (simp add: unat_mod_distrib)
  then show ?thesis using u by (simp add: unat_mod_distrib minus_mod_eq_div_mult)
qed

lemma whole_pages_disjoint:
  assumes "hi r \<le> lo r'" "0 < b"
  shows "whole_pages b r \<inter> whole_pages b r' = {}"
proof -
  have "p * b + b \<le> hi r \<Longrightarrow> \<not> lo r' \<le> p * b" for p using assms by linarith
  then show ?thesis by (auto simp: whole_pages_def)
qed

text \<open>The whole pages of the available regions of a map.\<close>

definition avail_pages :: "nat \<Rightarrow> MemoryMap \<Rightarrow> nat set" where
  "avail_pages b m = (\<Union>r \<in> {r \<in> set m. reg_type r = AVAILABLE}. whole_pages b r)"

definition page_count :: "nat \<Rightarrow> MemoryMap \<Rightarrow> nat" where
  "page_count b m = sum_list (map (\<lambda>r. card (whole_pages b r)) (filter (\<lambda>r. reg_type r = AVAILABLE) m))"

lemma card_avail_chain:
  assumes "chain c m" "0 < b"
  shows "card (avail_pages b m) = page_count b m \<and> finite (avail_pages b m)"
  using assms(1)
proof (induction m arbitrary: c)
  case (Cons r rs)
  then have ch: "chain (hi r) rs" by simp
  show ?case
  proof (cases "reg_type r = AVAILABLE")
    case True
    then have "avail_pages b (r # rs) = whole_pages b r \<union> avail_pages b rs"
      "page_count b (r # rs) = card (whole_pages b r) + page_count b rs"
      by (auto simp: avail_pages_def page_count_def)
    moreover have "finite (whole_pages b r)" using whole_pages_ivl[OF assms(2)] by simp
    moreover have "whole_pages b r \<inter> avail_pages b rs = {}"
      using whole_pages_disjoint[OF _ assms(2)] chain_all_ge[OF ch] unfolding avail_pages_def by blast
    ultimately show ?thesis using Cons.IH[OF ch] by (simp add: card_Un_disjoint)
  next
    case False
    then have "avail_pages b (r # rs) = avail_pages b rs" "page_count b (r # rs) = page_count b rs"
      by (auto simp: avail_pages_def page_count_def)
    then show ?thesis using Cons.IH[OF ch] by simp
  qed
qed (simp add: avail_pages_def page_count_def)

lemma card_avail_pages:
  "map_wf m \<Longrightarrow> 0 < b \<Longrightarrow> card (avail_pages b m) = page_count b m"
  using card_avail_chain by (auto simp: map_wf_def)

lemma insert_regions_correct:
  assumes "pa_inv pa L" "chain c m" "\<forall>r \<in> set m. reg_type r = AVAILABLE \<longrightarrow> hi r + 2 * unat (blockSize pa) < 2 ^ 64"
    "\<forall>r \<in> set m. reg_type r = AVAILABLE \<longrightarrow> hi r div unat (blockSize pa) \<le> 2 ^ maxKVal pa"
    "avail_pages (unat (blockSize pa)) m \<inter> pages L (maxKVal pa) = {}"
  shows "\<exists>pa' L'. insert_regions pa m = Some pa' \<and> pa_inv pa' L' \<and> same_geometry pa pa'
    \<and> pages L' (maxKVal pa) = pages L (maxKVal pa) \<union> avail_pages (unat (blockSize pa)) m
    \<and> freeBlockCount pa' = freeBlockCount pa + 2 * of_nat (page_count (unat (blockSize pa)) m)"
  using assms
proof (induction m arbitrary: pa L c)
  case Nil
  then show ?case by (auto simp: same_geometry_def avail_pages_def page_count_def)
next
  case (Cons r rs)
  let ?b = "unat (blockSize pa)" and ?K = "maxKVal pa"
  show ?case
  proof (cases "reg_type r = AVAILABLE")
    case False
    then have "avail_pages ?b (r # rs) = avail_pages ?b rs" "page_count ?b (r # rs) = page_count ?b rs"
      by (auto simp: avail_pages_def page_count_def)
    then show ?thesis using Cons.IH[OF Cons.prems(1), of "hi r"] Cons.prems False by simp
  next
    case True
    have nz: "blockSize pa \<noteq> 0" and b: "0 < ?b" using pa_invD(1)[OF Cons.prems(1)] by (simp_all add: unat_gt_0)
    have ok: "region_ok r" and ch: "chain (hi r) rs" using Cons.prems(2) by auto
    have av: "avail_pages ?b (r # rs) = whole_pages ?b r \<union> avail_pages ?b rs"
      "page_count ?b (r # rs) = card (whole_pages ?b r) + page_count ?b rs"
      using True by (auto simp: avail_pages_def page_count_def)
    define P where "P = (lo r + ?b - 1) div ?b"
    define l where "l = reg_location r + blockSize pa - 1 - (reg_location r + blockSize pa - 1) mod blockSize pa"
    have wp: "whole_pages ?b r = {P..<hi r div ?b}" using whole_pages_ivl[OF b] by (simp add: P_def)
    have bound: "lo r + ?b < 2 ^ 64" "hi r + 2 * ?b < 2 ^ 64"
      using ok Cons.prems(3) True by (auto simp: region_ok_def)
    have ul: "unat l = P * ?b"
      unfolding l_def P_def lo_def using round_location[OF _ nz] bound(1) by (simp add: lo_def)
    have "P * ?b \<le> lo r + ?b - 1" unfolding P_def by (rule div_times_less_eq_dividend)
    then have lb: "unat l + ?b < 2 ^ 64" using bound ok ul by (simp add: region_ok_def)
    have dis: "{P..<hi r div ?b} \<inter> pages L ?K = {}" using Cons.prems(5) av(1) wp by blast
    have eb: "unat (region_end r) + ?b < 2 ^ 64" "unat (region_end r) div ?b \<le> 2 ^ ?K"
      using bound ok Cons.prems(4) True by (simp_all add: unat_region_end)
    obtain pa1 L1 where i: "insert_pages pa l (region_end r) = Some pa1" "pa_inv pa1 L1" "same_geometry pa pa1"
      "pages L1 ?K = pages L ?K \<union> {P..<hi r div ?b}"
      "freeBlockCount pa1 = freeBlockCount pa + 2 * of_nat (hi r div ?b - P)"
      using insert_pages_correct[OF Cons.prems(1) ul lb eb] dis unat_region_end[OF ok] by auto
    have g: "maxKVal pa1 = ?K" "blockSize pa1 = blockSize pa" using i(3) by (simp_all add: same_geometry_def)
    have "whole_pages ?b r \<inter> avail_pages ?b rs = {}"
      using whole_pages_disjoint[OF _ b] chain_all_ge[OF ch] unfolding avail_pages_def by blast
    then have "avail_pages ?b rs \<inter> pages L1 ?K = {}" unfolding i(4) using Cons.prems(5) av(1) wp by auto
    then obtain pa' L' where f: "insert_regions pa1 rs = Some pa'" "pa_inv pa' L'" "same_geometry pa1 pa'"
      "pages L' ?K = pages L1 ?K \<union> avail_pages ?b rs"
      "freeBlockCount pa' = freeBlockCount pa1 + 2 * of_nat (page_count ?b rs)"
      using Cons.IH[OF i(2) ch, unfolded g] Cons.prems(3,4) by auto
    have "insert_regions pa (r # rs) = Some pa'" using True i(1) f(1) by (simp add: l_def Let_def)
    moreover have "pages L' ?K = pages L ?K \<union> avail_pages ?b (r # rs)" using f(4) i(4) av(1) wp by blast
    moreover have "freeBlockCount pa' = freeBlockCount pa + 2 * of_nat (page_count ?b (r # rs))"
      unfolding f(5) i(5) av(2) wp by (simp add: algebra_simps)
    moreover have "same_geometry pa pa'" using i(3) f(3) by (simp add: same_geometry_def)
    ultimately show ?thesis using f(2) by blast
  qed
qed

section \<open>The constructor\<close>

lemma last_available_Some:
  assumes "r \<in> set (take n m)" "reg_type r = AVAILABLE" "n \<le> length m"
  shows "\<exists>i < n. last_available m n = Some i \<and> reg_type (m ! i) = AVAILABLE
    \<and> (\<forall>j < n. reg_type (m ! j) = AVAILABLE \<longrightarrow> j \<le> i)"
  using assms
proof (induction n)
  case (Suc n)
  show ?case
  proof (cases "reg_type (m ! n) = AVAILABLE")
    case False
    then have "r \<in> set (take n m)" using Suc.prems by (auto simp: take_Suc_conv_app_nth)
    then show ?thesis using Suc False by (auto simp: less_Suc_eq)
  qed (auto simp: less_Suc_eq_le)
qed simp

lemma chain_nth_mono: "chain c m \<Longrightarrow> i \<le> j \<Longrightarrow> j < length m \<Longrightarrow> hi (m ! i) \<le> hi (m ! j)"
proof (induction m arbitrary: c i j)
  case (Cons r rs)
  show ?case
  proof (cases i)
    case (Suc i')
    then show ?thesis using Cons by (cases j) auto
  next
    case 0
    show ?thesis
    proof (cases j)
      case (Suc j')
      then have "hi r \<le> lo (rs ! j') \<and> region_ok (rs ! j')" using Cons.prems by (intro chain_all_ge) auto
      then show ?thesis using 0 Suc by (simp add: region_ok_def)
    qed (use 0 in simp)
  qed
qed simp

text \<open>The order the constructor computes for a map that ends at \<open>e\<close>.\<close>

lemma map_order:
  assumes b: "0 < unat bs" "unat bs \<le> unat e" and e: "unat e < 2 ^ 58"
  defines "bms \<equiv> 2 ^ llog2 (sizeof_Block * e div bs) :: u64"
  defines "K \<equiv> llog2 (bms div sizeof_Block)"
  shows "unat (bms div sizeof_Block) = 2 ^ K" "unat e div unat bs \<le> 2 ^ K"
    "2 ^ K * unat bs \<le> 2 * unat e"
proof -
  let ?q = "32 * unat e div unat bs" and ?x = "llog2 (sizeof_Block * e div bs)"
  have u: "unat (sizeof_Block * e div bs) = ?q"
    using e by (simp add: sizeof_Block_def unat_div_distrib unat_mult_no_wrap)
  have up: "?q \<le> 2 ^ ?x" using llog2_upper[of "sizeof_Block * e div bs"] u by simp
  have lo: "0 < ?x \<Longrightarrow> 2 ^ (?x - 1) < ?q" using llog2_lower[of "sizeof_Block * e div bs"] u by simp
  have q: "32 * (unat e div unat bs) \<le> ?q"
    using b div_times_less_eq_dividend[of "unat e" "unat bs"]
    by (simp add: less_eq_div_iff_mult_less_eq mult.assoc)
  have one: "1 \<le> unat e div unat bs" using b by (simp add: div_greater_zero_iff Suc_le_eq)
  have x5: "5 \<le> ?x"
  proof (rule ccontr)
    assume "\<not> 5 \<le> ?x"
    then have "(2::nat) ^ ?x \<le> 2 ^ 4" by (intro power_increasing) simp_all
    then show False using up q one by simp
  qed
  have "?q \<le> 32 * unat e" by (rule div_le_dividend)
  moreover have "32 * unat e < 2 ^ 63" using e by simp
  ultimately have ql: "?q < 2 ^ 63" by (rule le_less_trans)
  have x63: "?x < 64"
  proof (rule ccontr)
    assume "\<not> ?x < 64"
    then have "(2::nat) ^ 63 \<le> 2 ^ (?x - 1)" by (intro power_increasing) simp_all
    also have "(2::nat) ^ (?x - 1) < ?q" using lo x5 by linarith
    finally show False using ql by simp
  qed
  obtain y where y: "?x = y + 5" using x5 by (metis add.commute le_Suc_ex)
  have ub: "unat bms = 2 ^ (y + 5)" unfolding bms_def y using x63 y by (simp add: unat_pow2)
  then have ud: "unat (bms div sizeof_Block) = 2 ^ y"
    by (simp add: sizeof_Block_def unat_div_distrib power_add)
  then have K: "K = y" unfolding K_def by (intro llog2_eq_if) simp_all
  show "unat (bms div sizeof_Block) = 2 ^ K" using ud K by simp
  show "unat e div unat bs \<le> 2 ^ K" using up q y K by (simp add: power_add)
  have "2 ^ (y + 4) \<le> ?q" using lo y by (simp add: add.commute)
  then have "2 ^ (y + 4) * unat bs \<le> ?q * unat bs" by (rule mult_le_mono1)
  also have "?q * unat bs \<le> 32 * unat e" by (rule div_times_less_eq_dividend)
  finally show "2 ^ K * unat bs \<le> 2 * unat e" using K by (simp add: power_add mult.commute)
qed

text \<open>The state before the regions are inserted.\<close>

lemma empty_allocator:
  assumes "unat n = 2 ^ K" "bs \<noteq> 0"
  shows "pa_inv \<lparr>availList = (\<lambda>i. if i \<le> K then Block_default\<lparr>linkf := Avail i, linkb := Avail i\<rparr>
                                 else Block_default),
      blockMap = (\<lambda>i. if i < unat (n::u64) then mk_Block Null Null 0 RESERVED else mem i),
      blockMapSize = x, maxKVal = K, blockSize = bs, pa_offset = 0, freeBlockCount = 0\<rparr> (\<lambda>_. [])"
  using assms by (simp add: pa_inv_def dlists_def blocks_ok_def tags_ok_def mk_Block_def RESERVED_def FREE_def)

lemma init_correct:
  assumes m: "map_wf m" and r: "r \<in> set m" "reg_type r = AVAILABLE" "unat bs \<le> hi r" and bs: "0 < unat bs"
    and lim: "\<And>r. r \<in> set m \<Longrightarrow> reg_type r = AVAILABLE \<Longrightarrow> hi r < 2 ^ 58 \<and> hi r < 2 ^ 30 * unat bs"
  shows "\<exists>pa L. PageAllocator_init m mem bs = Some pa \<and> pa_inv pa L \<and> pa_offset pa = 0
    \<and> blockSize pa = bs \<and> 2 ^ maxKVal pa * unat bs < 2 ^ 59 \<and> maxKVal pa < availListSize
    \<and> pages L (maxKVal pa) = avail_pages (unat bs) m
    \<and> freeBlockCount pa = 2 * of_nat (page_count (unat bs) m)"
proof -
  have ch: "chain 0 m" using m by (simp add: map_wf_def)
  obtain i where i: "i < length m" "last_available m (length m) = Some i" "reg_type (m ! i) = AVAILABLE"
    "\<forall>j < length m. reg_type (m ! j) = AVAILABLE \<longrightarrow> j \<le> i"
    using last_available_Some[of r "length m" m] r by auto
  let ?e = "region_end (m ! i)"
  have mem: "m ! i \<in> set m" using i(1) by simp
  have top: "hi q \<le> hi (m ! i)" if "q \<in> set m" "reg_type q = AVAILABLE" for q
    using that i chain_nth_mono[OF ch] by (metis in_set_conv_nth)
  have ok: "region_ok (m ! i)" using chain_all_ge[OF ch mem] by simp
  have e: "unat ?e = hi (m ! i)" by (rule unat_region_end[OF ok])
  have big: "unat bs \<le> unat ?e" "unat ?e < 2 ^ 58" using top[OF r(1,2)] r(3) lim[OF mem i(3)] e by auto
  note o = map_order[OF bs big]
  define bms where "bms = (2 ^ llog2 (sizeof_Block * ?e div bs) :: u64)"
  define K where "K = llog2 (bms div sizeof_Block)"
  have K: "unat (bms div sizeof_Block) = 2 ^ K" "unat ?e div unat bs \<le> 2 ^ K" "2 ^ K * unat bs \<le> 2 * unat ?e"
    using o by (simp_all add: bms_def K_def)
  have "2 * unat ?e < 2 ^ 31 * unat bs" using lim[OF mem i(3)] e by simp
  with K(3) have "2 ^ K * unat bs < 2 ^ 31 * unat bs" by (rule le_less_trans)
  then have "(2::nat) ^ K < 2 ^ 31" using bs by simp
  then have K31: "K < 31" by (rule power_less_imp_less_exp[rotated]) simp
  have nz: "bs \<noteq> 0" using bs by (auto simp: unat_gt_0)
  let ?pa = "\<lparr>availList = (\<lambda>i. if i \<le> K then Block_default\<lparr>linkf := Avail i, linkb := Avail i\<rparr>
      else Block_default),
      blockMap = (\<lambda>i. if i < unat (bms div sizeof_Block) then mk_Block Null Null 0 RESERVED else mem i),
      blockMapSize = bms, maxKVal = K, blockSize = bs, pa_offset = 0, freeBlockCount = 0\<rparr>"
  have I: "pa_inv ?pa (\<lambda>_. [])" using empty_allocator[OF K(1) nz] .
  have lim': "\<forall>r \<in> set m. reg_type r = AVAILABLE \<longrightarrow> hi r + 2 * unat (blockSize ?pa) < 2 ^ 64"
    "\<forall>r \<in> set m. reg_type r = AVAILABLE \<longrightarrow> hi r div unat (blockSize ?pa) \<le> 2 ^ maxKVal ?pa"
  proof -
    show "\<forall>r \<in> set m. reg_type r = AVAILABLE \<longrightarrow> hi r + 2 * unat (blockSize ?pa) < 2 ^ 64"
      using lim big by fastforce
    show "\<forall>r \<in> set m. reg_type r = AVAILABLE \<longrightarrow> hi r div unat (blockSize ?pa) \<le> 2 ^ maxKVal ?pa"
      using top K(2) e by simp (metis div_le_mono le_trans)
  qed
  have "avail_pages (unat (blockSize ?pa)) m \<inter> pages (\<lambda>_. []) (maxKVal ?pa) = {}" by (simp add: pages_def)
  from insert_regions_correct[OF I ch lim' this] obtain pa L where
    f: "insert_regions ?pa m = Some pa" "pa_inv pa L" "same_geometry ?pa pa"
    "pages L K = avail_pages (unat bs) m" "freeBlockCount pa = 2 * of_nat (page_count (unat bs) m)"
    by (auto simp: pages_def)
  have "PageAllocator_init m mem bs = Some pa"
    using i(2) K31 f(1) nz unfolding PageAllocator_init_def mapSize_def
    by (simp add: bms_def[symmetric] K_def[symmetric] availListSize_def Let_def)
  then show ?thesis using f K31 K(3) big(2)
    by (intro exI[of _ pa] exI[of _ L]) (auto simp: same_geometry_def availListSize_def)
qed

section \<open>Properties of the allocator\<close>

text \<open>C2: the constructor returns on every well-formed memory map whose available memory has at
  least one page and stays below the bounds of the 32 free lists; the allocator it builds is
  well formed and its free pages are exactly the whole pages of the available regions.\<close>

theorem page_allocator_init:
  assumes "map_wf m" and "r \<in> set m" "reg_type r = AVAILABLE" "unat bs \<le> hi r"
    and "0 < unat bs" "even (unat bs)"
    and "\<And>r. r \<in> set m \<Longrightarrow> reg_type r = AVAILABLE \<Longrightarrow> hi r < 2 ^ 58 \<and> hi r < 2 ^ 30 * unat bs"
  shows "\<exists>pa. PageAllocator_init m mem bs = Some pa \<and> pa_wf pa
    \<and> free_pages pa = (\<Union>r \<in> {r \<in> set m. reg_type r = AVAILABLE}.
         {p. lo r \<le> p * unat bs \<and> p * unat bs + unat bs \<le> hi r})"
proof -
  obtain pa L where p: "PageAllocator_init m mem bs = Some pa" "pa_inv pa L" "pa_offset pa = 0"
    "blockSize pa = bs" "2 ^ maxKVal pa * unat bs < 2 ^ 59" "pages L (maxKVal pa) = avail_pages (unat bs) m"
    using init_correct[OF assms(1-5,7)] by blast
  then have "pa_wf pa" using assms(6) by (auto simp: pa_wf_def)
  then show ?thesis using p free_pages_eq[OF p(2)] by (auto simp: avail_pages_def whole_pages_def)
qed

definition sample_map :: MemoryMap where
  "sample_map = [\<lparr>reg_type = UNAVAILABLE, reg_location = 0, reg_size = 0x80000\<rparr>,
     \<lparr>reg_type = AVAILABLE, reg_location = 0x80000, reg_size = 0x1FF80000\<rparr>,
     \<lparr>reg_type = MMIO, reg_location = 0x3F000000, reg_size = 0x1000000\<rparr>]"

lemma sample_map_ok:
  "map_wf sample_map" "sample_map ! 1 \<in> set sample_map" "reg_type (sample_map ! 1) = AVAILABLE"
  "unat (4096 :: u64) \<le> hi (sample_map ! 1)"
  "r \<in> set sample_map \<Longrightarrow> reg_type r = AVAILABLE \<Longrightarrow> hi r < 2 ^ 58 \<and> hi r < 2 ^ 30 * unat (4096 :: u64)"
  by (auto simp: sample_map_def map_wf_def region_ok_def lo_def hi_def)

theorem page_allocator_init_witness:
  "\<exists>pa. PageAllocator_init sample_map (\<lambda>_. Block_default) 4096 = Some pa \<and> pa_wf pa
    \<and> free_pages pa = (\<Union>r \<in> {r \<in> set sample_map. reg_type r = AVAILABLE}.
         {p. lo r \<le> p * unat (4096 :: u64) \<and> p * unat (4096 :: u64) + unat (4096 :: u64) \<le> hi r})"
  by (rule page_allocator_init[OF sample_map_ok(1-4) _ _ sample_map_ok(5)]) simp_all


text \<open>The smallest allocator: one free page.\<close>

definition one_page :: PageAllocator where
  "one_page = \<lparr>availList = (\<lambda>i. if i = 0 then Block_default\<lparr>linkf := Blk 0, linkb := Blk 0\<rparr> else Block_default),
     blockMap = (\<lambda>i. if i = 0 then mk_Block (Avail 0) (Avail 0) 0 FREE else Block_default),
     blockMapSize = 32, maxKVal = 0, blockSize = 4096, pa_offset = 0, freeBlockCount = 1\<rparr>"

lemma one_page_inv: "pa_inv one_page ((\<lambda>_. [])(0 := [0]))"
  by (simp add: pa_inv_def one_page_def dlists_def blocks_ok_def tags_ok_def mk_Block_def Block_default_def
      RESERVED_def FREE_def)

lemma one_page_wf: "pa_wf one_page"
  using one_page_inv by (auto simp: pa_wf_def one_page_def)


text \<open>C3: \<open>reserve\<close> fails exactly when no free block is large enough, and then changes nothing;
  otherwise it returns the address of an aligned block of free pages, the smallest power of two
  that holds the request, which is removed from the free pages and from the count.\<close>

theorem reserve_returns_block:
  assumes "pa_inv pa L" and "sz \<noteq> 0"
  shows "\<exists>k. unat sz \<le> 2 ^ k * unat (blockSize pa) \<and> (k = 0 \<or> 2 ^ (k - 1) * unat (blockSize pa) < unat sz)
    \<and> (if \<forall>l. k \<le> l \<and> l \<le> maxKVal pa \<longrightarrow> L l = [] then pa_reserve pa sz = Some (NOMEM, pa)
       else \<exists>pa' L' i. pa_reserve pa sz = Some (pa_offset pa + of_nat i * blockSize pa, pa')
         \<and> pa_inv pa' L' \<and> freeBlockCount pa' = freeBlockCount pa - 2 ^ k
         \<and> 2 ^ k dvd i \<and> {i..<i + 2 ^ k} \<subseteq> pages L (maxKVal pa)
         \<and> pages L' (maxKVal pa) = pages L (maxKVal pa) - {i..<i + 2 ^ k})"
proof (intro exI conjI)
  let ?k = "req_order pa sz"
  show "unat sz \<le> 2 ^ ?k * unat (blockSize pa)" "?k = 0 \<or> 2 ^ (?k - 1) * unat (blockSize pa) < unat sz"
    using req_order_bounds[OF assms(2) pa_invD(1)[OF assms(1)]] .
  show "if \<forall>l. ?k \<le> l \<and> l \<le> maxKVal pa \<longrightarrow> L l = [] then pa_reserve pa sz = Some (NOMEM, pa)
       else \<exists>pa' L' i. pa_reserve pa sz = Some (pa_offset pa + of_nat i * blockSize pa, pa')
         \<and> pa_inv pa' L' \<and> freeBlockCount pa' = freeBlockCount pa - 2 ^ ?k
         \<and> 2 ^ ?k dvd i \<and> {i..<i + 2 ^ ?k} \<subseteq> pages L (maxKVal pa)
         \<and> pages L' (maxKVal pa) = pages L (maxKVal pa) - {i..<i + 2 ^ ?k}"
  proof (cases "\<forall>l. ?k \<le> l \<and> l \<le> maxKVal pa \<longrightarrow> L l = []")
    case False
    show ?thesis unfolding if_not_P[OF False]
      using pa_reserve_cases[OF assms(1), of sz, unfolded if_not_P[OF False]] by blast
  qed (use pa_reserve_cases[OF assms(1), of sz] in simp)
qed

theorem reserve_returns_block_witness:
  "\<exists>k. unat (4096 :: u64) \<le> 2 ^ k * unat (blockSize one_page)
    \<and> (k = 0 \<or> 2 ^ (k - 1) * unat (blockSize one_page) < unat (4096 :: u64))
    \<and> (if \<forall>l. k \<le> l \<and> l \<le> maxKVal one_page \<longrightarrow> ((\<lambda>_. [])(0 := [0 :: nat])) l = []
       then pa_reserve one_page 4096 = Some (NOMEM, one_page)
       else \<exists>pa' L' i. pa_reserve one_page 4096 = Some (pa_offset one_page + of_nat i * blockSize one_page, pa')
         \<and> pa_inv pa' L' \<and> freeBlockCount pa' = freeBlockCount one_page - 2 ^ k
         \<and> 2 ^ k dvd i \<and> {i..<i + 2 ^ k} \<subseteq> pages ((\<lambda>_. [])(0 := [0])) (maxKVal one_page)
         \<and> pages L' (maxKVal one_page) = pages ((\<lambda>_. [])(0 := [0])) (maxKVal one_page) - {i..<i + 2 ^ k})"
  by (rule reserve_returns_block[OF one_page_inv]) simp

text \<open>The constructor counts every page twice, once in \<open>insert\<close> and once in its own loop: the
  free block count it leaves is double the number of free pages.\<close>

theorem init_counts_pages_twice:
  assumes "map_wf m" and "r \<in> set m" "reg_type r = AVAILABLE" "unat bs \<le> hi r" and "0 < unat bs"
    and "\<And>r. r \<in> set m \<Longrightarrow> reg_type r = AVAILABLE \<Longrightarrow> hi r < 2 ^ 58 \<and> hi r < 2 ^ 30 * unat bs"
  shows "\<exists>pa. PageAllocator_init m mem bs = Some pa
    \<and> freeBlockCount pa = 2 * of_nat (card (free_pages pa))"
proof -
  obtain pa L where p: "PageAllocator_init m mem bs = Some pa" "pa_inv pa L"
    "pages L (maxKVal pa) = avail_pages (unat bs) m"
    "freeBlockCount pa = 2 * of_nat (page_count (unat bs) m)"
    using init_correct[OF assms(1-6)] by blast
  then show ?thesis
    using free_pages_eq[OF p(2)] card_avail_pages[OF assms(1,5)] by auto
qed

theorem init_counts_pages_twice_witness:
  "\<exists>pa. PageAllocator_init sample_map (\<lambda>_. Block_default) 4096 = Some pa
    \<and> freeBlockCount pa = 2 * of_nat (card (free_pages pa))"
  by (rule init_counts_pages_twice[OF sample_map_ok(1-4) _ sample_map_ok(5)]) simp_all

end
