(* ===== verification/Bst.thy ===== *)
theory Bst
  imports Cros_Prelude
begin

text \<open>
  The container \<^verbatim>\<open>binary_search_tree\<close> of \<^verbatim>\<open>src/containers/binary_search_tree.h\<close>: a search tree of heap
  nodes with parent pointers and stored heights, which the kernel uses for its process table
  and every process for its file table. The nodes lie in a store \<open>nodes\<close> from addresses to
  node contents; \<open>new\<close> takes the next unused address and \<open>delete\<close> removes the address from the
  store, so that a null dereference and a use after \<open>delete\<close> are the value \<open>None\<close>. A reference
  that a method returns is the value it refers to. Recursion over the pointers is a partial
  function: not returning is \<open>None\<close> as well.
\<close>

section \<open>Nodes and trees\<close>

record ('k, 'v) node =
  key :: 'k
  "value" :: 'v
  parent :: "nat option"
  left :: "nat option"
  right :: "nat option"
  height :: int

record ('k, 'v) binary_search_tree =
  root :: "nat option"
  bst_size :: int
  nodes :: "nat \<Rightarrow> ('k, 'v) node option"
  next_addr :: nat

definition node_init :: "'k \<Rightarrow> 'v \<Rightarrow> ('k, 'v) node" where
  "node_init k v = \<lparr>key = k, value = v, parent = None, left = None, right = None, height = 1\<rparr>"

definition bst_init :: "('k, 'v) binary_search_tree" where
  "bst_init = \<lparr>root = None, bst_size = 0, nodes = (\<lambda>_. None), next_addr = 0\<rparr>"

definition bst_empty :: "('k, 'v) binary_search_tree \<Rightarrow> bool" where
  "bst_empty t \<longleftrightarrow> bst_size t = 0"

section \<open>Access through pointers\<close>

definition upd :: "('k, 'v) binary_search_tree \<Rightarrow> nat \<Rightarrow> (('k, 'v) node \<Rightarrow> ('k, 'v) node)
    \<Rightarrow> ('k, 'v) binary_search_tree option" where
  "upd t a f = (case nodes t a of None \<Rightarrow> None
     | Some n \<Rightarrow> Some (t\<lparr>nodes := (nodes t)(a := Some (f n))\<rparr>))"

definition new_node :: "('k, 'v) binary_search_tree \<Rightarrow> 'k \<Rightarrow> 'v \<Rightarrow> nat \<times> ('k, 'v) binary_search_tree" where
  "new_node t k v = (next_addr t, t\<lparr>nodes := (nodes t)(next_addr t := Some (node_init k v)),
     next_addr := next_addr t + 1\<rparr>)"

definition delete_node :: "('k, 'v) binary_search_tree \<Rightarrow> nat \<Rightarrow> ('k, 'v) binary_search_tree option" where
  "delete_node t a = (case nodes t a of None \<Rightarrow> None
     | Some n \<Rightarrow> Some (t\<lparr>nodes := (nodes t)(a := None)\<rparr>))"

section \<open>Methods of a node\<close>

definition balance :: "('k, 'v) binary_search_tree \<Rightarrow> nat \<Rightarrow> int option" where
  "balance t a = do {
     n \<leftarrow> nodes t a;
     (case (left n, right n) of
        (None, None) \<Rightarrow> Some 0
      | (None, Some r) \<Rightarrow> do { rn \<leftarrow> nodes t r; Some (- height rn) }
      | (Some l, None) \<Rightarrow> do { ln \<leftarrow> nodes t l; Some (height ln) }
      | (Some l, Some r) \<Rightarrow> do { ln \<leftarrow> nodes t l; rn \<leftarrow> nodes t r; Some (height ln - height rn) }) }"

definition update_height ::
  "('k, 'v) binary_search_tree \<Rightarrow> nat \<Rightarrow> ('k, 'v) binary_search_tree option" where
  "update_height t a = do {
     n \<leftarrow> nodes t a;
     h \<leftarrow> (case (left n, right n) of
        (None, None) \<Rightarrow> Some 1
      | (None, Some r) \<Rightarrow> do { rn \<leftarrow> nodes t r; Some (1 + height rn) }
      | (Some l, None) \<Rightarrow> do { ln \<leftarrow> nodes t l; Some (1 + height ln) }
      | (Some l, Some r) \<Rightarrow> do { ln \<leftarrow> nodes t l; rn \<leftarrow> nodes t r; Some (1 + max (height ln) (height rn)) });
     upd t a (\<lambda>n. n\<lparr>height := h\<rparr>) }"

partial_function (option) leftmost :: "('k, 'v) binary_search_tree \<Rightarrow> nat \<Rightarrow> nat option" where
  "leftmost t a = do { n \<leftarrow> nodes t a; (case left n of None \<Rightarrow> Some a | Some l \<Rightarrow> leftmost t l) }"

partial_function (option) rightmost :: "('k, 'v) binary_search_tree \<Rightarrow> nat \<Rightarrow> nat option" where
  "rightmost t a = do { n \<leftarrow> nodes t a; (case right n of None \<Rightarrow> Some a | Some r \<Rightarrow> rightmost t r) }"

definition successor :: "('k, 'v) binary_search_tree \<Rightarrow> nat \<Rightarrow> nat option option" where
  "successor t a = do {
     n \<leftarrow> nodes t a;
     (case right n of
        Some r \<Rightarrow> map_option Some (leftmost t r)
      | None \<Rightarrow> (case left n of
          Some l \<Rightarrow> map_option Some (rightmost t l)
        | None \<Rightarrow> Some None)) }"

definition unlink :: "('k, 'v) binary_search_tree \<Rightarrow> nat \<Rightarrow> ('k, 'v) binary_search_tree option" where
  "unlink t a = do {
     n \<leftarrow> nodes t a;
     (case parent n of
        None \<Rightarrow> Some t
      | Some p \<Rightarrow> do {
          pn \<leftarrow> nodes t p;
          (if left pn = Some a then upd t p (\<lambda>n. n\<lparr>left := None\<rparr>)
           else upd t p (\<lambda>n. n\<lparr>right := None\<rparr>)) }) }"

section \<open>Rotations\<close>

definition relink_parent :: "('k, 'v) binary_search_tree \<Rightarrow> nat option \<Rightarrow> nat \<Rightarrow> nat
    \<Rightarrow> ('k, 'v) binary_search_tree option" where
  "relink_parent t par a b =
     (case par of
        Some p \<Rightarrow> do {
          pn \<leftarrow> nodes t p;
          (if left pn = Some a then upd t p (\<lambda>n. n\<lparr>left := Some b\<rparr>)
           else upd t p (\<lambda>n. n\<lparr>right := Some b\<rparr>)) }
      | None \<Rightarrow> Some (t\<lparr>root := Some b\<rparr>))"

definition rotate_right ::
  "('k, 'v) binary_search_tree \<Rightarrow> nat \<Rightarrow> ('k, 'v) binary_search_tree option" where
  "rotate_right t a = do {
     n \<leftarrow> nodes t a;
     l \<leftarrow> left n;
     ln \<leftarrow> nodes t l;
     t1 \<leftarrow> upd t l (\<lambda>m. m\<lparr>right := Some a\<rparr>);
     t2 \<leftarrow> upd t1 a (\<lambda>m. m\<lparr>left := right ln\<rparr>);
     t3 \<leftarrow> upd t2 l (\<lambda>m. m\<lparr>parent := parent n\<rparr>);
     t4 \<leftarrow> upd t3 a (\<lambda>m. m\<lparr>parent := Some l\<rparr>);
     t5 \<leftarrow> (case right ln of None \<Rightarrow> Some t4 | Some lr \<Rightarrow> upd t4 lr (\<lambda>m. m\<lparr>parent := Some a\<rparr>));
     t6 \<leftarrow> relink_parent t5 (parent n) a l;
     t7 \<leftarrow> update_height t6 a;
     update_height t7 l }"

definition rotate_left ::
  "('k, 'v) binary_search_tree \<Rightarrow> nat \<Rightarrow> ('k, 'v) binary_search_tree option" where
  "rotate_left t a = do {
     n \<leftarrow> nodes t a;
     r \<leftarrow> right n;
     rn \<leftarrow> nodes t r;
     t1 \<leftarrow> upd t r (\<lambda>m. m\<lparr>left := Some a\<rparr>);
     t2 \<leftarrow> upd t1 a (\<lambda>m. m\<lparr>right := left rn\<rparr>);
     t3 \<leftarrow> upd t2 r (\<lambda>m. m\<lparr>parent := parent n\<rparr>);
     t4 \<leftarrow> upd t3 a (\<lambda>m. m\<lparr>parent := Some r\<rparr>);
     t5 \<leftarrow> (case left rn of None \<Rightarrow> Some t4 | Some rl \<Rightarrow> upd t4 rl (\<lambda>m. m\<lparr>parent := Some a\<rparr>));
     t6 \<leftarrow> relink_parent t5 (parent n) a r;
     t7 \<leftarrow> update_height t6 a;
     update_height t7 r }"

definition rebalance ::
  "('k, 'v) binary_search_tree \<Rightarrow> nat \<Rightarrow> ('k, 'v) binary_search_tree option" where
  "rebalance t a = do {
     t1 \<leftarrow> update_height t a;
     bal \<leftarrow> balance t1 a;
     n \<leftarrow> nodes t1 a;
     (if bal > 1 then do {
        t2 \<leftarrow> (case left n of None \<Rightarrow> Some t1
               | Some l \<Rightarrow> do { b \<leftarrow> balance t1 l; (if b < 0 then rotate_left t1 l else Some t1) });
        rotate_right t2 a }
      else if bal < -1 then do {
        t2 \<leftarrow> (case right n of None \<Rightarrow> Some t1
               | Some r \<Rightarrow> do { b \<leftarrow> balance t1 r; (if b > 0 then rotate_right t1 r else Some t1) });
        rotate_left t2 a }
      else Some t1) }"

section \<open>Insertion and removal\<close>

partial_function (option) node_replace :: "('k, 'v) binary_search_tree \<Rightarrow> nat \<Rightarrow> nat
    \<Rightarrow> ('k, 'v) binary_search_tree option" where
  "node_replace t this other = do {
     on \<leftarrow> nodes t other;
     t1 \<leftarrow> upd t this (\<lambda>m. m\<lparr>key := key on, value := value on\<rparr>);
     succ \<leftarrow> successor t1 other;
     (case succ of
        None \<Rightarrow> do {
          on1 \<leftarrow> nodes t1 other;
          t2 \<leftarrow> unlink t1 other;
          t3 \<leftarrow> delete_node t2 other;
          other_parent \<leftarrow> parent on1;
          rebalance t3 other_parent }
      | Some s \<Rightarrow> do {
          sn \<leftarrow> nodes t1 s;
          t2 \<leftarrow> node_replace t1 other s;
          succ_parent \<leftarrow> parent sn;
          rebalance t2 succ_parent }) }"

text \<open>A child of \<open>cur\<close> is added on one side; \<open>rebalance\<close> follows in the caller.\<close>

definition add_left :: "('k, 'v) binary_search_tree \<Rightarrow> nat \<Rightarrow> 'k \<Rightarrow> 'v
    \<Rightarrow> ('k, 'v) binary_search_tree option" where
  "add_left t cur k v =
     (let (x, t1) = new_node (t\<lparr>bst_size := bst_size t + 1\<rparr>) k v
      in do {
        t2 \<leftarrow> upd t1 cur (\<lambda>n. n\<lparr>left := Some x\<rparr>);
        upd t2 x (\<lambda>n. n\<lparr>parent := Some cur\<rparr>) })"

definition add_right :: "('k, 'v) binary_search_tree \<Rightarrow> nat \<Rightarrow> 'k \<Rightarrow> 'v
    \<Rightarrow> ('k, 'v) binary_search_tree option" where
  "add_right t cur k v =
     (let (x, t1) = new_node (t\<lparr>bst_size := bst_size t + 1\<rparr>) k v
      in do {
        t2 \<leftarrow> upd t1 cur (\<lambda>n. n\<lparr>right := Some x\<rparr>);
        upd t2 x (\<lambda>n. n\<lparr>parent := Some cur\<rparr>) })"

text \<open>\<open>add_rec\<close> returns the flag \<open>node_added\<close> with the tree.\<close>

partial_function (option) add_rec :: "('k::linorder, 'v) binary_search_tree \<Rightarrow> nat option \<Rightarrow> 'k \<Rightarrow> 'v
    \<Rightarrow> bool \<Rightarrow> (bool \<times> ('k, 'v) binary_search_tree) option" where
  "add_rec t cur k v added =
     (case root t of
        None \<Rightarrow>
          (case new_node (t\<lparr>bst_size := bst_size t + 1\<rparr>) k v of (x, t1) \<Rightarrow>
             do { t2 \<leftarrow> rebalance (t1\<lparr>root := Some x\<rparr>) x; Some (True, t2) })
      | Some _ \<Rightarrow> do {
          c \<leftarrow> cur;
          n \<leftarrow> nodes t c;
          (if key n > k then do {
             (added', t1) \<leftarrow> (case left n of
                 Some l \<Rightarrow> add_rec t (Some l) k v added
               | None \<Rightarrow> do { t1 \<leftarrow> add_left t c k v; Some (True, t1) });
             t2 \<leftarrow> rebalance t1 c; Some (added', t2) }
           else if key n < k then do {
             (added', t1) \<leftarrow> (case right n of
                 Some r \<Rightarrow> add_rec t (Some r) k v added
               | None \<Rightarrow> do { t1 \<leftarrow> add_right t c k v; Some (True, t1) });
             t2 \<leftarrow> rebalance t1 c; Some (added', t2) }
           else if added then Some (added, t)
           else do {
             (added', t1) \<leftarrow> (case right n of
                 Some r \<Rightarrow> add_rec t (Some r) k v added
               | None \<Rightarrow> do { t1 \<leftarrow> add_right t c k v; Some (True, t1) });
             t2 \<leftarrow> rebalance t1 c; Some (added', t2) }) })"

definition bst_insert :: "('k::linorder, 'v) binary_search_tree \<Rightarrow> 'k \<Rightarrow> 'v
    \<Rightarrow> ('k, 'v) binary_search_tree option" where
  "bst_insert t k v = map_option snd (add_rec t (root t) k v False)"

partial_function (option) remove_rec :: "('k::linorder, 'v) binary_search_tree \<Rightarrow> nat option \<Rightarrow> 'k
    \<Rightarrow> ('k, 'v) binary_search_tree option" where
  "remove_rec t cur k =
     (case cur of
        None \<Rightarrow> Some t
      | Some c \<Rightarrow> do {
          n \<leftarrow> nodes t c;
          (if key n > k then do { t1 \<leftarrow> remove_rec t (left n) k; rebalance t1 c }
           else if key n < k then do { t1 \<leftarrow> remove_rec t (right n) k; rebalance t1 c }
           else do {
             succ \<leftarrow> successor t c;
             (case succ of
                None \<Rightarrow> do {
                  let t1 = (if root t = Some c then t\<lparr>root := None\<rparr> else t);
                  t2 \<leftarrow> unlink t1 c;
                  t3 \<leftarrow> delete_node t2 c;
                  t4 \<leftarrow> (case parent n of None \<Rightarrow> Some t3 | Some p \<Rightarrow> rebalance t3 p);
                  Some (t4\<lparr>bst_size := bst_size t4 - 1\<rparr>) }
              | Some s \<Rightarrow> do {
                  sn \<leftarrow> nodes t s;
                  t1 \<leftarrow> node_replace t c s;
                  succ_parent \<leftarrow> parent sn;
                  t2 \<leftarrow> rebalance t1 succ_parent;
                  rebalance (t2\<lparr>bst_size := bst_size t2 - 1\<rparr>) c }) }) })"

definition bst_remove :: "('k::linorder, 'v) binary_search_tree \<Rightarrow> 'k
    \<Rightarrow> ('k, 'v) binary_search_tree option" where
  "bst_remove t k = remove_rec t (root t) k"

text \<open>\<open>clear_rec\<close> frees the children before the node.\<close>

partial_function (option) clear_rec :: "('k, 'v) binary_search_tree \<Rightarrow> nat option
    \<Rightarrow> ('k, 'v) binary_search_tree option" where
  "clear_rec t cur = do {
     c \<leftarrow> cur;
     n \<leftarrow> nodes t c;
     t1 \<leftarrow> (if left n \<noteq> None \<and> right n \<noteq> None
            then do { t1 \<leftarrow> clear_rec t (left n); clear_rec t1 (right n) }
            else if left n \<noteq> None then clear_rec t (left n)
            else if right n \<noteq> None then clear_rec t (right n)
            else Some t);
     delete_node t1 c }"

definition bst_clear :: "('k, 'v) binary_search_tree \<Rightarrow> ('k, 'v) binary_search_tree option" where
  "bst_clear t = do { t1 \<leftarrow> clear_rec t (root t); Some (t1\<lparr>root := None, bst_size := 0\<rparr>) }"

section \<open>Lookup\<close>

partial_function (option) search_from :: "('k::linorder, 'v) binary_search_tree \<Rightarrow> nat \<Rightarrow> 'k \<Rightarrow> nat option"
  where
  "search_from t cur k = do {
     n \<leftarrow> nodes t cur;
     (if key n > k then (case left n of None \<Rightarrow> Some cur | Some l \<Rightarrow> search_from t l k)
      else if key n < k then (case right n of None \<Rightarrow> Some cur | Some r \<Rightarrow> search_from t r k)
      else Some cur) }"

definition search_rec :: "('k::linorder, 'v) binary_search_tree \<Rightarrow> 'k \<Rightarrow> nat option option" where
  "search_rec t k = (case root t of None \<Rightarrow> Some None | Some c \<Rightarrow> map_option Some (search_from t c k))"

definition root_value :: "('k, 'v) binary_search_tree \<Rightarrow> 'v option" where
  "root_value t = do { r \<leftarrow> root t; n \<leftarrow> nodes t r; Some (value n) }"

definition bst_get :: "('k::linorder, 'v) binary_search_tree \<Rightarrow> 'k \<Rightarrow> 'v option" where
  "bst_get t k = do {
     r \<leftarrow> search_rec t k;
     (case r of None \<Rightarrow> root_value t
      | Some a \<Rightarrow> do { n \<leftarrow> nodes t a; (if key n \<noteq> k then root_value t else Some (value n)) }) }"

definition bst_search :: "('k::linorder, 'v) binary_search_tree \<Rightarrow> 'k \<Rightarrow> 'v option" where
  "bst_search t k = do {
     r \<leftarrow> search_rec t k;
     (case r of None \<Rightarrow> root_value t | Some a \<Rightarrow> do { n \<leftarrow> nodes t a; Some (value n) }) }"

definition bst_contains :: "('k::linorder, 'v) binary_search_tree \<Rightarrow> 'k \<Rightarrow> bool option" where
  "bst_contains t k = do {
     r \<leftarrow> search_rec t k;
     (case r of None \<Rightarrow> Some False | Some a \<Rightarrow> do { n \<leftarrow> nodes t a; Some (key n = k) }) }"

definition peek_min :: "('k, 'v) binary_search_tree \<Rightarrow> 'v option" where
  "peek_min t = do { r \<leftarrow> root t; a \<leftarrow> leftmost t r; n \<leftarrow> nodes t a; Some (value n) }"

definition peek_max :: "('k, 'v) binary_search_tree \<Rightarrow> 'v option" where
  "peek_max t = do { r \<leftarrow> root t; a \<leftarrow> rightmost t r; n \<leftarrow> nodes t a; Some (value n) }"

text \<open>\<open>pop_min\<close> and \<open>pop_max\<close> return a reference into the node they then remove; the value the
  caller sees is what the store holds at that address after the removal.\<close>

definition pop_min :: "('k::linorder, 'v) binary_search_tree \<Rightarrow> ('v option \<times> ('k, 'v) binary_search_tree) option"
  where
  "pop_min t = do {
     r \<leftarrow> root t; a \<leftarrow> leftmost t r; n \<leftarrow> nodes t a;
     t' \<leftarrow> remove_rec t (root t) (key n);
     Some (map_option value (nodes t' a), t') }"

definition pop_max :: "('k::linorder, 'v) binary_search_tree \<Rightarrow> ('v option \<times> ('k, 'v) binary_search_tree) option"
  where
  "pop_max t = do {
     r \<leftarrow> root t; a \<leftarrow> rightmost t r; n \<leftarrow> nodes t a;
     t' \<leftarrow> remove_rec t (root t) (key n);
     Some (map_option value (nodes t' a), t') }"

section \<open>Iterators\<close>

text \<open>An iterator is the pointer \<open>p\<close>; \<open>end\<close> is the null pointer.\<close>

definition bst_begin :: "('k, 'v) binary_search_tree \<Rightarrow> nat option option" where
  "bst_begin t = (case root t of None \<Rightarrow> Some None | Some r \<Rightarrow> map_option Some (leftmost t r))"

partial_function (option) climb :: "('k, 'v) binary_search_tree \<Rightarrow> nat \<Rightarrow> nat option option" where
  "climb t p = do {
     n \<leftarrow> nodes t p;
     (case parent n of
        None \<Rightarrow> Some None
      | Some q \<Rightarrow> do {
          qn \<leftarrow> nodes t q;
          (if left qn = Some p then Some (Some q) else climb t q) }) }"

definition iter_next :: "('k, 'v) binary_search_tree \<Rightarrow> nat \<Rightarrow> nat option option" where
  "iter_next t p = do {
     n \<leftarrow> nodes t p;
     (case right n of
        Some r \<Rightarrow> map_option Some (leftmost t r)
      | None \<Rightarrow> climb t p) }"

definition iter_deref :: "('k, 'v) binary_search_tree \<Rightarrow> nat option \<Rightarrow> 'k option" where
  "iter_deref t p = do { a \<leftarrow> p; n \<leftarrow> nodes t a; Some (key n) }"

text \<open>The equations of the partial functions evaluate.\<close>

declare leftmost.simps [code] rightmost.simps [code] node_replace.simps [code] add_rec.simps [code]
  remove_rec.simps [code] clear_rec.simps [code] search_from.simps [code] climb.simps [code]

end
