(* ===== verification/Bst_Correct.thy ===== *)
theory Bst_Correct
  imports Bst
begin

text \<open>
  Correctness of the search tree. A tree of addresses \<open>T\<close> represents the store; a context \<open>C\<close>
  around a subtree makes every operation local to the subtree it works on. Whatever the stored
  heights are, rotations keep the sequence of addresses in symmetric order, so that insertion
  and removal act on the sorted list of entries.
\<close>

section \<open>Trees of addresses\<close>

datatype atree = Lf | Nd atree nat atree

fun ino :: "atree \<Rightarrow> nat list" where
  "ino Lf = []"
| "ino (Nd l a r) = ino l @ a # ino r"

fun rep :: "(nat \<Rightarrow> ('k, 'v) node option) \<Rightarrow> nat option \<Rightarrow> nat option \<Rightarrow> atree \<Rightarrow> bool" where
  "rep s q x Lf \<longleftrightarrow> x = None"
| "rep s q x (Nd l a r) \<longleftrightarrow> x = Some a \<and> (\<exists>n. s a = Some n \<and> parent n = q
     \<and> rep s (Some a) (left n) l \<and> rep s (Some a) (right n) r)"

datatype ctx = Hole | CL ctx nat atree | CR ctx atree nat

fun plug :: "ctx \<Rightarrow> atree \<Rightarrow> atree" where
  "plug Hole S = S"
| "plug (CL C a R) S = plug C (Nd S a R)"
| "plug (CR C L a) S = plug C (Nd L a S)"

fun pre :: "ctx \<Rightarrow> nat list" where
  "pre Hole = []"
| "pre (CL C a R) = pre C"
| "pre (CR C L a) = pre C @ ino L @ [a]"

fun post :: "ctx \<Rightarrow> nat list" where
  "post Hole = []"
| "post (CL C a R) = a # ino R @ post C"
| "post (CR C L a) = post C"

text \<open>\<open>rep_ctx s x C q y\<close>: the context hangs off the root pointer \<open>x\<close>, and the hole is the pointer \<open>y\<close>
  whose target has parent \<open>q\<close>.\<close>

fun rep_ctx :: "(nat \<Rightarrow> ('k, 'v) node option) \<Rightarrow> nat option \<Rightarrow> ctx \<Rightarrow> nat option \<Rightarrow> nat option \<Rightarrow> bool" where
  "rep_ctx s x Hole q y \<longleftrightarrow> q = None \<and> y = x"
| "rep_ctx s x (CL C a R) q y \<longleftrightarrow> q = Some a \<and> (\<exists>n. s a = Some n \<and> left n = y
     \<and> rep s (Some a) (right n) R \<and> rep_ctx s x C (parent n) (Some a))"
| "rep_ctx s x (CR C L a) q y \<longleftrightarrow> q = Some a \<and> (\<exists>n. s a = Some n \<and> right n = y
     \<and> rep s (Some a) (left n) L \<and> rep_ctx s x C (parent n) (Some a))"

lemma ino_plug: "ino (plug C S) = pre C @ ino S @ post C"
  by (induction C arbitrary: S) auto

lemma rep_plug: "rep s None x (plug C S) \<longleftrightarrow> (\<exists>q y. rep_ctx s x C q y \<and> rep s q y S)"
proof (induction C arbitrary: S)
  case (CL C a R)
  show ?case unfolding plug.simps CL.IH by auto
next
  case (CR C L a)
  show ?case unfolding plug.simps CR.IH by auto
qed auto

definition keep_node :: "(nat \<Rightarrow> ('k, 'v) node option) \<Rightarrow> (nat \<Rightarrow> ('k, 'v) node option) \<Rightarrow> nat \<Rightarrow> bool" where
  "keep_node s s' a \<longleftrightarrow> (\<forall>n. s a = Some n \<longrightarrow> (\<exists>n'. s' a = Some n' \<and> parent n' = parent n
     \<and> left n' = left n \<and> right n' = right n))"

lemma rep_cong:
  "rep s q x T \<Longrightarrow> (\<And>a. a \<in> set (ino T) \<Longrightarrow> keep_node s s' a) \<Longrightarrow> rep s' q x T"
proof (induction T arbitrary: q x)
  case (Nd l a r)
  obtain n where n: "s a = Some n" "x = Some a" "parent n = q" "rep s (Some a) (left n) l" "rep s (Some a) (right n) r"
    using Nd.prems(1) by auto
  have "keep_node s s' a" using Nd.prems(2) by simp
  then obtain n' where n': "s' a = Some n'" "parent n' = parent n" "left n' = left n" "right n' = right n"
    using n(1) by (auto simp: keep_node_def)
  have "rep s' (Some a) (left n) l" "rep s' (Some a) (right n) r"
    using Nd.IH n(4,5) Nd.prems(2) by auto
  then show ?case using n n' by auto
qed auto

lemma rep_ctx_cong:
  "rep_ctx s x C q y \<Longrightarrow> (\<And>a. a \<in> set (pre C) \<union> set (post C) \<Longrightarrow> keep_node s s' a) \<Longrightarrow> rep_ctx s' x C q y"
proof (induction C arbitrary: q y)
  case (CL C a R)
  obtain n where n: "s a = Some n" "q = Some a" "left n = y" "rep s (Some a) (right n) R"
    "rep_ctx s x C (parent n) (Some a)" using CL.prems(1) by auto
  have "keep_node s s' a" using CL.prems(2) by simp
  then obtain n' where n': "s' a = Some n'" "parent n' = parent n" "left n' = left n" "right n' = right n"
    using n(1) by (auto simp: keep_node_def)
  have "rep s' (Some a) (right n) R" using rep_cong[OF n(4)] CL.prems(2) by auto
  moreover have "rep_ctx s' x C (parent n) (Some a)" using CL.IH[OF n(5)] CL.prems(2) by auto
  ultimately show ?case using n n' by auto
next
  case (CR C L a)
  obtain n where n: "s a = Some n" "q = Some a" "right n = y" "rep s (Some a) (left n) L"
    "rep_ctx s x C (parent n) (Some a)" using CR.prems(1) by auto
  have "keep_node s s' a" using CR.prems(2) by simp
  then obtain n' where n': "s' a = Some n'" "parent n' = parent n" "left n' = left n" "right n' = right n"
    using n(1) by (auto simp: keep_node_def)
  have "rep s' (Some a) (left n) L" using rep_cong[OF n(4)] CR.prems(2) by auto
  moreover have "rep_ctx s' x C (parent n) (Some a)" using CR.IH[OF n(5)] CR.prems(2) by auto
  ultimately show ?case using n n' by auto
qed auto

fun under :: "ctx \<Rightarrow> ctx \<Rightarrow> ctx" where
  "under D Hole = D"
| "under D (CL C a R) = CL (under D C) a R"
| "under D (CR C L a) = CR (under D C) L a"

lemma plug_under: "plug (under D C) S = plug D (plug C S)"
  by (induction C arbitrary: S) simp_all

lemma plug_under_left: "\<exists>D. \<forall>S. plug D S = Nd (plug C S) b r"
  by (rule exI[of _ "under (CL Hole b r) C"]) (simp add: plug_under)

lemma plug_under_right: "\<exists>D. \<forall>S. plug D S = Nd l b (plug C S)"
  by (rule exI[of _ "under (CR Hole l b) C"]) (simp add: plug_under)

lemma focus: "a \<in> set (ino T) \<Longrightarrow> \<exists>C l r. T = plug C (Nd l a r)"
proof (induction T)
  case (Nd l b r)
  consider "a = b" | "a \<in> set (ino l)" | "a \<in> set (ino r)" using Nd.prems by auto
  then show ?case
  proof cases
    case 1
    then show ?thesis by (metis plug.simps(1))
  next
    case 2
    then obtain C l' r' where "l = plug C (Nd l' a r')" using Nd.IH(1) by blast
    moreover have "\<exists>D. \<forall>S. plug D S = Nd (plug C S) b r" by (rule plug_under_left)
    ultimately show ?thesis by metis
  next
    case 3
    then obtain C l' r' where "r = plug C (Nd l' a r')" using Nd.IH(2) by blast
    moreover have "\<exists>D. \<forall>S. plug D S = Nd l b (plug C S)" by (rule plug_under_right)
    ultimately show ?thesis by metis
  qed
qed simp

section \<open>The invariant of the store\<close>

definition bst_ok :: "('k, 'v) binary_search_tree \<Rightarrow> atree \<Rightarrow> bool" where
  "bst_ok t T \<longleftrightarrow> rep (nodes t) None (root t) T \<and> distinct (ino T)
     \<and> (\<forall>a. nodes t a \<noteq> None \<longleftrightarrow> a \<in> set (ino T)) \<and> (\<forall>a \<in> set (ino T). a < next_addr t)
     \<and> (\<forall>a n. nodes t a = Some n \<longrightarrow> 0 < height n)"

definition kv :: "('k, 'v) binary_search_tree \<Rightarrow> nat \<Rightarrow> 'k \<times> 'v" where
  "kv t a = (key (the (nodes t a)), value (the (nodes t a)))"

text \<open>What rotations leave alone.\<close>

definition same_kv :: "('k, 'v) binary_search_tree \<Rightarrow> ('k, 'v) binary_search_tree \<Rightarrow> bool" where
  "same_kv t t' \<longleftrightarrow> bst_size t' = bst_size t \<and> next_addr t' = next_addr t
     \<and> (\<forall>a. map_option (\<lambda>n. (key n, value n)) (nodes t' a) = map_option (\<lambda>n. (key n, value n)) (nodes t a))"

lemma same_kv_refl [simp]: "same_kv t t" by (simp add: same_kv_def)

lemma same_kv_trans [trans]: "same_kv t u \<Longrightarrow> same_kv u w \<Longrightarrow> same_kv t w" by (simp add: same_kv_def)

lemma same_kvD:
  assumes "same_kv t t'"
  shows "bst_size t' = bst_size t" "next_addr t' = next_addr t" "nodes t' a = None \<longleftrightarrow> nodes t a = None"
proof -
  show "bst_size t' = bst_size t" "next_addr t' = next_addr t" using assms by (simp_all add: same_kv_def)
  have "map_option (\<lambda>n. (key n, value n)) (nodes t' a) = map_option (\<lambda>n. (key n, value n)) (nodes t a)"
    using assms by (simp add: same_kv_def)
  then show "nodes t' a = None \<longleftrightarrow> nodes t a = None" by (cases "nodes t' a"; cases "nodes t a") simp_all
qed

lemma same_kv_kv: "same_kv t t' \<Longrightarrow> nodes t a \<noteq> None \<Longrightarrow> kv t' a = kv t a"
proof -
  assume "same_kv t t'" "nodes t a \<noteq> None"
  moreover from this have "map_option (\<lambda>n. (key n, value n)) (nodes t' a) = map_option (\<lambda>n. (key n, value n)) (nodes t a)"
    by (simp add: same_kv_def)
  ultimately show ?thesis by (cases "nodes t' a"; cases "nodes t a") (simp_all add: kv_def)
qed

lemma bst_okD:
  assumes "bst_ok t T"
  shows "rep (nodes t) None (root t) T" "distinct (ino T)" "nodes t a \<noteq> None \<longleftrightarrow> a \<in> set (ino T)"
    "a \<in> set (ino T) \<Longrightarrow> a < next_addr t" "nodes t a = Some n \<Longrightarrow> 0 < height n"
  using assms by (auto simp: bst_ok_def)

lemma upd_Some: "nodes t a = Some n \<Longrightarrow> upd t a f = Some (t\<lparr>nodes := (nodes t)(a := Some (f n))\<rparr>)"
  by (simp add: upd_def)

text \<open>Changing only heights.\<close>

lemma bst_ok_height:
  assumes ok: "bst_ok t T" and n: "nodes t a = Some n" and h: "0 < h"
  defines "t' \<equiv> t\<lparr>nodes := (nodes t)(a := Some (n\<lparr>height := h\<rparr>))\<rparr>"
  shows "bst_ok t' T" "same_kv t t'"
proof -
  have "rep (nodes t') None (root t) T"
    by (rule rep_cong[OF bst_okD(1)[OF ok]]) (auto simp: t'_def keep_node_def n)
  moreover have "nodes t' x \<noteq> None \<longleftrightarrow> x \<in> set (ino T)" for x
    using bst_okD(3)[OF ok, of x] n by (auto simp: t'_def)
  ultimately show "bst_ok t' T"
    using ok h unfolding bst_ok_def by (auto simp: t'_def)
  show "same_kv t t'" using n by (simp add: same_kv_def t'_def)
qed

lemma child_in:
  assumes "bst_ok t T" "nodes t a = Some n" "left n = Some x \<or> right n = Some x"
  shows "\<exists>m. nodes t x = Some m"
proof -
  have "a \<in> set (ino T)" using bst_okD(3)[OF assms(1), of a] assms(2) by simp
  then obtain C l r where T: "T = plug C (Nd l a r)" using focus by blast
  then obtain q y where "rep (nodes t) q y (Nd l a r)" using bst_okD(1)[OF assms(1)] rep_plug by metis
  then have "rep (nodes t) (Some a) (left n) l" "rep (nodes t) (Some a) (right n) r" using assms(2) by auto
  then show ?thesis using assms(3) by (cases l; cases r) auto
qed

lemma update_height_correct:
  assumes ok: "bst_ok t T" and a: "a \<in> set (ino T)"
  shows "\<exists>t'. update_height t a = Some t' \<and> bst_ok t' T \<and> same_kv t t'"
proof -
  obtain n where n: "nodes t a = Some n" using bst_okD(3)[OF ok, of a] a by blast
  have "\<exists>h > 0. update_height t a = upd t a (\<lambda>n. n\<lparr>height := h\<rparr>)"
  proof (cases "left n")
    case None
    then show ?thesis
    proof (cases "right n")
      case (Some r)
      then obtain m where m: "nodes t r = Some m" using child_in[OF ok n] by blast
      then show ?thesis using None Some n bst_okD(5)[OF ok m]
        by (intro exI[of _ "1 + height m"]) (simp add: update_height_def)
    next
      case None
      then show ?thesis using n \<open>left n = None\<close> by (intro exI[of _ 1]) (simp add: update_height_def)
    qed
  next
    case (Some l)
    then obtain m where m: "nodes t l = Some m" using child_in[OF ok n] by blast
    show ?thesis
    proof (cases "right n")
      case None
      then show ?thesis using Some m n bst_okD(5)[OF ok m]
        by (intro exI[of _ "1 + height m"]) (simp add: update_height_def)
    next
      case (Some r)
      then obtain k where k: "nodes t r = Some k" using child_in[OF ok n] by blast
      then show ?thesis using Some \<open>left n = Some l\<close> m n bst_okD(5)[OF ok m]
        by (intro exI[of _ "1 + max (height m) (height k)"]) (simp add: update_height_def)
    qed
  qed
  then obtain h where "0 < h" "update_height t a = upd t a (\<lambda>n. n\<lparr>height := h\<rparr>)" by blast
  then show ?thesis using bst_ok_height[OF ok n] upd_Some[OF n] by auto
qed

lemma balance_correct:
  assumes ok: "bst_ok t T" and n: "nodes t a = Some n"
  shows "\<exists>b. balance t a = Some b \<and> (0 < b \<longrightarrow> left n \<noteq> None) \<and> (b < 0 \<longrightarrow> right n \<noteq> None)"
proof (cases "left n")
  case None
  then show ?thesis
  proof (cases "right n")
    case (Some r)
    then obtain m where m: "nodes t r = Some m" using child_in[OF ok n] by blast
    then show ?thesis using None Some n bst_okD(5)[OF ok m] by (simp add: balance_def)
  qed (use n None in \<open>simp add: balance_def\<close>)
next
  case (Some l)
  then obtain m where m: "nodes t l = Some m" using child_in[OF ok n] by blast
  show ?thesis
  proof (cases "right n")
    case None
    then show ?thesis using Some m n bst_okD(5)[OF ok m] by (simp add: balance_def)
  next
    case (Some r)
    then obtain k where k: "nodes t r = Some k" using child_in[OF ok n] by blast
    then show ?thesis using Some \<open>left n = Some l\<close> m n by (simp add: balance_def)
  qed
qed

section \<open>Replacing a subtree\<close>

fun set_hole :: "(nat \<Rightarrow> ('k, 'v) node option) \<Rightarrow> nat option \<Rightarrow> ctx \<Rightarrow> nat option
    \<Rightarrow> (nat \<Rightarrow> ('k, 'v) node option) \<times> nat option" where
  "set_hole s x Hole z = (s, z)"
| "set_hole s x (CL C a R) z = (s(a := Some ((the (s a))\<lparr>left := z\<rparr>)), x)"
| "set_hole s x (CR C L a) z = (s(a := Some ((the (s a))\<lparr>right := z\<rparr>)), x)"

lemma keep_node_same [simp]: "s' a = s a \<Longrightarrow> keep_node s s' a"
  by (simp add: keep_node_def)

lemma keep_node_upd [intro!]: "a \<noteq> b \<Longrightarrow> keep_node s (s(a := v)) b"
  by simp

lemma rep_ctx_set_hole:
  assumes "rep_ctx s x C q y" "distinct (pre C @ post C)"
  shows "rep_ctx (fst (set_hole s x C z)) (snd (set_hole s x C z)) C q z"
proof (cases C)
  case (CL D a R)
  let ?s = "s(a := Some ((the (s a))\<lparr>left := z\<rparr>))"
  obtain n where n: "s a = Some n" "q = Some a" "rep s (Some a) (right n) R" "rep_ctx s x D (parent n) (Some a)"
    using assms(1) CL by auto
  have "rep ?s (Some a) (right n) R" by (rule rep_cong[OF n(3)]) (use assms(2) CL in auto)
  moreover have "rep_ctx ?s x D (parent n) (Some a)"
    by (rule rep_ctx_cong[OF n(4)]) (use assms(2) CL in auto)
  ultimately show ?thesis using CL n by simp
next
  case (CR D L a)
  let ?s = "s(a := Some ((the (s a))\<lparr>right := z\<rparr>))"
  obtain n where n: "s a = Some n" "q = Some a" "rep s (Some a) (left n) L" "rep_ctx s x D (parent n) (Some a)"
    using assms(1) CR by auto
  have "rep ?s (Some a) (left n) L" by (rule rep_cong[OF n(3)]) (use assms(2) CR in auto)
  moreover have "rep_ctx ?s x D (parent n) (Some a)"
    by (rule rep_ctx_cong[OF n(4)]) (use assms(2) CR in auto)
  ultimately show ?thesis using CR n by simp
qed (use assms in simp)

lemma set_hole_outside: "b \<notin> set (pre C) \<union> set (post C) \<Longrightarrow> fst (set_hole s x C z) b = s b"
  by (cases C) auto

lemma set_hole_info:
  assumes "rep_ctx s x C q y"
  shows "map_option (\<lambda>n. (key n, value n)) (fst (set_hole s x C z) a) = map_option (\<lambda>n. (key n, value n)) (s a)"
    "map_option height (fst (set_hole s x C z) a) = map_option height (s a)"
  using assms by (cases C; auto)+

lemma rep_swap:
  assumes "rep_ctx s x C q y" "\<And>a. a \<in> set (pre C) \<union> set (post C) \<Longrightarrow> s' a = s a"
    "rep s' q z S" "distinct (pre C @ ino S @ post C)"
  shows "rep (fst (set_hole s' x C z)) None (snd (set_hole s' x C z)) (plug C S)" "rep_ctx s' x C q y"
proof -
  show c: "rep_ctx s' x C q y" by (rule rep_ctx_cong[OF assms(1)]) (use assms(2) in simp)
  have d: "distinct (pre C @ post C)" using assms(4) by auto
  have "rep (fst (set_hole s' x C z)) q z S"
  proof (rule rep_cong[OF assms(3)])
    fix a assume "a \<in> set (ino S)"
    then have "a \<notin> set (pre C) \<union> set (post C)" using assms(4) by auto
    then show "keep_node s' (fst (set_hole s' x C z)) a" by (simp add: set_hole_outside)
  qed
  then show "rep (fst (set_hole s' x C z)) None (snd (set_hole s' x C z)) (plug C S)"
    using rep_ctx_set_hole[OF c d] rep_plug by blast
qed

lemma rep_root: "rep s q (Some a) T \<Longrightarrow> a \<in> set (ino T)"
  by (cases T) auto

lemma relink_parent_hole:
  assumes "rep_ctx (nodes t) (root t) C q (Some a)" "a \<notin> set (pre C) \<union> set (post C)"
  shows "relink_parent t q a b = Some (t\<lparr>nodes := fst (set_hole (nodes t) (root t) C (Some b)),
      root := snd (set_hole (nodes t) (root t) C (Some b))\<rparr>)"
proof (cases C)
  case (CL D p R)
  then show ?thesis using assms by (auto simp: relink_parent_def upd_def)
next
  case (CR D L p)
  then obtain n where n: "nodes t p = Some n" "q = Some p" "rep (nodes t) (Some p) (left n) L"
    using assms(1) by auto
  have "left n \<noteq> Some a" using rep_root[of "nodes t" "Some p" a L] n(3) assms(2) CR by auto
  then show ?thesis using CR n by (simp add: relink_parent_def upd_def)
qed (use assms in \<open>simp add: relink_parent_def\<close>)

text \<open>The store after a subtree has been exchanged for another with the same addresses.\<close>

lemma bst_ok_swap:
  assumes ok: "bst_ok t (plug C S)" and c: "rep_ctx (nodes t) (root t) C q y"
    and out: "\<And>a. a \<in> set (pre C) \<union> set (post C) \<Longrightarrow> s' a = nodes t a"
    and S': "rep s' q z S'" "ino S' = ino S"
    and info: "\<And>a. map_option (\<lambda>n. (key n, value n, height n)) (s' a)
      = map_option (\<lambda>n. (key n, value n, height n)) (nodes t a)"
  defines "t' \<equiv> t\<lparr>nodes := fst (set_hole s' (root t) C z), root := snd (set_hole s' (root t) C z)\<rparr>"
  shows "bst_ok t' (plug C S')" "same_kv t t'"
proof -
  have d: "distinct (pre C @ ino S @ post C)" using bst_okD(2)[OF ok] by (simp add: ino_plug)
  note r = rep_swap[OF c out S'(1), unfolded S'(2), OF _ d]
  have ino: "ino (plug C S') = ino (plug C S)" by (simp add: ino_plug S'(2))
  have i: "map_option (\<lambda>n. (key n, value n)) (nodes t' a) = map_option (\<lambda>n. (key n, value n)) (nodes t a)"
    "map_option height (nodes t' a) = map_option height (nodes t a)" for a
  proof -
    have "map_option fst2 (map_option (\<lambda>n. (key n, value n, height n)) (s' a))
      = map_option fst2 (map_option (\<lambda>n. (key n, value n, height n)) (nodes t a))" for fst2 :: "_ \<Rightarrow> 'a \<times> 'b"
      by (simp only: info)
    from this[of "\<lambda>(k, v, h). (k, v)"]
    show "map_option (\<lambda>n. (key n, value n)) (nodes t' a) = map_option (\<lambda>n. (key n, value n)) (nodes t a)"
      using set_hole_info(1)[OF r(2)] by (simp add: t'_def option.map_comp comp_def)
    have "map_option h (map_option (\<lambda>n. (key n, value n, height n)) (s' a))
      = map_option h (map_option (\<lambda>n. (key n, value n, height n)) (nodes t a))" for h :: "_ \<Rightarrow> int"
      by (simp only: info)
    from this[of "\<lambda>(k, v, h). h"] show "map_option height (nodes t' a) = map_option height (nodes t a)"
      using set_hole_info(2)[OF r(2)] by (simp add: t'_def option.map_comp comp_def)
  qed
  show "same_kv t t'" using i(1) by (simp add: same_kv_def t'_def)
  have dom: "nodes t' a \<noteq> None \<longleftrightarrow> nodes t a \<noteq> None" for a using i(2)[of a] by (metis map_option_is_None)
  have h: "0 < height n" if an: "nodes t' a = Some n" for a n
  proof -
    obtain m where "nodes t a = Some m" "height m = height n"
      using i(2)[of a] unfolding an by (cases "nodes t a") auto
    then show ?thesis using bst_okD(5)[OF ok] by metis
  qed
  have "rep (nodes t') None (root t') (plug C S')" using r(1) by (simp add: t'_def)
  then show "bst_ok t' (plug C S')"
    using ok dom h unfolding bst_ok_def ino by (simp add: t'_def)
qed

section \<open>Rotations\<close>

lemma rep_reparent:
  assumes "rep s q x T" "distinct (ino T)"
  shows "rep (case x of None \<Rightarrow> s | Some c \<Rightarrow> s(c := Some ((the (s c))\<lparr>parent := q'\<rparr>))) q' x T"
proof (cases T)
  case (Nd l a r)
  let ?s = "s(a := Some ((the (s a))\<lparr>parent := q'\<rparr>))"
  obtain n where n: "s a = Some n" "x = Some a" "rep s (Some a) (left n) l" "rep s (Some a) (right n) r"
    using assms(1) Nd by auto
  have "rep ?s (Some a) (left n) l" by (rule rep_cong[OF n(3)]) (use assms(2) Nd in auto)
  moreover have "rep ?s (Some a) (right n) r" by (rule rep_cong[OF n(4)]) (use assms(2) Nd in auto)
  ultimately show ?thesis using n Nd by simp
qed (use assms in auto)

lemma rotate_right_correct:
  assumes ok: "bst_ok t (plug C (Nd (Nd A b B) a D))"
  shows "\<exists>t'. rotate_right t a = Some t' \<and> bst_ok t' (plug C (Nd A b (Nd B a D))) \<and> same_kv t t'"
proof -
  let ?s = "nodes t"
  obtain q y where c: "rep_ctx ?s (root t) C q y" "rep ?s q y (Nd (Nd A b B) a D)"
    using bst_okD(1)[OF ok] rep_plug by blast
  obtain na nb where n: "y = Some a" "?s a = Some na" "parent na = q" "left na = Some b" "?s b = Some nb"
    "parent nb = Some a" "rep ?s (Some b) (left nb) A" "rep ?s (Some b) (right nb) B" "rep ?s (Some a) (right na) D"
    using c(2) by auto
  have d: "distinct (pre C @ ino (Nd (Nd A b B) a D) @ post C)" using bst_okD(2)[OF ok] by (simp add: ino_plug)
  have ab: "a \<noteq> b" using d by auto
  define nb' where "nb' = nb\<lparr>right := Some a, parent := q\<rparr>"
  define na' where "na' = na\<lparr>left := right nb, parent := Some b\<rparr>"
  define s0 where "s0 = ?s(b := Some nb', a := Some na')"
  define s5 where "s5 = (case right nb of None \<Rightarrow> s0 | Some c \<Rightarrow> s0(c := Some ((the (s0 c))\<lparr>parent := Some a\<rparr>)))"
  have cB: "c \<in> set (ino B) \<and> (\<exists>m. ?s c = Some m)" if "right nb = Some c" for c
    using n(8) that by (cases B) auto
  have s5out: "s5 x = ?s x" if "x \<notin> set (ino B)" "x \<noteq> a" "x \<noteq> b" for x
    using that cB by (auto simp: s5_def s0_def split: option.splits)
  have s5ab: "s5 a = Some na'" "s5 b = Some nb'" using d cB ab by (auto simp: s5_def s0_def split: option.splits)
  have keepB: "rep s0 (Some b) (right nb) B" 
    by (rule rep_cong[OF n(8)], rule keep_node_same) (use d in \<open>auto simp: s0_def\<close>)
  have repB: "rep s5 (Some a) (right nb) B"
    unfolding s5_def by (rule rep_reparent[OF keepB]) (use d in auto)
  have repA: "rep s5 (Some b) (left nb) A"
    by (rule rep_cong[OF n(7)], rule keep_node_same, rule s5out) (use d in auto)
  have repD: "rep s5 (Some a) (right na) D"
    by (rule rep_cong[OF n(9)], rule keep_node_same, rule s5out) (use d in auto)
  have new: "rep s5 q (Some b) (Nd A b (Nd B a D))"
    using repA repB repD s5ab by (simp add: na'_def nb'_def)
  have out: "s5 x = ?s x" if "x \<in> set (pre C) \<union> set (post C)" for x
    by (rule s5out) (use that d in auto)
  have info: "map_option (\<lambda>n. (key n, value n, height n)) (s5 x) = map_option (\<lambda>n. (key n, value n, height n)) (?s x)" for x
    using n(2,5) cB by (auto simp: s5_def s0_def na'_def nb'_def split: option.splits)
  note w = bst_ok_swap[OF ok c(1) out new _ info]
  let ?t6 = "t\<lparr>nodes := fst (set_hole s5 (root t) C (Some b)), root := snd (set_hole s5 (root t) C (Some b))\<rparr>"
  have t6: "bst_ok ?t6 (plug C (Nd A b (Nd B a D)))" "same_kv t ?t6" using w by simp_all
  have c5: "rep_ctx s5 (root t) C q (Some a)" using rep_ctx_cong[OF c(1)] out n(1) by simp
  have rl: "relink_parent (t\<lparr>nodes := s5\<rparr>) q a b = Some ?t6"
    using relink_parent_hole[of "t\<lparr>nodes := s5\<rparr>" C q a b] c5 d by auto
  have steps: "rotate_right t a = Option.bind (update_height ?t6 a) (\<lambda>t7. update_height t7 b)"
    using n(2,4,5) ab rl cB
    by (cases "right nb") (auto simp: rotate_right_def upd_def s5_def s0_def na'_def nb'_def n(3) fun_upd_twist)
  obtain t7 where t7: "update_height ?t6 a = Some t7" "bst_ok t7 (plug C (Nd A b (Nd B a D)))" "same_kv ?t6 t7"
    using update_height_correct[OF t6(1), of a] by (auto simp: ino_plug)
  obtain t8 where t8: "update_height t7 b = Some t8" "bst_ok t8 (plug C (Nd A b (Nd B a D)))" "same_kv t7 t8"
    using update_height_correct[OF t7(2), of b] by (auto simp: ino_plug)
  show ?thesis using steps t7 t8 same_kv_trans[OF t6(2) same_kv_trans[OF t7(3) t8(3)]] by simp
qed

lemma rotate_left_correct:
  assumes ok: "bst_ok t (plug C (Nd A a (Nd B b D)))"
  shows "\<exists>t'. rotate_left t a = Some t' \<and> bst_ok t' (plug C (Nd (Nd A a B) b D)) \<and> same_kv t t'"
proof -
  let ?s = "nodes t"
  obtain q y where c: "rep_ctx ?s (root t) C q y" "rep ?s q y (Nd A a (Nd B b D))"
    using bst_okD(1)[OF ok] rep_plug by blast
  obtain na nb where n: "y = Some a" "?s a = Some na" "parent na = q" "right na = Some b" "?s b = Some nb"
    "parent nb = Some a" "rep ?s (Some a) (left na) A" "rep ?s (Some b) (left nb) B" "rep ?s (Some b) (right nb) D"
    using c(2) by auto
  have d: "distinct (pre C @ ino (Nd A a (Nd B b D)) @ post C)" using bst_okD(2)[OF ok] by (simp add: ino_plug)
  have ab: "a \<noteq> b" using d by auto
  define nb' where "nb' = nb\<lparr>left := Some a, parent := q\<rparr>"
  define na' where "na' = na\<lparr>right := left nb, parent := Some b\<rparr>"
  define s0 where "s0 = ?s(b := Some nb', a := Some na')"
  define s5 where "s5 = (case left nb of None \<Rightarrow> s0 | Some c \<Rightarrow> s0(c := Some ((the (s0 c))\<lparr>parent := Some a\<rparr>)))"
  have cB: "c \<in> set (ino B) \<and> (\<exists>m. ?s c = Some m)" if "left nb = Some c" for c
    using n(8) that by (cases B) auto
  have s5out: "s5 x = ?s x" if "x \<notin> set (ino B)" "x \<noteq> a" "x \<noteq> b" for x
    using that cB by (auto simp: s5_def s0_def split: option.splits)
  have s5ab: "s5 a = Some na'" "s5 b = Some nb'" using d cB ab by (auto simp: s5_def s0_def split: option.splits)
  have keepB: "rep s0 (Some b) (left nb) B" 
    by (rule rep_cong[OF n(8)], rule keep_node_same) (use d in \<open>auto simp: s0_def\<close>)
  have repB: "rep s5 (Some a) (left nb) B"
    unfolding s5_def by (rule rep_reparent[OF keepB]) (use d in auto)
  have repA: "rep s5 (Some a) (left na) A"
    by (rule rep_cong[OF n(7)], rule keep_node_same, rule s5out) (use d in auto)
  have repD: "rep s5 (Some b) (right nb) D"
    by (rule rep_cong[OF n(9)], rule keep_node_same, rule s5out) (use d in auto)
  have new: "rep s5 q (Some b) (Nd (Nd A a B) b D)"
    using repA repB repD s5ab by (simp add: na'_def nb'_def)
  have out: "s5 x = ?s x" if "x \<in> set (pre C) \<union> set (post C)" for x
    by (rule s5out) (use that d in auto)
  have info: "map_option (\<lambda>n. (key n, value n, height n)) (s5 x) = map_option (\<lambda>n. (key n, value n, height n)) (?s x)" for x
    using n(2,5) cB by (auto simp: s5_def s0_def na'_def nb'_def split: option.splits)
  note w = bst_ok_swap[OF ok c(1) out new _ info]
  let ?t6 = "t\<lparr>nodes := fst (set_hole s5 (root t) C (Some b)), root := snd (set_hole s5 (root t) C (Some b))\<rparr>"
  have t6: "bst_ok ?t6 (plug C (Nd (Nd A a B) b D))" "same_kv t ?t6" using w by simp_all
  have c5: "rep_ctx s5 (root t) C q (Some a)" using rep_ctx_cong[OF c(1)] out n(1) by simp
  have rl: "relink_parent (t\<lparr>nodes := s5\<rparr>) q a b = Some ?t6"
    using relink_parent_hole[of "t\<lparr>nodes := s5\<rparr>" C q a b] c5 d by auto
  have steps: "rotate_left t a = Option.bind (update_height ?t6 a) (\<lambda>t7. update_height t7 b)"
    using n(2,4,5) ab rl cB
    by (cases "left nb") (auto simp: rotate_left_def upd_def s5_def s0_def na'_def nb'_def n(3) fun_upd_twist)
  obtain t7 where t7: "update_height ?t6 a = Some t7" "bst_ok t7 (plug C (Nd (Nd A a B) b D))" "same_kv ?t6 t7"
    using update_height_correct[OF t6(1), of a] by (auto simp: ino_plug)
  obtain t8 where t8: "update_height t7 b = Some t8" "bst_ok t8 (plug C (Nd (Nd A a B) b D))" "same_kv t7 t8"
    using update_height_correct[OF t7(2), of b] by (auto simp: ino_plug)
  show ?thesis using steps t7 t8 same_kv_trans[OF t6(2) same_kv_trans[OF t7(3) t8(3)]] by simp
qed

section \<open>Rebalancing\<close>

lemma Nd_of_child:
  assumes "bst_ok t (plug C (Nd l a r))" "nodes t a = Some n"
  shows "left n \<noteq> None \<Longrightarrow> \<exists>A b B. l = Nd A b B \<and> left n = Some b"
    and "right n \<noteq> None \<Longrightarrow> \<exists>A b B. r = Nd A b B \<and> right n = Some b"
proof -
  obtain q y where "rep (nodes t) q y (Nd l a r)" using bst_okD(1)[OF assms(1)] rep_plug by blast
  then have "rep (nodes t) (Some a) (left n) l" "rep (nodes t) (Some a) (right n) r" using assms(2) by auto
  then show "left n \<noteq> None \<Longrightarrow> \<exists>A b B. l = Nd A b B \<and> left n = Some b"
    and "right n \<noteq> None \<Longrightarrow> \<exists>A b B. r = Nd A b B \<and> right n = Some b"
    by (cases l; cases r; auto)+
qed

text \<open>A rotation at any node that has the child it needs.\<close>

lemma rotate_right_at:
  assumes ok: "bst_ok t T" and n: "nodes t a = Some n" "left n \<noteq> None"
  shows "\<exists>t' T'. rotate_right t a = Some t' \<and> bst_ok t' T' \<and> ino T' = ino T \<and> same_kv t t'"
proof -
  have "a \<in> set (ino T)" using bst_okD(3)[OF ok, of a] n(1) by simp
  then obtain C l r where T: "T = plug C (Nd l a r)" using focus by blast
  then obtain A b B where l: "l = Nd A b B" using Nd_of_child(1) ok n by blast
  have "ino (plug C (Nd A b (Nd B a r))) = ino T" by (simp add: T l ino_plug)
  then show ?thesis using rotate_right_correct[of t C A b B a r] ok T l by blast
qed

lemma rotate_left_at:
  assumes ok: "bst_ok t T" and n: "nodes t a = Some n" "right n \<noteq> None"
  shows "\<exists>t' T'. rotate_left t a = Some t' \<and> bst_ok t' T' \<and> ino T' = ino T \<and> same_kv t t'"
proof -
  have "a \<in> set (ino T)" using bst_okD(3)[OF ok, of a] n(1) by simp
  then obtain C l r where T: "T = plug C (Nd l a r)" using focus by blast
  then obtain A b B where r: "r = Nd A b B" using Nd_of_child(2) ok n by blast
  have "ino (plug C (Nd (Nd l a A) b B)) = ino T" by (simp add: T r ino_plug)
  then show ?thesis using rotate_left_correct[of t C l a A b B] ok T r by blast
qed

lemma rebalance_left_heavy:
  assumes ok: "bst_ok t T" and n: "nodes t a = Some n" "left n \<noteq> None"
  shows "\<exists>t' T'. do { t2 \<leftarrow> (case left n of None \<Rightarrow> Some t
               | Some l \<Rightarrow> do { b \<leftarrow> balance t l; (if b < 0 then rotate_left t l else Some t) });
        rotate_right t2 a } = Some t' \<and> bst_ok t' T' \<and> ino T' = ino T \<and> same_kv t t'"
proof -
  have "a \<in> set (ino T)" using bst_okD(3)[OF ok, of a] n(1) by simp
  then obtain C l r where T: "T = plug C (Nd l a r)" using focus by blast
  then obtain A b B where l: "l = Nd A b B" "left n = Some b" using Nd_of_child(1) ok n by blast
  then obtain m where m: "nodes t b = Some m" using child_in[OF ok n(1)] by blast
  obtain bal where bal: "balance t b = Some bal" "bal < 0 \<longrightarrow> right m \<noteq> None"
    using balance_correct[OF ok m] by blast
  show ?thesis
  proof (cases "bal < 0")
    case False
    then show ?thesis using rotate_right_at[OF ok n] bal l(2) by simp
  next
    case True
    have ok': "bst_ok t (plug (CL C a r) (Nd A b B))" using ok T l by simp
    then obtain B1 c B2 where B: "B = Nd B1 c B2" using Nd_of_child(2)[OF ok' m] bal True by blast
    obtain t2 where t2: "rotate_left t b = Some t2" "bst_ok t2 (plug (CL C a r) (Nd (Nd A b B1) c B2))" "same_kv t t2"
      using rotate_left_correct[of t "CL C a r" A b B1 c B2] ok' B by blast
    then obtain t' where t': "rotate_right t2 a = Some t'" "bst_ok t' (plug C (Nd (Nd A b B1) c (Nd B2 a r)))" "same_kv t2 t'"
      using rotate_right_correct[of t2 C "Nd A b B1" c B2 a r] by auto
    have "ino (plug C (Nd (Nd A b B1) c (Nd B2 a r))) = ino T" by (simp add: T l B ino_plug)
    then show ?thesis using t2 t' True bal(1) l(2) same_kv_trans by fastforce
  qed
qed

lemma rebalance_right_heavy:
  assumes ok: "bst_ok t T" and n: "nodes t a = Some n" "right n \<noteq> None"
  shows "\<exists>t' T'. do { t2 \<leftarrow> (case right n of None \<Rightarrow> Some t
               | Some r \<Rightarrow> do { b \<leftarrow> balance t r; (if b > 0 then rotate_right t r else Some t) });
        rotate_left t2 a } = Some t' \<and> bst_ok t' T' \<and> ino T' = ino T \<and> same_kv t t'"
proof -
  have "a \<in> set (ino T)" using bst_okD(3)[OF ok, of a] n(1) by simp
  then obtain C l r where T: "T = plug C (Nd l a r)" using focus by blast
  then obtain A b B where r: "r = Nd A b B" "right n = Some b" using Nd_of_child(2) ok n by blast
  then obtain m where m: "nodes t b = Some m" using child_in[OF ok n(1)] by blast
  obtain bal where bal: "balance t b = Some bal" "0 < bal \<longrightarrow> left m \<noteq> None"
    using balance_correct[OF ok m] by blast
  show ?thesis
  proof (cases "0 < bal")
    case False
    then show ?thesis using rotate_left_at[OF ok n] bal r(2) by simp
  next
    case True
    have ok': "bst_ok t (plug (CR C l a) (Nd A b B))" using ok T r by simp
    then obtain A1 c A2 where A: "A = Nd A1 c A2" using Nd_of_child(1)[OF ok' m] bal True by blast
    obtain t2 where t2: "rotate_right t b = Some t2" "bst_ok t2 (plug (CR C l a) (Nd A1 c (Nd A2 b B)))" "same_kv t t2"
      using rotate_right_correct[of t "CR C l a" A1 c A2 b B] ok' A by blast
    then obtain t' where t': "rotate_left t2 a = Some t'" "bst_ok t' (plug C (Nd (Nd l a A1) c (Nd A2 b B)))" "same_kv t2 t'"
      using rotate_left_correct[of t2 C l a A1 c "Nd A2 b B"] by auto
    have "ino (plug C (Nd (Nd l a A1) c (Nd A2 b B))) = ino T" by (simp add: T r A ino_plug)
    then show ?thesis using t2 t' True bal(1) r(2) same_kv_trans by fastforce
  qed
qed

text \<open>\<open>rebalance\<close> at any node is memory safe and keeps the sequence of nodes, whatever heights are
  stored.\<close>

lemma rebalance_correct:
  assumes ok: "bst_ok t T" and a: "a \<in> set (ino T)"
  obtains t' T' where "rebalance t a = Some t'" "bst_ok t' T'" "ino T' = ino T" "same_kv t t'"
proof -
  obtain t1 where t1: "update_height t a = Some t1" "bst_ok t1 T" "same_kv t t1"
    using update_height_correct[OF ok a] by blast
  obtain n where n: "nodes t1 a = Some n" using bst_okD(3)[OF t1(2), of a] a by blast
  obtain bal where b: "balance t1 a = Some bal" "0 < bal \<longrightarrow> left n \<noteq> None" "bal < 0 \<longrightarrow> right n \<noteq> None"
    using balance_correct[OF t1(2) n] by blast
  consider "1 < bal" | "bal < -1" | "\<not> 1 < bal" "\<not> bal < -1" by linarith
  then show thesis
  proof cases
    case 1
    then obtain t' T' where "rebalance t a = Some t'" "bst_ok t' T'" "ino T' = ino T" "same_kv t1 t'"
      using rebalance_left_heavy[OF t1(2) n] b t1(1) n by (auto simp: rebalance_def)
    then show ?thesis using that same_kv_trans[OF t1(3)] by blast
  next
    case 2
    then obtain t' T' where "rebalance t a = Some t'" "bst_ok t' T'" "ino T' = ino T" "same_kv t1 t'"
      using rebalance_right_heavy[OF t1(2) n] b t1(1) n by (auto simp: rebalance_def)
    then show ?thesis using that same_kv_trans[OF t1(3)] by blast
  next
    case 3
    then have "rebalance t a = Some t1" using b(1) t1(1) n by (simp add: rebalance_def)
    then show ?thesis using that t1 by blast
  qed
qed

section \<open>Insertion\<close>

definition entries :: "('k, 'v) binary_search_tree \<Rightarrow> atree \<Rightarrow> ('k \<times> 'v) list" where
  "entries t T = map (kv t) (ino T)"

lemma same_kv_map: "same_kv t t' \<Longrightarrow> \<forall>a \<in> set xs. nodes t a \<noteq> None \<Longrightarrow> map (kv t') xs = map (kv t) xs"
  by (auto intro!: same_kv_kv)

lemma entries_same: "bst_ok t T \<Longrightarrow> same_kv t t' \<Longrightarrow> ino T' = ino T \<Longrightarrow> entries t' T' = entries t T"
  unfolding entries_def using same_kv_map[of t t' "ino T"] bst_okD(3)[of t T] by simp

lemma bst_ok_add:
  fixes k :: 'k and v :: 'v
  assumes ok: "bst_ok t (plug C Lf)" and c: "rep_ctx (nodes t) (root t) C q None"
  defines "x \<equiv> next_addr t"
  defines "s' \<equiv> (nodes t)(x := Some ((node_init k v)\<lparr>parent := q\<rparr>))"
  defines "t' \<equiv> t\<lparr>root := snd (set_hole s' (root t) C (Some x)), bst_size := bst_size t + 1,
      nodes := fst (set_hole s' (root t) C (Some x)), next_addr := x + 1\<rparr>"
  shows "bst_ok t' (plug C (Nd Lf x Lf))" "kv t' x = (k, v)"
    "\<And>a. a \<in> set (ino (plug C Lf)) \<Longrightarrow> kv t' a = kv t a"
proof -
  have new: "x \<notin> set (pre C) \<union> set (post C)" using bst_okD(4)[OF ok, of x] by (auto simp: x_def ino_plug)
  have d: "distinct (pre C @ ino (Nd Lf x Lf) @ post C)" using bst_okD(2)[OF ok] new by (auto simp: ino_plug)
  have out: "s' a = nodes t a" if "a \<in> set (pre C) \<union> set (post C)" for a using that new by (auto simp: s'_def)
  have sub: "rep s' q (Some x) (Nd Lf x Lf)" by (simp add: s'_def node_init_def)
  note r = rep_swap[OF c out sub d]
  note i = set_hole_info[OF r(2)]
  have kvx: "map_option (\<lambda>n. (key n, value n)) (nodes t' a) = map_option (\<lambda>n. (key n, value n)) (s' a)"
    and hx: "map_option height (nodes t' a) = map_option height (s' a)" for a using i by (simp_all add: t'_def)
  have dom: "nodes t' a \<noteq> None \<longleftrightarrow> a \<in> set (ino (plug C (Nd Lf x Lf)))" for a
  proof -
    have "nodes t' a = None \<longleftrightarrow> s' a = None" using hx[of a] by (metis map_option_is_None)
    then show ?thesis using bst_okD(3)[OF ok, of a] by (auto simp: s'_def ino_plug)
  qed
  have h: "0 < height n" if an: "nodes t' a = Some n" for a n
  proof -
    obtain m where m: "s' a = Some m" "height m = height n"
      using hx[of a] unfolding an by (cases "s' a") auto
    show ?thesis
    proof (cases "a = x")
      case True
      then show ?thesis using m by (auto simp: s'_def node_init_def)
    next
      case False
      then show ?thesis using m bst_okD(5)[OF ok, of a m] by (simp add: s'_def)
    qed
  qed
  have "rep (nodes t') None (root t') (plug C (Nd Lf x Lf))" using r(1) by (simp add: t'_def)
  moreover have "\<forall>a \<in> set (ino (plug C (Nd Lf x Lf))). a < next_addr t'"
    using bst_okD(4)[OF ok] by (auto simp: t'_def x_def ino_plug less_Suc_eq)
  ultimately show "bst_ok t' (plug C (Nd Lf x Lf))"
    using d dom h unfolding bst_ok_def by (simp add: ino_plug)
  show "kv t' x = (k, v)" using kvx[of x] by (auto simp: kv_def s'_def node_init_def)
  show "kv t' a = kv t a" if a: "a \<in> set (ino (plug C Lf))" for a
  proof -
    obtain m where "nodes t a = Some m" using bst_okD(3)[OF ok, of a] a by blast
    moreover have "a \<noteq> x" using a new by (auto simp: ino_plug)
    ultimately show ?thesis using kvx[of a] by (auto simp: kv_def s'_def)
  qed
qed

lemma add_left_eq:
  assumes "nodes t c = Some n" "c < next_addr t"
  shows "add_left t c k v = Some (t\<lparr>root := root t, bst_size := bst_size t + 1,
      nodes := fst (set_hole ((nodes t)(next_addr t := Some ((node_init k v)\<lparr>parent := Some c\<rparr>))) (root t)
        (CL C c r) (Some (next_addr t))), next_addr := next_addr t + 1\<rparr>)"
  using assms by (cases t) (auto simp: add_left_def new_node_def upd_def fun_upd_twist)

lemma add_right_eq:
  assumes "nodes t c = Some n" "c < next_addr t"
  shows "add_right t c k v = Some (t\<lparr>root := root t, bst_size := bst_size t + 1,
      nodes := fst (set_hole ((nodes t)(next_addr t := Some ((node_init k v)\<lparr>parent := Some c\<rparr>))) (root t)
        (CR C l c) (Some (next_addr t))), next_addr := next_addr t + 1\<rparr>)"
  using assms by (cases t) (auto simp: add_right_def new_node_def upd_def fun_upd_twist)

text \<open>The tree after adding the entry \<open>(k, v)\<close> at address \<open>x\<close> somewhere in the subtree \<open>S\<close>.\<close>

definition added_in :: "('k::linorder, 'v) binary_search_tree \<Rightarrow> ctx \<Rightarrow> atree \<Rightarrow> 'k \<Rightarrow> 'v
    \<Rightarrow> ('k, 'v) binary_search_tree \<Rightarrow> bool" where
  "added_in t C S k v t' \<longleftrightarrow> (\<exists>T' xs ys. bst_ok t' T' \<and> bst_size t' = bst_size t + 1
     \<and> next_addr t' = next_addr t + 1 \<and> ino S = xs @ ys
     \<and> ino T' = pre C @ xs @ next_addr t # ys @ post C \<and> kv t' (next_addr t) = (k, v)
     \<and> (\<forall>a \<in> set (ino (plug C S)). kv t' a = kv t a)
     \<and> (sorted (map (fst \<circ> kv t) (ino S)) \<longrightarrow> (\<forall>a \<in> set xs. fst (kv t a) \<le> k) \<and> (\<forall>a \<in> set ys. k \<le> fst (kv t a))))"

lemma added_rebalance:
  assumes ad: "added_in t C S k v t1" and a: "a \<in> set (ino (plug C S))"
  obtains t' where "rebalance t1 a = Some t'" "added_in t C S k v t'"
proof -
  obtain T1 xs ys where T1: "bst_ok t1 T1" "bst_size t1 = bst_size t + 1" "next_addr t1 = next_addr t + 1"
    "ino S = xs @ ys" "ino T1 = pre C @ xs @ next_addr t # ys @ post C" "kv t1 (next_addr t) = (k, v)"
    "\<forall>a \<in> set (ino (plug C S)). kv t1 a = kv t a"
    "sorted (map (fst \<circ> kv t) (ino S)) \<longrightarrow> (\<forall>a \<in> set xs. fst (kv t a) \<le> k) \<and> (\<forall>a \<in> set ys. k \<le> fst (kv t a))"
    using ad unfolding added_in_def by blast
  have "a \<in> set (ino T1)" using a T1(4,5) by (auto simp: ino_plug)
  then obtain t' T' where t': "rebalance t1 a = Some t'" "bst_ok t' T'" "ino T' = ino T1" "same_kv t1 t'"
    using rebalance_correct[OF T1(1)] by blast
  have "kv t' b = kv t1 b" if "b \<in> set (ino T1)" for b
    using same_kv_kv[OF t'(4)] bst_okD(3)[OF T1(1), of b] that by simp
  moreover have "next_addr t \<in> set (ino T1)" "set (ino (plug C S)) \<subseteq> set (ino T1)"
    using T1(4,5) by (auto simp: ino_plug)
  ultimately have "kv t' (next_addr t) = (k, v)" "\<forall>a \<in> set (ino (plug C S)). kv t' a = kv t a"
    using T1(6,7) by auto
  then have "added_in t C S k v t'"
    using t'(2,3) T1(2-5,8) same_kvD(1,2)[OF t'(4)] unfolding added_in_def by auto
  then show thesis using that t'(1) by blast
qed

text \<open>Adding in a subtree is adding in the whole.\<close>

lemma added_in_left:
  assumes "added_in t (CL C c r) l k v t'" "k < fst (kv t c)"
  shows "added_in t C (Nd l c r) k v t'"
proof -
  obtain T' xs ys where T: "bst_ok t' T'" "bst_size t' = bst_size t + 1" "next_addr t' = next_addr t + 1"
    "ino l = xs @ ys" "ino T' = pre C @ xs @ next_addr t # ys @ c # ino r @ post C" "kv t' (next_addr t) = (k, v)"
    "\<forall>a \<in> set (ino (plug (CL C c r) l)). kv t' a = kv t a"
    "sorted (map (fst \<circ> kv t) (ino l)) \<longrightarrow> (\<forall>a \<in> set xs. fst (kv t a) \<le> k) \<and> (\<forall>a \<in> set ys. k \<le> fst (kv t a))"
    using assms(1) unfolding added_in_def pre.simps post.simps by auto
  have s: "(\<forall>a \<in> set xs. fst (kv t a) \<le> k) \<and> (\<forall>a \<in> set (ys @ c # ino r). k \<le> fst (kv t a))"
    if "sorted (map (fst \<circ> kv t) (ino (Nd l c r)))"
    using that T(8) assms(2) by (fastforce simp: sorted_append)
  show ?thesis unfolding added_in_def
    by (rule exI[of _ T'], rule exI[of _ xs], rule exI[of _ "ys @ c # ino r"]) (use T s in simp)
qed

lemma added_in_right:
  assumes "added_in t (CR C l c) r k v t'" "fst (kv t c) \<le> k"
  shows "added_in t C (Nd l c r) k v t'"
proof -
  obtain T' xs ys where T: "bst_ok t' T'" "bst_size t' = bst_size t + 1" "next_addr t' = next_addr t + 1"
    "ino r = xs @ ys" "ino T' = (pre C @ ino l @ [c]) @ xs @ next_addr t # ys @ post C" "kv t' (next_addr t) = (k, v)"
    "\<forall>a \<in> set (ino (plug (CR C l c) r)). kv t' a = kv t a"
    "sorted (map (fst \<circ> kv t) (ino r)) \<longrightarrow> (\<forall>a \<in> set xs. fst (kv t a) \<le> k) \<and> (\<forall>a \<in> set ys. k \<le> fst (kv t a))"
    using assms(1) unfolding added_in_def pre.simps post.simps by auto
  have s: "(\<forall>a \<in> set (ino l @ c # xs). fst (kv t a) \<le> k) \<and> (\<forall>a \<in> set ys. k \<le> fst (kv t a))"
    if "sorted (map (fst \<circ> kv t) (ino (Nd l c r)))"
    using that T(8) assms(2) by (fastforce simp: sorted_append)
  show ?thesis unfolding added_in_def
    by (rule exI[of _ T'], rule exI[of _ "ino l @ c # xs"], rule exI[of _ ys]) (use T s in simp)
qed

lemma add_left_correct:
  assumes ok: "bst_ok t (plug C (Nd Lf c r))" and n: "nodes t c = Some n"
  obtains t' where "add_left t c k v = Some t'" "added_in t (CL C c r) Lf k v t'"
proof -
  have ok': "bst_ok t (plug (CL C c r) Lf)" using ok by simp
  obtain q y where "rep_ctx (nodes t) (root t) (CL C c r) q y" "y = None"
    using bst_okD(1)[OF ok'] rep_plug by fastforce
  then have c: "rep_ctx (nodes t) (root t) (CL C c r) (Some c) None" by auto
  have lt: "c < next_addr t" using bst_okD(4)[OF ok, of c] by (simp add: ino_plug)
  note a = bst_ok_add[OF ok' c, where k = k and v = v]
  let ?t = "t\<lparr>root := root t, bst_size := bst_size t + 1,
      nodes := fst (set_hole ((nodes t)(next_addr t := Some ((node_init k v)\<lparr>parent := Some c\<rparr>))) (root t)
        (CL C c r) (Some (next_addr t))), next_addr := next_addr t + 1\<rparr>"
  have "added_in t (CL C c r) Lf k v ?t"
    unfolding added_in_def
    by (rule exI[of _ "plug (CL C c r) (Nd Lf (next_addr t) Lf)"], rule exI[of _ "[]"], rule exI[of _ "[]"])
       (use a in \<open>simp add: ino_plug\<close>)
  then show thesis by (rule that[OF add_left_eq[OF n lt, of k v C r]])
qed

lemma add_right_correct:
  assumes ok: "bst_ok t (plug C (Nd l c Lf))" and n: "nodes t c = Some n"
  obtains t' where "add_right t c k v = Some t'" "added_in t (CR C l c) Lf k v t'"
proof -
  have ok': "bst_ok t (plug (CR C l c) Lf)" using ok by simp
  obtain q y where "rep_ctx (nodes t) (root t) (CR C l c) q y" "y = None"
    using bst_okD(1)[OF ok'] rep_plug by fastforce
  then have c: "rep_ctx (nodes t) (root t) (CR C l c) (Some c) None" by auto
  have lt: "c < next_addr t" using bst_okD(4)[OF ok, of c] by (simp add: ino_plug)
  note a = bst_ok_add[OF ok' c, where k = k and v = v]
  let ?t = "t\<lparr>root := root t, bst_size := bst_size t + 1,
      nodes := fst (set_hole ((nodes t)(next_addr t := Some ((node_init k v)\<lparr>parent := Some c\<rparr>))) (root t)
        (CR C l c) (Some (next_addr t))), next_addr := next_addr t + 1\<rparr>"
  have "added_in t (CR C l c) Lf k v ?t"
    unfolding added_in_def
    by (rule exI[of _ "plug (CR C l c) (Nd Lf (next_addr t) Lf)"], rule exI[of _ "[]"], rule exI[of _ "[]"])
       (use a in \<open>simp add: ino_plug\<close>)
  then show thesis by (rule that[OF add_right_eq[OF n lt, of k v C l]])
qed

lemma focus_node:
  assumes "bst_ok t (plug C (Nd l c r))"
  obtains n where "nodes t c = Some n" "key n = fst (kv t c)"
    "left n = (case l of Lf \<Rightarrow> None | Nd _ a _ \<Rightarrow> Some a)" "right n = (case r of Lf \<Rightarrow> None | Nd _ a _ \<Rightarrow> Some a)"
    "root t \<noteq> None"
proof -
  obtain q y where q: "rep_ctx (nodes t) (root t) C q y" "rep (nodes t) q y (Nd l c r)"
    using bst_okD(1)[OF assms] rep_plug by blast
  then obtain n where n: "nodes t c = Some n" "rep (nodes t) (Some c) (left n) l" "rep (nodes t) (Some c) (right n) r"
    by auto
  have "root t \<noteq> None"
  proof
    assume "root t = None"
    then have "rep (nodes t) None None (plug C (Nd l c r))" using bst_okD(1)[OF assms] by simp
    then have "plug C (Nd l c r) = Lf" by (cases "plug C (Nd l c r)") auto
    then have "ino (plug C (Nd l c r)) = []" by simp
    then show False by (simp add: ino_plug)
  qed
  moreover have "left n = (case l of Lf \<Rightarrow> None | Nd _ a _ \<Rightarrow> Some a)"
    "right n = (case r of Lf \<Rightarrow> None | Nd _ a _ \<Rightarrow> Some a)" using n(2,3) by (cases l; cases r; auto)+
  ultimately show thesis using that n(1) by (simp add: kv_def)
qed

lemma add_rec_correct:
  assumes "bst_ok t (plug C S)" "S = Nd l c r"
  shows "\<exists>t'. add_rec t (Some c) k v False = Some (True, t') \<and> added_in t C S k v t'"
  using assms
proof (induction S arbitrary: C l c r)
  case (Nd l' c' r')
  then have eq: "l' = l" "c' = c" "r' = r" by auto
  have ok: "bst_ok t (plug C (Nd l c r))" using Nd.prems by simp
  obtain n where n: "nodes t c = Some n" "key n = fst (kv t c)"
    "left n = (case l of Lf \<Rightarrow> None | Nd _ a _ \<Rightarrow> Some a)" "right n = (case r of Lf \<Rightarrow> None | Nd _ a _ \<Rightarrow> Some a)"
    "root t \<noteq> None" using focus_node[OF ok] by blast
  have cin: "c \<in> set (ino (plug C (Nd l c r)))" by (simp add: ino_plug)
  show ?case
  proof (cases "k < key n")
    case True
    have "\<exists>t1. (case left n of Some a \<Rightarrow> add_rec t (Some a) k v False
          | None \<Rightarrow> do { t1 \<leftarrow> add_left t c k v; Some (True, t1) }) = Some (True, t1) \<and> added_in t (CL C c r) l k v t1"
    proof (cases l)
      case Lf
      then obtain t1 where "add_left t c k v = Some t1" "added_in t (CL C c r) Lf k v t1"
        using add_left_correct[of t C c r n k v] ok n(1) by blast
      then show ?thesis using Lf n(3) by simp
    next
      case (Nd l2 c2 r2)
      then show ?thesis using Nd.IH(1)[of "CL C c r" l2 c2 r2] ok n eq by simp
    qed
    then obtain t1 where t1: "(case left n of Some a \<Rightarrow> add_rec t (Some a) k v False
          | None \<Rightarrow> do { t1 \<leftarrow> add_left t c k v; Some (True, t1) }) = Some (True, t1)" "added_in t (CL C c r) l k v t1" by blast
    have "added_in t C (Nd l c r) k v t1" using added_in_left[OF t1(2)] True n(2) by simp
    then obtain t' where "rebalance t1 c = Some t'" "added_in t C (Nd l c r) k v t'"
      using added_rebalance cin by metis
    then show ?thesis using t1(1) True n(1,5) eq by (subst add_rec.simps) auto
  next
    case False
    have "\<exists>t1. (case right n of Some a \<Rightarrow> add_rec t (Some a) k v False
          | None \<Rightarrow> do { t1 \<leftarrow> add_right t c k v; Some (True, t1) }) = Some (True, t1) \<and> added_in t (CR C l c) r k v t1"
    proof (cases r)
      case Lf
      then obtain t1 where "add_right t c k v = Some t1" "added_in t (CR C l c) Lf k v t1"
        using add_right_correct[of t C l c n k v] ok n(1) by blast
      then show ?thesis using Lf n(4) by simp
    next
      case (Nd l2 c2 r2)
      then show ?thesis using Nd.IH(2)[of "CR C l c" l2 c2 r2] ok n eq by simp
    qed
    then obtain t1 where t1: "(case right n of Some a \<Rightarrow> add_rec t (Some a) k v False
          | None \<Rightarrow> do { t1 \<leftarrow> add_right t c k v; Some (True, t1) }) = Some (True, t1)" "added_in t (CR C l c) r k v t1" by blast
    have "added_in t C (Nd l c r) k v t1" using added_in_right[OF t1(2)] False n(2) by simp
    then obtain t' where "rebalance t1 c = Some t'" "added_in t C (Nd l c r) k v t'"
      using added_rebalance cin by metis
    then show ?thesis using t1(1) False n(1,5) eq by (subst add_rec.simps) auto
  qed
qed simp

lemma insert_correct:
  assumes ok: "bst_ok t T"
  shows "\<exists>t'. bst_insert t k v = Some t' \<and> added_in t Hole T k v t'"
proof (cases T)
  case (Nd l c r)
  then have "root t = Some c" using bst_okD(1)[OF ok] by simp
  then show ?thesis using add_rec_correct[of t Hole T l c r k v] ok Nd by (auto simp: bst_insert_def)
next
  case Lf
  have r: "root t = None" using bst_okD(1)[OF ok] Lf by simp
  have ok': "bst_ok t (plug Hole Lf)" and c: "rep_ctx (nodes t) (root t) Hole None None" using ok Lf r by simp_all
  note a = bst_ok_add[OF ok' c, where k = k and v = v]
  let ?t = "t\<lparr>root := Some (next_addr t), bst_size := bst_size t + 1,
    nodes := (nodes t)(next_addr t := Some (node_init k v)), next_addr := next_addr t + 1\<rparr>"
  have e: "(node_init k v)\<lparr>parent := None\<rparr> = node_init k v" by (simp add: node_init_def)
  have ok1: "bst_ok ?t (Nd Lf (next_addr t) Lf)" "kv ?t (next_addr t) = (k, v)" using a(1,2) by (simp_all add: e)
  obtain t' T' where t': "rebalance ?t (next_addr t) = Some t'" "bst_ok t' T'" "ino T' = [next_addr t]" "same_kv ?t t'"
    using rebalance_correct[OF ok1(1), of "next_addr t"] by auto
  have "kv t' (next_addr t) = (k, v)" using same_kv_kv[OF t'(4), of "next_addr t"] ok1(2) by simp
  then have "added_in t Hole Lf k v t'"
    using t' same_kvD(1,2)[OF t'(4)] unfolding added_in_def by auto
  moreover have "add_rec t None k v False = Some (True, t')"
  proof -
    have "t\<lparr>bst_size := bst_size t + 1, nodes := (nodes t)(next_addr t := Some (node_init k v)),
      next_addr := next_addr t + 1, root := Some (next_addr t)\<rparr> = ?t" by (cases t) simp
    then have "rebalance (t\<lparr>bst_size := bst_size t + 1, nodes := (nodes t)(next_addr t := Some (node_init k v)),
      next_addr := next_addr t + 1, root := Some (next_addr t)\<rparr>) (next_addr t) = Some t'" using t'(1) by (rule ssubst)
    then show ?thesis using r by (subst add_rec.simps) (simp add: new_node_def)
  qed
  ultimately show ?thesis using r Lf by (auto simp: bst_insert_def)
qed

section \<open>Removal\<close>

lemma leftmost_correct:
  assumes "rep (nodes t) q (Some c) S"
  shows "\<exists>x C r. leftmost t c = Some x \<and> S = plug C (Nd Lf x r) \<and> pre C = []"
  using assms
proof (induction S arbitrary: q c)
  case (Nd l a r)
  then obtain n where n: "c = a" "nodes t a = Some n" "rep (nodes t) (Some a) (left n) l" by auto
  show ?case
  proof (cases l)
    case Lf
    then have "leftmost t c = Some a" using n by (subst leftmost.simps) simp
    then show ?thesis using Lf by (intro exI[of _ a] exI[of _ Hole]) simp
  next
    case (Nd l2 a2 r2)
    then have l: "left n = Some a2" using n(3) by simp
    then obtain x C r' where "leftmost t a2 = Some x" "l = plug C (Nd Lf x r')" "pre C = []"
      using Nd.IH(1) n(3) by metis
    moreover obtain D where "\<forall>S. plug D S = Nd (plug C S) a r" using plug_under_left by blast
    moreover have "leftmost t c = leftmost t a2" using n l by (subst leftmost.simps) simp
    moreover have "pre (under (CL Hole a r) C) = pre C" by (induction C) auto
    ultimately show ?thesis using plug_under[of "CL Hole a r" C] by (metis plug.simps(1,2))
  qed
qed simp

lemma rightmost_correct:
  assumes "rep (nodes t) q (Some c) S"
  shows "\<exists>x C l. rightmost t c = Some x \<and> S = plug C (Nd l x Lf) \<and> post C = []"
  using assms
proof (induction S arbitrary: q c)
  case (Nd l a r)
  then obtain n where n: "c = a" "nodes t a = Some n" "rep (nodes t) (Some a) (right n) r" by auto
  show ?case
  proof (cases r)
    case Lf
    then have "rightmost t c = Some a" using n by (subst rightmost.simps) simp
    then show ?thesis using Lf by (intro exI[of _ a] exI[of _ Hole]) simp
  next
    case (Nd l2 a2 r2)
    then have l: "right n = Some a2" using n(3) by simp
    then obtain x C l' where "rightmost t a2 = Some x" "r = plug C (Nd l' x Lf)" "post C = []"
      using Nd.IH(2) n(3) by metis
    moreover have "rightmost t c = rightmost t a2" using n l by (subst rightmost.simps) simp
    moreover have "post (under (CR Hole l a) C) = post C" by (induction C) auto
    ultimately show ?thesis using plug_under[of "CR Hole l a" C] by (metis plug.simps(1,3))
  qed
qed simp

lemma size_plug: "size S \<le> size (plug C S)"
proof (induction C arbitrary: S)
  case (CL C a R)
  have "size S \<le> size (Nd S a R)" by simp
  also have "\<dots> \<le> size (plug C (Nd S a R))" by (rule CL.IH)
  finally show ?case by simp
next
  case (CR C L a)
  have "size S \<le> size (Nd L a S)" by simp
  also have "\<dots> \<le> size (plug C (Nd L a S))" by (rule CR.IH)
  finally show ?case by simp
qed simp

lemma ctx_parent:
  "rep_ctx s x C q y \<Longrightarrow> C \<noteq> Hole \<Longrightarrow> \<exists>p. q = Some p \<and> p \<in> set (pre C) \<union> set (post C)"
  by (cases C) auto

lemma successor_none:
  assumes "bst_ok t (plug C (Nd Lf c Lf))"
  shows "successor t c = Some None"
proof -
  obtain n where "nodes t c = Some n" "left n = None" "right n = None"
    using focus_node[OF assms] by (metis atree.simps(4))
  then show ?thesis by (simp add: successor_def)
qed

lemma pre_under: "pre (under D C) = pre D @ pre C"
  by (induction C) auto

lemma post_under: "post (under D C) = post C @ post D"
  by (induction C) auto

text \<open>The successor of an inner node is its neighbour in symmetric order, in one of its
  subtrees.\<close>

lemma successor_some:
  assumes ok: "bst_ok t (plug C (Nd l c r))" and inner: "\<not> (l = Lf \<and> r = Lf)"
  obtains x D l' r' where "successor t c = Some (Some x)" "Nd l c r = plug D (Nd l' x r')"
    "c \<in> set (pre D) \<union> set (post D)" "size (Nd l' x r') < size (Nd l c r)"
    "\<exists>us vs. ino l @ ino r = us @ x # vs
       \<and> (pre D @ ino l' = us @ [c] \<and> ino r' @ post D = vs \<or> pre D @ ino l' = us \<and> ino r' @ post D = c # vs)"
proof -
  obtain n where n: "nodes t c = Some n" "left n = (case l of Lf \<Rightarrow> None | Nd _ a _ \<Rightarrow> Some a)"
    "right n = (case r of Lf \<Rightarrow> None | Nd _ a _ \<Rightarrow> Some a)" using focus_node[OF ok] by blast
  obtain q y where "rep (nodes t) q y (Nd l c r)" using bst_okD(1)[OF ok] rep_plug by blast
  then have lr: "rep (nodes t) (Some c) (left n) l" "rep (nodes t) (Some c) (right n) r" using n(1) by auto
  show thesis
  proof (cases r)
    case (Nd r1 a r2)
    then obtain x E r' where x: "leftmost t a = Some x" "r = plug E (Nd Lf x r')" "pre E = []"
      using leftmost_correct[of t "Some c" a r] lr(2) n(3) by auto
    let ?D = "under (CR Hole l c) E"
    have sz: "size (Nd Lf x r') \<le> size r" unfolding x(2) by (rule size_plug)
    show thesis
    proof (rule that[of x ?D Lf r'])
      show "successor t c = Some (Some x)" using n(1,3) x(1) Nd by (simp add: successor_def)
      show "Nd l c r = plug ?D (Nd Lf x r')" by (simp add: plug_under x(2))
      show "c \<in> set (pre ?D) \<union> set (post ?D)" by (simp add: pre_under)
      show "size (Nd Lf x r') < size (Nd l c r)" using sz by simp
      have "ino l @ ino r = ino l @ x # (ino r' @ post E)" using x by (simp add: ino_plug)
      then show "\<exists>us vs. ino l @ ino r = us @ x # vs
         \<and> (pre ?D @ ino Lf = us @ [c] \<and> ino r' @ post ?D = vs \<or> pre ?D @ ino Lf = us \<and> ino r' @ post ?D = c # vs)"
        using x(3) by (intro exI[of _ "ino l"] exI[of _ "ino r' @ post E"]) (simp add: pre_under post_under)
    qed
  next
    case Lf
    then obtain l1 a l2 where l: "l = Nd l1 a l2" using inner by (cases l) auto
    then obtain x E l' where x: "rightmost t a = Some x" "l = plug E (Nd l' x Lf)" "post E = []"
      using rightmost_correct[of t "Some c" a l] lr(1) n(2) by auto
    let ?D = "under (CL Hole c r) E"
    have sz: "size (Nd l' x Lf) \<le> size l" unfolding x(2) by (rule size_plug)
    show thesis
    proof (rule that[of x ?D l' Lf])
      show "successor t c = Some (Some x)" using n x(1) Lf l by (simp add: successor_def)
      show "Nd l c r = plug ?D (Nd l' x Lf)" by (simp add: plug_under x(2))
      show "c \<in> set (pre ?D) \<union> set (post ?D)" by (simp add: post_under)
      show "size (Nd l' x Lf) < size (Nd l c r)" using sz by simp
      have "ino l @ ino r = (pre E @ ino l') @ x # []" using x Lf by (simp add: ino_plug)
      then show "\<exists>us vs. ino l @ ino r = us @ x # vs
         \<and> (pre ?D @ ino l' = us @ [c] \<and> ino Lf @ post ?D = vs \<or> pre ?D @ ino l' = us \<and> ino Lf @ post ?D = c # vs)"
        using x(3) Lf by (intro exI[of _ "pre E @ ino l'"] exI[of _ "[]"]) (simp add: pre_under post_under)
    qed
  qed
qed

text \<open>Deleting a leaf.\<close>

lemma unlink_hole:
  assumes "rep_ctx (nodes t) (root t) C q (Some a)" "C \<noteq> Hole" "a \<notin> set (pre C) \<union> set (post C)"
    "nodes t a = Some n" "parent n = q"
  shows "unlink t a = Some (t\<lparr>nodes := fst (set_hole (nodes t) (root t) C None)\<rparr>)"
proof (cases C)
  case (CL D p R)
  then show ?thesis using assms by (auto simp: unlink_def upd_def)
next
  case (CR D L p)
  then obtain m where m: "nodes t p = Some m" "q = Some p" "rep (nodes t) (Some p) (left m) L"
    using assms(1) by auto
  have "left m \<noteq> Some a" using rep_root[of "nodes t" "Some p" a L] m(3) assms(3) CR by auto
  then show ?thesis using CR m assms(4,5) by (simp add: unlink_def upd_def)
qed (use assms in simp)

lemma bst_ok_delete:
  assumes ok: "bst_ok t (plug C (Nd Lf a Lf))" and c: "rep_ctx (nodes t) (root t) C q (Some a)"
  defines "t' \<equiv> t\<lparr>root := snd (set_hole (nodes t) (root t) C None),
      nodes := (fst (set_hole (nodes t) (root t) C None))(a := None)\<rparr>"
  shows "bst_ok t' (plug C Lf)" "\<And>x. x \<noteq> a \<Longrightarrow> nodes t x \<noteq> None \<Longrightarrow> kv t' x = kv t x"
proof -
  let ?s = "fst (set_hole (nodes t) (root t) C None)"
  have d: "distinct (pre C @ post C)" "a \<notin> set (pre C) \<union> set (post C)"
    using bst_okD(2)[OF ok] by (auto simp: ino_plug)
  have "rep_ctx ?s (snd (set_hole (nodes t) (root t) C None)) C q None" by (rule rep_ctx_set_hole[OF c d(1)])
  then have "rep_ctx (?s(a := None)) (snd (set_hole (nodes t) (root t) C None)) C q None"
    by (rule rep_ctx_cong) (use d(2) in auto)
  then have "rep (nodes t') None (root t') (plug C Lf)" unfolding rep_plug t'_def by auto
  moreover note i = set_hole_info[OF c, of None]
  have dom: "nodes t' x \<noteq> None \<longleftrightarrow> x \<in> set (ino (plug C Lf))" for x
  proof -
    have "?s x = None \<longleftrightarrow> nodes t x = None" using i(2)[of x] by (metis map_option_is_None)
    then show ?thesis using bst_okD(3)[OF ok, of x] d(2) by (auto simp: t'_def ino_plug)
  qed
  moreover have "0 < height n" if xn: "nodes t' x = Some n" for x n
  proof -
    have "?s x = Some n" using xn by (auto simp: t'_def split: if_splits)
    then obtain m where "nodes t x = Some m" "height m = height n"
      using i(2)[of x] by (cases "nodes t x") auto
    then show ?thesis using bst_okD(5)[OF ok] by metis
  qed
  ultimately show "bst_ok t' (plug C Lf)"
    using d(1) bst_okD(4)[OF ok] unfolding bst_ok_def by (auto simp: ino_plug t'_def)
  show "kv t' x = kv t x" if x: "x \<noteq> a" "nodes t x \<noteq> None" for x
  proof -
    obtain m where m: "nodes t x = Some m" using x(2) by blast
    then show ?thesis using i(1)[of x] x(1) by (cases "?s x") (auto simp: kv_def t'_def)
  qed
qed

lemma bst_ok_kv:
  fixes k :: 'k and v :: 'v
  assumes ok: "bst_ok t T" and n: "nodes t a = Some n"
  defines "t' \<equiv> t\<lparr>nodes := (nodes t)(a := Some (n\<lparr>key := k, value := v\<rparr>))\<rparr>"
  shows "bst_ok t' T" "kv t' = (kv t)(a := (k, v))"
proof -
  have "rep (nodes t') None (root t) T"
    by (rule rep_cong[OF bst_okD(1)[OF ok]]) (auto simp: t'_def keep_node_def n)
  moreover have "nodes t' x \<noteq> None \<longleftrightarrow> x \<in> set (ino T)" for x
    using bst_okD(3)[OF ok, of x] n by (auto simp: t'_def)
  ultimately show "bst_ok t' T"
    using ok n unfolding bst_ok_def by (auto simp: t'_def)
  show "kv t' = (kv t)(a := (k, v))" by (auto simp: kv_def t'_def)
qed

lemma rebalance_entries:
  assumes "bst_ok t T" "a \<in> set (ino T)"
  obtains t' T' where "rebalance t a = Some t'" "bst_ok t' T'" "ino T' = ino T" "entries t' T' = entries t T"
    "bst_size t' = bst_size t" "next_addr t' = next_addr t"
proof -
  obtain t' T' where r: "rebalance t a = Some t'" "bst_ok t' T'" "ino T' = ino T" "same_kv t t'"
    using rebalance_correct[OF assms] by blast
  then show thesis using that entries_same[OF assms(1) r(4,3)] same_kvD(1,2)[OF r(4)] by blast
qed

lemma focus_parent:
  assumes ok: "bst_ok t (plug C (Nd l x r))"
  obtains n where "nodes t x = Some n" "rep_ctx (nodes t) (root t) C (parent n) (Some x)"
    "C \<noteq> Hole \<Longrightarrow> \<exists>p. parent n = Some p \<and> p \<in> set (pre C) \<union> set (post C)"
proof -
  obtain q y where q: "rep_ctx (nodes t) (root t) C q y" "rep (nodes t) q y (Nd l x r)"
    using bst_okD(1)[OF ok] rep_plug by blast
  then obtain n where n: "nodes t x = Some n" "parent n = q" "y = Some x" by auto
  then show thesis using that q(1) ctx_parent[OF q(1)] by auto
qed

text \<open>Moving the entry of a neighbour does not change the list of the other entries.\<close>

lemma map_shift:
  assumes "ps @ ls = us @ [c] \<and> rs @ qs = vs \<or> ps @ ls = us \<and> rs @ qs = c # vs" "c \<notin> set (us @ vs)"
  shows "map (f(c := f x)) (ps @ ls @ rs @ qs) = map f (us @ x # vs)"
proof -
  have e: "ps @ ls @ rs @ qs = us @ c # vs" using assms(1) by (metis append.assoc append_Cons append_Nil)
  show ?thesis unfolding e using assms(2) by simp
qed

text \<open>The state after \<open>node_replace\<close>: one node \<open>z\<close> of the subtree is gone, and with it the entry of \<open>other\<close>
  at its old place; \<open>this\<close> holds it now.\<close>

definition replaced :: "('k, 'v) binary_search_tree \<Rightarrow> ctx \<Rightarrow> atree \<Rightarrow> nat \<Rightarrow> nat \<Rightarrow> nat list
    \<Rightarrow> ('k, 'v) binary_search_tree \<Rightarrow> atree \<Rightarrow> bool" where
  "replaced t C S this other rest t' T' \<longleftrightarrow> bst_ok t' T'
     \<and> (\<exists>z \<in> set (ino S). set (ino T') = set (ino (plug C S)) - {z})
     \<and> entries t' T' = map ((kv t)(this := kv t other)) (pre C @ rest @ post C)
     \<and> bst_size t' = bst_size t \<and> next_addr t' = next_addr t"

lemma replaced_rebalance:
  assumes r: "replaced t C S this other rest t1 T1" and d: "distinct (ino (plug C S))"
    and p: "p \<in> set (pre C) \<union> set (post C)"
  obtains t' T' where "rebalance t1 p = Some t'" "replaced t C S this other rest t' T'"
proof -
  obtain z where z: "z \<in> set (ino S)" "set (ino T1) = set (ino (plug C S)) - {z}" and ok: "bst_ok t1 T1"
    using r unfolding replaced_def by blast
  have "p \<in> set (ino T1)" unfolding z(2) using p z(1) d by (auto simp: ino_plug)
  then obtain t' T' where b: "rebalance t1 p = Some t'" "bst_ok t' T'" "ino T' = ino T1" "entries t' T' = entries t1 T1"
    "bst_size t' = bst_size t1" "next_addr t' = next_addr t1" using rebalance_entries[OF ok] by blast
  then have "replaced t C S this other rest t' T'" using r unfolding replaced_def by auto
  then show thesis using that b(1) by blast
qed

lemma node_replace_leaf:
  assumes ok: "bst_ok t (plug C (Nd Lf other Lf))" and C: "C \<noteq> Hole"
    and th: "this \<in> set (pre C) \<union> set (post C)"
  shows "\<exists>t' T'. node_replace t this other = Some t' \<and> replaced t C (Nd Lf other Lf) this other [] t' T'"
proof -
  let ?T = "plug C (Nd Lf other Lf)"
  have d: "distinct (ino ?T)" "this \<noteq> other" "other \<notin> set (pre C) \<union> set (post C)"
    using bst_okD(2)[OF ok] th by (auto simp: ino_plug)
  obtain on where on: "nodes t other = Some on" using focus_parent[OF ok] by blast
  obtain n where n: "nodes t this = Some n" using bst_okD(3)[OF ok, of this] th by (auto simp: ino_plug)
  let ?t1 = "t\<lparr>nodes := (nodes t)(this := Some (n\<lparr>key := key on, value := value on\<rparr>))\<rparr>"
  have ok1: "bst_ok ?t1 ?T" and kv1: "kv ?t1 = (kv t)(this := kv t other)"
    using bst_ok_kv[OF ok n, where k = "key on" and v = "value on"] on by (simp_all add: kv_def)
  obtain on1 p where o1: "nodes ?t1 other = Some on1" "rep_ctx (nodes ?t1) (root ?t1) C (parent on1) (Some other)"
    "parent on1 = Some p" "p \<in> set (pre C) \<union> set (post C)" using focus_parent[OF ok1] C by metis
  note del = bst_ok_delete[OF ok1 o1(2)]
  define s1 where "s1 = nodes ?t1"
  define t3 where "t3 = t\<lparr>nodes := (fst (set_hole s1 (root t) C None))(other := None)\<rparr>"
  have ct: "snd (set_hole s1 (root t) C None) = root t" using C by (cases C) auto
  have "t\<lparr>root := root t, nodes := X\<rparr> = t\<lparr>nodes := X\<rparr>" for X by (cases t) simp
  then have ok3: "bst_ok t3 (plug C Lf)" and kv3: "\<And>x. x \<noteq> other \<Longrightarrow> s1 x \<noteq> None \<Longrightarrow> kv t3 x = kv ?t1 x"
    using del ct by (simp_all add: t3_def s1_def)
  have ul: "unlink ?t1 other = Some (t\<lparr>nodes := fst (set_hole s1 (root t) C None)\<rparr>)"
    using unlink_hole[OF o1(2) C d(3) o1(1)] by (simp add: s1_def)
  have dn: "delete_node (t\<lparr>nodes := fst (set_hole s1 (root t) C None)\<rparr>) other = Some t3"
    using o1(1) set_hole_outside[OF d(3), of s1 "root t" None] by (simp add: delete_node_def t3_def s1_def)
  have dom: "s1 x \<noteq> None" if "x \<in> set (pre C) \<union> set (post C)" for x
    using bst_okD(3)[OF ok1, of x] that by (auto simp: s1_def ino_plug)
  have "map (kv t3) (pre C @ post C) = map (kv ?t1) (pre C @ post C)"
    by (rule map_cong[OF refl], rule kv3) (use d(3) dom in auto)
  then have "replaced t C (Nd Lf other Lf) this other [] t3 (plug C Lf)"
    using ok3 d(3) unfolding replaced_def entries_def kv1 by (auto simp: ino_plug t3_def)
  then obtain t' T' where b: "rebalance t3 p = Some t'" "replaced t C (Nd Lf other Lf) this other [] t' T'"
    using replaced_rebalance[OF _ d(1) o1(4)] by blast
  have "node_replace t this other = Some t'"
    using on n ul dn b(1) o1(1,3) successor_none[OF ok1] by (subst node_replace.simps) (simp add: upd_def)
  then show ?thesis using b(2) by blast
qed

lemma node_replace_correct:
  assumes "bst_ok t (plug C (Nd l other r))" "C \<noteq> Hole" "this \<in> set (pre C) \<union> set (post C)"
  shows "\<exists>t' T'. node_replace t this other = Some t' \<and> replaced t C (Nd l other r) this other (ino l @ ino r) t' T'"
  using assms
proof (induction "size (Nd l other r)" arbitrary: t C l other r this rule: less_induct)
  case less
  note ok = less(2)
  let ?S = "Nd l other r" and ?T = "plug C (Nd l other r)"
  show ?case
  proof (cases "l = Lf \<and> r = Lf")
    case True
    then show ?thesis using node_replace_leaf[of t C other this] less by simp
  next
    case False
    have d: "distinct (ino ?T)" "this \<noteq> other" using bst_okD(2)[OF ok] less(4) by (auto simp: ino_plug)
    obtain on where on: "nodes t other = Some on" using focus_parent[OF ok] by blast
    obtain n where n: "nodes t this = Some n" using bst_okD(3)[OF ok, of this] less(4) by (auto simp: ino_plug)
    let ?t1 = "t\<lparr>nodes := (nodes t)(this := Some (n\<lparr>key := key on, value := value on\<rparr>))\<rparr>"
    have ok1: "bst_ok ?t1 ?T" and kv1: "kv ?t1 = (kv t)(this := kv t other)"
      using bst_ok_kv[OF ok n, where k = "key on" and v = "value on"] on by (simp_all add: kv_def)
    obtain x D l' r' us vs where x: "successor ?t1 other = Some (Some x)" "?S = plug D (Nd l' x r')"
      "other \<in> set (pre D) \<union> set (post D)" "size (Nd l' x r') < size ?S" "ino l @ ino r = us @ x # vs"
      "pre D @ ino l' = us @ [other] \<and> ino r' @ post D = vs \<or> pre D @ ino l' = us \<and> ino r' @ post D = other # vs"
      using successor_some[OF ok1 False] by metis
    let ?E = "under C D"
    have T: "?T = plug ?E (Nd l' x r')" by (simp add: plug_under x(2))
    have E: "?E \<noteq> Hole" using x(3) less(3) by (cases D) auto
    have sub: "set (ino (Nd l' x r')) \<subseteq> set (ino ?S)" unfolding x(2) by (auto simp: ino_plug)
    have okE: "bst_ok ?t1 (plug ?E (Nd l' x r'))" using ok1 T by simp
    have oE: "other \<in> set (pre ?E) \<union> set (post ?E)" using x(3) by (auto simp: pre_under post_under)
    obtain t2 T2 where t2: "node_replace ?t1 other x = Some t2"
      "replaced ?t1 ?E (Nd l' x r') other x (ino l' @ ino r') t2 T2"
      using less(1)[OF x(4) okE E oE] by blast
    obtain xn p where xn: "nodes ?t1 x = Some xn" "parent xn = Some p" "p \<in> set (pre ?E) \<union> set (post ?E)"
      using focus_parent[OF okE] E by metis
    obtain t3 T3 where t3: "rebalance t2 p = Some t3" "replaced ?t1 ?E (Nd l' x r') other x (ino l' @ ino r') t3 T3"
      using replaced_rebalance[OF t2(2) _ xn(3)] d(1) T by metis
    have on_out: "other \<notin> set (us @ vs)" "other \<notin> set (pre C) \<union> set (post C)"
    proof -
      have "set (us @ vs) \<subseteq> set (ino l @ ino r)" unfolding x(5) by auto
      then show "other \<notin> set (us @ vs)" using d(1) by (auto simp: ino_plug)
      show "other \<notin> set (pre C) \<union> set (post C)" using d(1) by (auto simp: ino_plug)
    qed
    have "map ((kv ?t1)(other := kv ?t1 x)) (pre D @ ino l' @ ino r' @ post D) = map (kv ?t1) (us @ x # vs)"
      by (rule map_shift[OF x(6) on_out(1)])
    then have "map ((kv ?t1)(other := kv ?t1 x)) (pre ?E @ (ino l' @ ino r') @ post ?E)
        = map (kv ?t1) (pre C @ (ino l @ ino r) @ post C)"
      unfolding x(5) using on_out(2) by (simp add: pre_under post_under)
    then have "replaced t C ?S this other (ino l @ ino r) t3 T3"
      using t3(2) sub unfolding replaced_def kv1 T[symmetric] by auto
    moreover have "node_replace t this other = Some t3"
      using on n x(1) xn(1,2) t2(1) t3(1) by (subst node_replace.simps) (simp add: upd_def)
    ultimately show ?thesis by blast
  qed
qed

text \<open>The state after removing the entry of address \<open>c\<close> from the subtree \<open>S\<close>.\<close>

definition removed_in :: "('k, 'v) binary_search_tree \<Rightarrow> ctx \<Rightarrow> atree \<Rightarrow> nat
    \<Rightarrow> ('k, 'v) binary_search_tree \<Rightarrow> bool" where
  "removed_in t C S c t' \<longleftrightarrow> (\<exists>T' xs ys. bst_ok t' T' \<and> ino S = xs @ c # ys
     \<and> (\<exists>z \<in> set (ino S). set (ino T') = set (ino (plug C S)) - {z})
     \<and> entries t' T' = map (kv t) (pre C @ xs @ ys @ post C)
     \<and> bst_size t' = bst_size t - 1 \<and> next_addr t' = next_addr t)"

lemma removed_inI:
  assumes "bst_ok t' T'" "ino S = xs @ c # ys" "z \<in> set (ino S)" "set (ino T') = set (ino (plug C S)) - {z}"
    "entries t' T' = map (kv t) (pre C @ xs @ ys @ post C)" "bst_size t' = bst_size t - 1" "next_addr t' = next_addr t"
  shows "removed_in t C S c t'"
  unfolding removed_in_def using assms by metis

lemma removed_inE:
  assumes "removed_in t C S c t'"
  obtains T' xs ys z where "bst_ok t' T'" "ino S = xs @ c # ys" "z \<in> set (ino S)"
    "set (ino T') = set (ino (plug C S)) - {z}"
    "entries t' T' = map (kv t) (pre C @ xs @ ys @ post C)" "bst_size t' = bst_size t - 1" "next_addr t' = next_addr t"
  using assms unfolding removed_in_def by metis

lemma size_update_simps [simp]:
  "bst_ok (t\<lparr>bst_size := x\<rparr>) T = bst_ok t T" "kv (t\<lparr>bst_size := x\<rparr>) = kv t"
  "entries (t\<lparr>bst_size := x\<rparr>) T = entries t T"
  by (auto simp: bst_ok_def kv_def entries_def fun_eq_iff)

lemma remove_node_leaf:
  assumes ok: "bst_ok t (plug C (Nd Lf c Lf))" and n: "nodes t c = Some n" "key n = k"
  shows "\<exists>t'. remove_rec t (Some c) k = Some t' \<and> removed_in t C (Nd Lf c Lf) c t'"
proof -
  let ?T = "plug C (Nd Lf c Lf)"
  have d: "distinct (ino ?T)" "c \<notin> set (pre C) \<union> set (post C)" using bst_okD(2)[OF ok] by (auto simp: ino_plug)
  have c: "rep_ctx (nodes t) (root t) C (parent n) (Some c)"
    and par: "C \<noteq> Hole \<Longrightarrow> \<exists>p. parent n = Some p \<and> p \<in> set (pre C) \<union> set (post C)"
    using focus_parent[OF ok] n(1) by (metis option.inject)+
  define t3 where "t3 = t\<lparr>root := snd (set_hole (nodes t) (root t) C None),
      nodes := (fst (set_hole (nodes t) (root t) C None))(c := None)\<rparr>"
  have ok3: "bst_ok t3 (plug C Lf)" and kv3: "\<And>x. x \<noteq> c \<Longrightarrow> nodes t x \<noteq> None \<Longrightarrow> kv t3 x = kv t x"
    using bst_ok_delete[OF ok c] by (simp_all add: t3_def)
  have ino3: "ino (plug C Lf) = pre C @ post C" by (simp add: ino_plug)
  have "entries t3 (plug C Lf) = map (kv t) (pre C @ post C)"
    unfolding entries_def ino3
    by (rule map_cong[OF refl], rule kv3) (use d(2) bst_okD(3)[OF ok] in \<open>auto simp: ino_plug\<close>)
  then have base: "removed_in t C (Nd Lf c Lf) c (t'\<lparr>bst_size := bst_size t' - 1\<rparr>)"
    if "bst_ok t' T'" "ino T' = pre C @ post C" "entries t' T' = entries t3 (plug C Lf)" "bst_size t' = bst_size t"
      "next_addr t' = next_addr t" for t' T'
    unfolding removed_in_def
    by (intro exI[of _ T'] exI[of _ "[]"]) (use that d(2) in \<open>auto simp: ino_plug\<close>)
  have meta: "bst_size t3 = bst_size t" "next_addr t3 = next_addr t" by (simp_all add: t3_def)
  have dn: "delete_node (t\<lparr>root := snd (set_hole (nodes t) (root t) C None),
      nodes := fst (set_hole (nodes t) (root t) C None)\<rparr>) c = Some t3"
    using n(1) set_hole_outside[OF d(2), of "nodes t" "root t" None] by (simp add: delete_node_def t3_def)
  show ?thesis
  proof (cases "C = Hole")
    case True
    then have pn: "parent n = None" "root t = Some c" using c by auto
    have "t\<lparr>root := None, nodes := nodes t\<rparr> = t\<lparr>root := None\<rparr>" by (cases t) simp
    then have "remove_rec t (Some c) k = Some (t3\<lparr>bst_size := bst_size t3 - 1\<rparr>)"
      using n pn successor_none[OF ok] dn True by (subst remove_rec.simps) (simp add: unlink_def)
    then show ?thesis using base[OF ok3 ino3 refl meta] by blast
  next
    case False
    then obtain p where p: "parent n = Some p" "p \<in> set (pre C) \<union> set (post C)" using par by blast
    obtain t' T' where b: "rebalance t3 p = Some t'" "bst_ok t' T'" "ino T' = pre C @ post C"
      "entries t' T' = entries t3 (plug C Lf)" "bst_size t' = bst_size t" "next_addr t' = next_addr t"
      using rebalance_entries[OF ok3, of p] p(2) meta ino3 by auto
    have rt: "root t \<noteq> Some c" "snd (set_hole (nodes t) (root t) C None) = root t"
    proof -
      show "snd (set_hole (nodes t) (root t) C None) = root t" using False by (cases C) auto
      show "root t \<noteq> Some c"
      proof
        assume "root t = Some c"
        then have "rep (nodes t) None (Some c) ?T" using bst_okD(1)[OF ok] by simp
        then have "parent n = None" using n(1) by (cases ?T) auto
        then show False using p(1) by simp
      qed
    qed
    have "t\<lparr>root := root t, nodes := X\<rparr> = t\<lparr>nodes := X\<rparr>" for X by (cases t) simp
    then have "remove_rec t (Some c) k = Some (t'\<lparr>bst_size := bst_size t' - 1\<rparr>)"
      using n p(1) successor_none[OF ok] dn rt b(1) unlink_hole[OF c False d(2) n(1) refl]
      by (subst remove_rec.simps) simp
    then show ?thesis using base[OF b(2-6)] by blast
  qed
qed

lemma removed_rebalance:
  assumes r: "removed_in t C S c t1" and d: "distinct (ino (plug C S))" and p: "p \<in> set (pre C) \<union> set (post C)"
  obtains t' where "rebalance t1 p = Some t'" "removed_in t C S c t'"
proof -
  obtain T1 xs ys z where T1: "bst_ok t1 T1" "ino S = xs @ c # ys" "z \<in> set (ino S)"
    "set (ino T1) = set (ino (plug C S)) - {z}" "entries t1 T1 = map (kv t) (pre C @ xs @ ys @ post C)"
    "bst_size t1 = bst_size t - 1" "next_addr t1 = next_addr t"
    using removed_inE[OF r] by metis
  have "p \<in> set (ino T1)" unfolding T1(4) using p T1(3) d by (auto simp: ino_plug)
  then obtain t' T' where b: "rebalance t1 p = Some t'" "bst_ok t' T'" "ino T' = ino T1" "entries t' T' = entries t1 T1"
    "bst_size t' = bst_size t1" "next_addr t' = next_addr t1" using rebalance_entries[OF T1(1)] by blast
  have "removed_in t C S c t'"
    by (rule removed_inI[OF b(2) T1(2,3)]) (use b T1 in simp_all)
  then show thesis using that b(1) by blast
qed

lemma remove_node_inner:
  assumes ok: "bst_ok t (plug C (Nd l c r))" and n: "nodes t c = Some n" "key n = k" and inner: "\<not> (l = Lf \<and> r = Lf)"
  shows "\<exists>t'. remove_rec t (Some c) k = Some t' \<and> removed_in t C (Nd l c r) c t'"
proof -
  let ?S = "Nd l c r" and ?T = "plug C (Nd l c r)"
  have d: "distinct (ino ?T)" using bst_okD(2)[OF ok] .
  obtain x D l' r' us vs where x: "successor t c = Some (Some x)" "?S = plug D (Nd l' x r')"
    "c \<in> set (pre D) \<union> set (post D)" "ino l @ ino r = us @ x # vs"
    "pre D @ ino l' = us @ [c] \<and> ino r' @ post D = vs \<or> pre D @ ino l' = us \<and> ino r' @ post D = c # vs"
    using successor_some[OF ok inner] by metis
  let ?E = "under C D"
  have T: "?T = plug ?E (Nd l' x r')" by (simp add: plug_under x(2))
  have E: "?E \<noteq> Hole" using x(3) by (cases D) auto
  have okE: "bst_ok t (plug ?E (Nd l' x r'))" using ok T by simp
  have cE: "c \<in> set (pre ?E) \<union> set (post ?E)" using x(3) by (auto simp: pre_under post_under)
  obtain t1 T1 where t1: "node_replace t c x = Some t1" "replaced t ?E (Nd l' x r') c x (ino l' @ ino r') t1 T1"
    using node_replace_correct[OF okE E cE] by blast
  obtain xn p where xn: "nodes t x = Some xn" "parent xn = Some p" "p \<in> set (pre ?E) \<union> set (post ?E)"
    using focus_parent[OF okE] E by metis
  obtain t2 T2 where t2: "rebalance t1 p = Some t2" "replaced t ?E (Nd l' x r') c x (ino l' @ ino r') t2 T2"
    using replaced_rebalance[OF t1(2) _ xn(3)] d T by metis
  obtain z where z: "z \<in> set (ino (Nd l' x r'))" "set (ino T2) = set (ino ?T) - {z}" and ok2: "bst_ok t2 T2"
    using t2(2) unfolding replaced_def T[symmetric] by blast
  have "c \<in> set (ino T2)" unfolding z(2) using z(1) cE d unfolding T by (auto simp: ino_plug)
  then obtain t3 T3 where t3: "rebalance (t2\<lparr>bst_size := bst_size t2 - 1\<rparr>) c = Some t3" "bst_ok t3 T3" "ino T3 = ino T2"
    "entries t3 T3 = entries t2 T2" "bst_size t3 = bst_size t2 - 1" "next_addr t3 = next_addr t2"
    using rebalance_entries[of "t2\<lparr>bst_size := bst_size t2 - 1\<rparr>" T2 c] ok2 by auto
  have "set (us @ vs) \<subseteq> set (ino l @ ino r)" unfolding x(4) by auto
  then have c_out: "c \<notin> set (us @ vs)" "c \<notin> set (pre C) \<union> set (post C)" using d by (auto simp: ino_plug)
  have "map ((kv t)(c := kv t x)) (pre D @ ino l' @ ino r' @ post D) = map (kv t) (us @ x # vs)"
    by (rule map_shift[OF x(5) c_out(1)])
  then have "map ((kv t)(c := kv t x)) (pre ?E @ (ino l' @ ino r') @ post ?E)
      = map (kv t) (pre C @ (ino l @ ino r) @ post C)"
    unfolding x(4) using c_out(2) by (simp add: pre_under post_under)
  then have ent: "entries t3 T3 = map (kv t) (pre C @ ino l @ ino r @ post C)"
    using t3(4) t2(2) by (simp add: replaced_def)
  have "set (ino (Nd l' x r')) \<subseteq> set (ino ?S)" unfolding x(2) by (auto simp: ino_plug)
  then have zS: "z \<in> set (ino ?S)" using z(1) by blast
  have "removed_in t C ?S c t3"
    by (rule removed_inI[OF t3(2) _ zS _ ent]) (use t3(3,5,6) t2(2) z(2) in \<open>simp_all add: replaced_def\<close>)
  moreover have "remove_rec t (Some c) k = Some t3"
    using n x(1) xn(1,2) t1(1) t2(1) t3(1) by (subst remove_rec.simps) simp
  ultimately show ?thesis by blast
qed

lemma removed_in_left:
  assumes "removed_in t (CL C a r) l c t'"
  shows "removed_in t C (Nd l a r) c t'"
proof (rule removed_inE[OF assms])
  fix T' xs ys z
  assume T: "bst_ok t' T'" "ino l = xs @ c # ys" "z \<in> set (ino l)"
    "set (ino T') = set (ino (plug (CL C a r) l)) - {z}"
    "entries t' T' = map (kv t) (pre (CL C a r) @ xs @ ys @ post (CL C a r))"
    "bst_size t' = bst_size t - 1" "next_addr t' = next_addr t"
  have "z \<in> set (ino (Nd l a r))" "ino (Nd l a r) = (xs) @ c # (ys @ a # ino r)" using T(2,3) by auto
  from removed_inI[OF T(1) this(2,1) _ _ T(6,7), where C = C] show ?thesis using T(4,5) by simp
qed

lemma removed_in_right:
  assumes "removed_in t (CR C l a) r c t'"
  shows "removed_in t C (Nd l a r) c t'"
proof (rule removed_inE[OF assms])
  fix T' xs ys z
  assume T: "bst_ok t' T'" "ino r = xs @ c # ys" "z \<in> set (ino r)"
    "set (ino T') = set (ino (plug (CR C l a) r)) - {z}"
    "entries t' T' = map (kv t) (pre (CR C l a) @ xs @ ys @ post (CR C l a))"
    "bst_size t' = bst_size t - 1" "next_addr t' = next_addr t"
  have "z \<in> set (ino (Nd l a r))" "ino (Nd l a r) = (ino l @ a # xs) @ c # (ys)" using T(2,3) by auto
  from removed_inI[OF T(1) this(2,1) _ _ T(6,7), where C = C] show ?thesis using T(4,5) by simp
qed

text \<open>Without a node of the key on the search path, \<open>remove_rec\<close> only rebalances.\<close>

definition untouched_in :: "('k, 'v) binary_search_tree \<Rightarrow> ctx \<Rightarrow> atree \<Rightarrow> ('k, 'v) binary_search_tree \<Rightarrow> bool" where
  "untouched_in t C S t' \<longleftrightarrow> (\<exists>T'. bst_ok t' T' \<and> ino T' = ino (plug C S) \<and> entries t' T' = entries t (plug C S)
     \<and> bst_size t' = bst_size t \<and> next_addr t' = next_addr t)"

lemma untouched_rebalance:
  assumes u: "untouched_in t C S t1" and p: "p \<in> set (ino (plug C S))"
  obtains t' where "rebalance t1 p = Some t'" "untouched_in t C S t'"
proof -
  obtain T1 where T1: "bst_ok t1 T1" "ino T1 = ino (plug C S)" "entries t1 T1 = entries t (plug C S)"
    "bst_size t1 = bst_size t" "next_addr t1 = next_addr t" using u unfolding untouched_in_def by blast
  then obtain t' T' where "rebalance t1 p = Some t'" "bst_ok t' T'" "ino T' = ino T1" "entries t' T' = entries t1 T1"
    "bst_size t' = bst_size t1" "next_addr t' = next_addr t1" using rebalance_entries[OF T1(1)] p by metis
  then show thesis using that T1 unfolding untouched_in_def by metis
qed

lemma untouched_in_simps: "untouched_in t (CL C a r) l = untouched_in t C (Nd l a r)"
  "untouched_in t (CR C l a) r = untouched_in t C (Nd l a r)"
  by (simp_all add: untouched_in_def fun_eq_iff)

lemma remove_rec_correct:
  assumes "bst_ok t (plug C S)" "sorted (map (fst \<circ> kv t) (ino S))"
    "x = (case S of Lf \<Rightarrow> None | Nd _ c _ \<Rightarrow> Some c)"
  shows "\<exists>t'. remove_rec t x k = Some t' \<and>
    (if \<exists>c \<in> set (ino S). fst (kv t c) = k then \<exists>c. fst (kv t c) = k \<and> removed_in t C S c t' else untouched_in t C S t')"
  using assms
proof (induction S arbitrary: C x)
  case Lf
  then have "remove_rec t x k = Some t" by (subst remove_rec.simps) simp
  then show ?case using Lf by (auto simp: untouched_in_def)
next
  case (Nd l c r)
  let ?S = "Nd l c r"
  have ok: "bst_ok t (plug C ?S)" and x: "x = Some c" using Nd.prems by simp_all
  have d: "distinct (ino (plug C ?S))" using bst_okD(2)[OF ok] .
  obtain n where n: "nodes t c = Some n" "key n = fst (kv t c)"
    "left n = (case l of Lf \<Rightarrow> None | Nd _ a _ \<Rightarrow> Some a)" "right n = (case r of Lf \<Rightarrow> None | Nd _ a _ \<Rightarrow> Some a)"
    using focus_node[OF ok] by blast
  have so: "sorted (map (fst \<circ> kv t) (ino l))" "sorted (map (fst \<circ> kv t) (ino r))"
    "\<forall>a \<in> set (ino l). fst (kv t a) \<le> fst (kv t c)" "\<forall>a \<in> set (ino r). fst (kv t c) \<le> fst (kv t a)"
    using Nd.prems(2) by (simp_all add: sorted_append comp_def)
  consider "k < key n" | "key n < k" | "key n = k" by (rule linorder_cases)
  then show ?case
  proof cases
    case 1
    have ex: "(\<exists>a \<in> set (ino ?S). fst (kv t a) = k) \<longleftrightarrow> (\<exists>a \<in> set (ino l). fst (kv t a) = k)"
      using 1 n(2) so(4) by fastforce
    obtain t1 where t1: "remove_rec t (left n) k = Some t1"
      "if \<exists>a \<in> set (ino l). fst (kv t a) = k then \<exists>a. fst (kv t a) = k \<and> removed_in t (CL C c r) l a t1
       else untouched_in t (CL C c r) l t1"
      using Nd.IH(1)[OF _ so(1) n(3), of "CL C c r"] ok by auto
    have cin: "c \<in> set (pre (CL C c r)) \<union> set (post (CL C c r))" "distinct (ino (plug (CL C c r) l))" using d by auto
    have go: "remove_rec t x k = rebalance t1 c" unfolding x using n 1 t1(1) by (subst remove_rec.simps) simp
    show ?thesis
    proof (cases "\<exists>a \<in> set (ino l). fst (kv t a) = k")
      case True
      then obtain a where a: "fst (kv t a) = k" "removed_in t (CL C c r) l a t1" using t1(2) by auto
      then show ?thesis unfolding ex go using True removed_rebalance[OF a(2) cin(2,1)] removed_in_left by metis
    next
      case False
      then have "untouched_in t C ?S t1" using t1(2) by (simp add: untouched_in_simps)
      then show ?thesis unfolding ex go using False untouched_rebalance[of t C ?S t1 c] by (auto simp: ino_plug)
    qed
  next
    case 2
    have ex: "(\<exists>a \<in> set (ino ?S). fst (kv t a) = k) \<longleftrightarrow> (\<exists>a \<in> set (ino r). fst (kv t a) = k)"
      using 2 n(2) so(3) by fastforce
    obtain t1 where t1: "remove_rec t (right n) k = Some t1"
      "if \<exists>a \<in> set (ino r). fst (kv t a) = k then \<exists>a. fst (kv t a) = k \<and> removed_in t (CR C l c) r a t1
       else untouched_in t (CR C l c) r t1"
      using Nd.IH(2)[OF _ so(2) n(4), of "CR C l c"] ok by auto
    have cin: "c \<in> set (pre (CR C l c)) \<union> set (post (CR C l c))" "distinct (ino (plug (CR C l c) r))" using d by auto
    have go: "remove_rec t x k = rebalance t1 c" unfolding x using n(1) 2 less_not_sym[OF 2] t1(1) by (subst remove_rec.simps) simp
    show ?thesis
    proof (cases "\<exists>a \<in> set (ino r). fst (kv t a) = k")
      case True
      then obtain a where a: "fst (kv t a) = k" "removed_in t (CR C l c) r a t1" using t1(2) by auto
      then show ?thesis unfolding ex go using True removed_rebalance[OF a(2) cin(2,1)] removed_in_right by metis
    next
      case False
      then have "untouched_in t C ?S t1" using t1(2) by (simp add: untouched_in_simps)
      then show ?thesis unfolding ex go using False untouched_rebalance[of t C ?S t1 c] by (auto simp: ino_plug)
    qed
  next
    case 3
    then have "\<exists>t'. remove_rec t (Some c) k = Some t' \<and> removed_in t C ?S c t'"
      using remove_node_leaf[of t C c n k] remove_node_inner[OF ok n(1)] ok n(1)
      by (cases "l = Lf \<and> r = Lf") auto
    then show ?thesis using 3 n(2) x by auto
  qed
qed

lemma remove_correct:
  assumes "bst_ok t T" "sorted (map fst (entries t T))"
  shows "\<exists>t'. bst_remove t k = Some t' \<and>
    (if \<exists>c \<in> set (ino T). fst (kv t c) = k then \<exists>c. fst (kv t c) = k \<and> removed_in t Hole T c t' else untouched_in t Hole T t')"
proof -
  have "root t = (case T of Lf \<Rightarrow> None | Nd _ c _ \<Rightarrow> Some c)" using bst_okD(1)[OF assms(1)] by (cases T) auto
  moreover have "sorted (map (fst \<circ> kv t) (ino T))" using assms(2) by (simp add: entries_def)
  ultimately show ?thesis using remove_rec_correct[of t Hole T "root t" k] assms(1) by (simp add: bst_remove_def)
qed

section \<open>Lookup\<close>

lemma search_from_correct:
  assumes "bst_ok t (plug C (Nd l c r))" "sorted (map (fst \<circ> kv t) (ino (Nd l c r)))"
  shows "\<exists>a \<in> set (ino (Nd l c r)). search_from t c k = Some a
    \<and> ((\<exists>b \<in> set (ino (Nd l c r)). fst (kv t b) = k) \<longleftrightarrow> fst (kv t a) = k)"
  using assms
proof (induction "Nd l c r" arbitrary: C l c r)
  case (Nd l c r)
  obtain n where n: "nodes t c = Some n" "key n = fst (kv t c)"
    "left n = (case l of Lf \<Rightarrow> None | Nd _ a _ \<Rightarrow> Some a)" "right n = (case r of Lf \<Rightarrow> None | Nd _ a _ \<Rightarrow> Some a)"
    using focus_node[OF Nd.prems(1)] by blast
  have so: "sorted (map (fst \<circ> kv t) (ino l))" "sorted (map (fst \<circ> kv t) (ino r))"
    "\<forall>a \<in> set (ino l). fst (kv t a) \<le> fst (kv t c)" "\<forall>a \<in> set (ino r). fst (kv t c) \<le> fst (kv t a)"
    using Nd.prems(2) by (simp_all add: sorted_append comp_def)
  consider "k < key n" | "key n < k" | "key n = k" by (rule linorder_cases)
  then show ?case
  proof cases
    case 1
    then have nr: "\<forall>b \<in> set (ino r). fst (kv t b) \<noteq> k" "fst (kv t c) \<noteq> k" using so(4) n(2) by fastforce+
    show ?thesis
    proof (cases l)
      case Lf
      then have "search_from t c k = Some c" using n 1 by (subst search_from.simps) simp
      then show ?thesis using Lf nr by auto
    next
      case (Nd l1 c1 r1)
      have "search_from t c k = search_from t c1 k" using n 1 Nd by (subst search_from.simps) simp
      moreover have "\<exists>a \<in> set (ino l). search_from t c1 k = Some a
          \<and> ((\<exists>b \<in> set (ino l). fst (kv t b) = k) \<longleftrightarrow> fst (kv t a) = k)"
        using Nd.hyps(1)[OF Nd, folded Nd, of "CL C c r"] Nd.prems(1) so(1) by (simp add: comp_def)
      ultimately show ?thesis using nr by auto
    qed
  next
    case 2
    then have nl: "\<forall>b \<in> set (ino l). fst (kv t b) \<noteq> k" "fst (kv t c) \<noteq> k" using so(3) n(2) by fastforce+
    show ?thesis
    proof (cases r)
      case Lf
      then have "search_from t c k = Some c" using n(1,4) 2 less_not_sym[OF 2] by (subst search_from.simps) simp
      then show ?thesis using Lf nl by auto
    next
      case (Nd l1 c1 r1)
      have "search_from t c k = search_from t c1 k"
        using n(1,4) 2 less_not_sym[OF 2] Nd by (subst search_from.simps) simp
      moreover have "\<exists>a \<in> set (ino r). search_from t c1 k = Some a
          \<and> ((\<exists>b \<in> set (ino r). fst (kv t b) = k) \<longleftrightarrow> fst (kv t a) = k)"
        using Nd.hyps(2)[OF Nd, folded Nd, of "CR C l c"] Nd.prems(1) so(2) by (simp add: comp_def)
      ultimately show ?thesis using nl by auto
    qed
  next
    case 3
    then have "search_from t c k = Some c" using n(1) by (subst search_from.simps) simp
    then show ?thesis using 3 n(2) by auto
  qed
qed

end
