(* ===== verification/Bst_Map.thy ===== *)
theory Bst_Map
  imports Bst_Correct
begin

text \<open>
  The search tree as a container: the entries in key order as the abstract value of a tree,
  what every operation does to them, and the interface of a keyed store the kernel's tables
  rely on, interpreted on the tree.
\<close>

section \<open>Entries of a tree\<close>

definition bst_rel :: "('k::linorder, 'v) binary_search_tree \<Rightarrow> ('k \<times> 'v) list \<Rightarrow> bool" where
  "bst_rel t xs \<longleftrightarrow> (\<exists>T. bst_ok t T \<and> entries t T = xs) \<and> sorted (map fst xs) \<and> bst_size t = int (length xs)"

lemma bst_relE:
  assumes "bst_rel t xs"
  obtains T where "bst_ok t T" "xs = map (kv t) (ino T)" "sorted (map fst (entries t T))"
    "bst_size t = int (length xs)" "length xs = length (ino T)"
  using assms unfolding bst_rel_def entries_def by auto

lemma bst_relI:
  "bst_ok t T \<Longrightarrow> entries t T = xs \<Longrightarrow> sorted (map fst xs) \<Longrightarrow> bst_size t = int (length xs) \<Longrightarrow> bst_rel t xs"
  unfolding bst_rel_def by blast

lemma bst_rel_init: "bst_rel bst_init []"
  by (rule bst_relI[of _ Lf]) (simp_all add: bst_init_def bst_ok_def entries_def)

lemma bst_insert_entries:
  assumes "bst_rel t xs"
  obtains t' us vs where "bst_insert t k v = Some t'" "xs = us @ vs" "bst_rel t' (us @ (k, v) # vs)"
proof -
  obtain T where T: "bst_ok t T" "xs = map (kv t) (ino T)" "sorted (map fst (entries t T))"
    "bst_size t = int (length xs)" using bst_relE[OF assms] by metis
  obtain t' where t': "bst_insert t k v = Some t'" "added_in t Hole T k v t'" using insert_correct[OF T(1)] by blast
  then obtain T' as bs where a: "bst_ok t' T'" "bst_size t' = bst_size t + 1" "ino T = as @ bs"
    "ino T' = as @ next_addr t # bs" "kv t' (next_addr t) = (k, v)" "\<forall>a \<in> set (ino T). kv t' a = kv t a"
    "sorted (map (fst \<circ> kv t) (ino T)) \<longrightarrow> (\<forall>a \<in> set as. fst (kv t a) \<le> k) \<and> (\<forall>a \<in> set bs. k \<le> fst (kv t a))"
    unfolding added_in_def by auto
  have so: "sorted (map fst (map (kv t) as @ map (kv t) bs))" using T(3) a(3) by (simp add: entries_def comp_def)
  have le: "\<forall>a \<in> set as. fst (kv t a) \<le> k" "\<forall>a \<in> set bs. k \<le> fst (kv t a)"
    using a(7) T(3) by (simp_all add: entries_def comp_def)
  have "entries t' T' = map (kv t) as @ (k, v) # map (kv t) bs"
    using a(3,4,5,6) by (simp add: entries_def)
  then have "bst_rel t' (map (kv t) as @ (k, v) # map (kv t) bs)"
    using a(1,2) T(2,4) a(3) so le by (intro bst_relI[of t' T']) (auto simp: sorted_append comp_def)
  then show thesis using that[OF t'(1)] T(2) a(3) by simp
qed

lemma bst_remove_entries:
  assumes "bst_rel t xs"
  obtains t' where "bst_remove t k = Some t'"
    "if k \<in> fst ` set xs then \<exists>us v vs. xs = us @ (k, v) # vs \<and> bst_rel t' (us @ vs) else bst_rel t' xs"
proof -
  obtain T where T: "bst_ok t T" "xs = map (kv t) (ino T)" "sorted (map fst (entries t T))"
    "bst_size t = int (length xs)" using bst_relE[OF assms] by metis
  have ex: "(\<exists>c \<in> set (ino T). fst (kv t c) = k) \<longleftrightarrow> k \<in> fst ` set xs" using T(2) by auto
  obtain t' where t': "bst_remove t k = Some t'"
    "if k \<in> fst ` set xs then \<exists>c. fst (kv t c) = k \<and> removed_in t Hole T c t' else untouched_in t Hole T t'"
    using remove_correct[OF T(1,3), of k] unfolding ex by blast
  show thesis
  proof (cases "k \<in> fst ` set xs")
    case True
    then obtain c where c: "fst (kv t c) = k" "removed_in t Hole T c t'" using t'(2) by auto
    obtain T' as bs where r: "bst_ok t' T'" "ino T = as @ c # bs" "entries t' T' = map (kv t) (as @ bs)"
      "bst_size t' = bst_size t - 1" using removed_inE[OF c(2)] by (metis append_Nil append_Nil2 pre.simps(1) post.simps(1))
    have "sorted (map fst (map (kv t) (as @ bs)))" using T(3) r(2) by (simp add: entries_def sorted_append comp_def)
    then have "bst_rel t' (map (kv t) as @ map (kv t) bs)"
      using r T(2,4) by (intro bst_relI[of t' T']) auto
    moreover have "xs = map (kv t) as @ (k, snd (kv t c)) # map (kv t) bs"
      using T(2) r(2) c(1) by (simp add: prod_eq_iff)
    ultimately show thesis using that[OF t'(1)] True by auto
  next
    case False
    then obtain T' where "bst_ok t' T'" "entries t' T' = entries t T" "bst_size t' = bst_size t"
      using t'(2) unfolding untouched_in_def by auto
    then have "bst_rel t' xs" using T by (intro bst_relI[of t' T']) (auto simp: entries_def)
    then show thesis using that[OF t'(1)] False by simp
  qed
qed

lemma bst_lookup_entries:
  assumes "bst_rel t xs"
  shows "bst_contains t k = Some (k \<in> fst ` set xs)"
    and "k \<in> fst ` set xs \<Longrightarrow> \<exists>v. bst_get t k = Some v \<and> (k, v) \<in> set xs"
    and "k \<in> fst ` set xs \<Longrightarrow> bst_search t k = bst_get t k"
    and "k \<notin> fst ` set xs \<Longrightarrow> bst_get t k = root_value t"
proof -
  obtain T where T: "bst_ok t T" "xs = map (kv t) (ino T)" "sorted (map fst (entries t T))"
    using bst_relE[OF assms] by metis
  have "bst_contains t k = Some (k \<in> fst ` set xs) \<and> (k \<in> fst ` set xs \<longrightarrow> (\<exists>v. bst_get t k = Some v \<and> (k, v) \<in> set xs))
    \<and> (k \<in> fst ` set xs \<longrightarrow> bst_search t k = bst_get t k) \<and> (k \<notin> fst ` set xs \<longrightarrow> bst_get t k = root_value t)"
  proof (cases T)
    case Lf
    then have "root t = None" using bst_okD(1)[OF T(1)] by simp
    then show ?thesis using T(2) Lf by (simp add: bst_contains_def search_rec_def bst_get_def)
  next
    case (Nd l c r)
    then have root: "root t = Some c" using bst_okD(1)[OF T(1)] by simp
    obtain a where a: "a \<in> set (ino T)" "search_from t c k = Some a"
      "(\<exists>b \<in> set (ino T). fst (kv t b) = k) \<longleftrightarrow> fst (kv t a) = k"
      using search_from_correct[of t Hole l c r k] T(1,3) Nd by (auto simp: entries_def comp_def)
    obtain n where n: "nodes t a = Some n" using bst_okD(3)[OF T(1), of a] a(1) by blast
    have "k \<in> fst ` set xs \<longleftrightarrow> (\<exists>b \<in> set (ino T). fst (kv t b) = k)" by (auto simp: T(2))
    then have ex: "k \<in> fst ` set xs \<longleftrightarrow> key n = k" unfolding a(3) using n by (simp add: kv_def)
    have "kv t a \<in> set xs" using a(1) T(2) by simp
    then show ?thesis using root a(2) n ex
      by (auto simp: bst_contains_def bst_get_def bst_search_def search_rec_def kv_def)
  qed
  then show "bst_contains t k = Some (k \<in> fst ` set xs)"
    and "k \<in> fst ` set xs \<Longrightarrow> \<exists>v. bst_get t k = Some v \<and> (k, v) \<in> set xs"
    and "k \<in> fst ` set xs \<Longrightarrow> bst_search t k = bst_get t k"
    and "k \<notin> fst ` set xs \<Longrightarrow> bst_get t k = root_value t" by auto
qed

section \<open>Iteration\<close>

lemma climb_correct:
  assumes "rep_ctx (nodes t) (root t) C q (Some a)" "nodes t a = Some n" "parent n = q"
    "distinct (pre C @ a # post C)"
  shows "climb t a = Some (first_of (post C))"
  using assms
proof (induction C arbitrary: q a n)
  case Hole
  then show ?case by (subst climb.simps) (simp add: first_of_def)
next
  case (CL C p R)
  then show ?case by (subst climb.simps) (auto simp: first_of_def)
next
  case (CR C L p)
  then obtain m where m: "q = Some p" "nodes t p = Some m" "rep (nodes t) (Some p) (left m) L"
    "rep_ctx (nodes t) (root t) C (parent m) (Some p)" by auto
  have "left m \<noteq> Some a" using m(3) rep_root[of "nodes t" "Some p" a L] CR.prems(4) by auto
  then have "climb t a = climb t p" using CR.prems(2,3) m(1,2) by (subst climb.simps) simp
  also have "\<dots> = Some (first_of (post C))" using CR.prems(4) by (intro CR.IH[OF m(4,2) refl]) auto
  finally show ?case by simp
qed

lemma iter_next_correct:
  assumes ok: "bst_ok t T" and T: "ino T = us @ a # vs"
  shows "iter_next t a = Some (first_of vs)"
proof -
  obtain C l r where P: "T = plug C (Nd l a r)" using focus[of a T] T by auto
  have ok': "bst_ok t (plug C (Nd l a r))" using ok P by simp
  have dis: "distinct (us @ a # vs)" using bst_okD(2)[OF ok] T by simp
  have "us @ a # vs = (pre C @ ino l) @ a # (ino r @ post C)" using T P by (simp add: ino_plug)
  moreover have "a \<notin> set us" "a \<notin> set vs" using dis by auto
  ultimately have vs: "vs = ino r @ post C" using append_Cons_eq_iff by metis
  obtain n where n: "nodes t a = Some n" "rep_ctx (nodes t) (root t) C (parent n) (Some a)"
    using focus_parent[OF ok'] by blast
  have rr: "right n = (case r of Lf \<Rightarrow> None | Nd _ a _ \<Rightarrow> Some a)" using focus_node[OF ok'] n(1) by (metis option.inject)
  show ?thesis
  proof (cases r)
    case Lf
    have "distinct (pre C @ a # post C)" using bst_okD(2)[OF ok'] by (auto simp: ino_plug)
    then show ?thesis using Lf vs rr n climb_correct[OF n(2,1)] by (simp add: iter_next_def)
  next
    case (Nd r1 b r2)
    have rb: "right n = Some b" using rr Nd by simp
    obtain q y where "rep (nodes t) q y (Nd l a r)" using bst_okD(1)[OF ok'] rep_plug by blast
    then have "rep (nodes t) (Some a) (Some b) r" using n(1) Nd by auto
    then obtain x D r' where "leftmost t b = Some x" "r = plug D (Nd Lf x r')" "pre D = []"
      using leftmost_correct by blast
    moreover from this have "ino r = x # ino r' @ post D" by (simp add: ino_plug)
    ultimately show ?thesis using vs rb n(1) by (simp add: iter_next_def first_of_def)
  qed
qed

lemma bst_begin_correct:
  assumes ok: "bst_ok t T"
  shows "bst_begin t = Some (first_of (ino T))"
proof (cases T)
  case Lf
  then show ?thesis using bst_okD(1)[OF ok] by (simp add: bst_begin_def first_of_def)
next
  case (Nd l c r)
  then have r: "root t = Some c" "rep (nodes t) None (Some c) T" using bst_okD(1)[OF ok] by auto
  then obtain x D r' where "leftmost t c = Some x" "T = plug D (Nd Lf x r')" "pre D = []"
    using leftmost_correct by blast
  then show ?thesis using r(1) by (simp add: bst_begin_def first_of_def ino_plug)
qed

text \<open>The loop of a client from \<open>begin\<close> to \<open>end\<close>, with the number of steps it may take.\<close>

fun iter_keys :: "nat \<Rightarrow> ('k, 'v) binary_search_tree \<Rightarrow> nat option \<Rightarrow> 'k list option" where
  "iter_keys fuel t None = Some []"
| "iter_keys 0 t (Some a) = None"
| "iter_keys (Suc fuel) t (Some a) = do {
     k \<leftarrow> iter_deref t (Some a);
     p \<leftarrow> iter_next t a;
     ks \<leftarrow> iter_keys fuel t p;
     Some (k # ks) }"

lemma iter_keys_correct:
  assumes ok: "bst_ok t T"
  shows "ino T = us @ vs \<Longrightarrow> length vs \<le> fuel \<Longrightarrow> iter_keys fuel t (first_of vs) = Some (map (fst \<circ> kv t) vs)"
proof (induction vs arbitrary: us fuel)
  case Nil
  then show ?case by (simp add: first_of_def)
next
  case (Cons a vs)
  obtain f where f: "fuel = Suc f" using Cons.prems(2) by (cases fuel) auto
  obtain n where n: "nodes t a = Some n" using bst_okD(3)[OF ok, of a] Cons.prems(1) by auto
  have "iter_next t a = Some (first_of vs)" using iter_next_correct[OF ok Cons.prems(1)] .
  moreover have "iter_keys f t (first_of vs) = Some (map (fst \<circ> kv t) vs)"
    using Cons.IH[of "us @ [a]" f] Cons.prems f by simp
  ultimately show ?case using f n by (simp add: first_of_def iter_deref_def kv_def)
qed

section \<open>Clearing\<close>

lemma clear_rec_correct:
  assumes "rep (nodes t) q (Some c) S" "distinct (ino S)"
  shows "clear_rec t (Some c) = Some (t\<lparr>nodes := (\<lambda>a. if a \<in> set (ino S) then None else nodes t a)\<rparr>)"
  using assms
proof (induction S arbitrary: t q c)
  case (Nd l a r)
  obtain n where n: "c = a" "nodes t a = Some n" "rep (nodes t) (Some a) (left n) l" "rep (nodes t) (Some a) (right n) r"
    using Nd.prems(1) by auto
  let ?tl = "t\<lparr>nodes := (\<lambda>x. if x \<in> set (ino l) then None else nodes t x)\<rparr>"
  have kr: "rep (nodes ?tl) (Some a) (right n) r"
    by (rule rep_cong[OF n(4)], rule keep_node_same) (use Nd.prems(2) in auto)
  have el: "(if left n \<noteq> None then clear_rec t (left n) else Some t) = Some ?tl"
    using n(3) Nd.IH(1)[of t "Some a"] Nd.prems(2) by (cases l) auto
  have er: "(if right n \<noteq> None then clear_rec ?tl (right n) else Some ?tl)
      = Some (t\<lparr>nodes := (\<lambda>x. if x \<in> set (ino l) \<union> set (ino r) then None else nodes t x)\<rparr>)"
    using kr Nd.IH(2)[of ?tl "Some a"] Nd.prems(2) by (cases r) (auto simp: if_distrib fun_eq_iff)
  have "(if left n \<noteq> None \<and> right n \<noteq> None then do { t1 \<leftarrow> clear_rec t (left n); clear_rec t1 (right n) }
      else if left n \<noteq> None then clear_rec t (left n) else if right n \<noteq> None then clear_rec t (right n) else Some t)
    = Option.bind (if left n \<noteq> None then clear_rec t (left n) else Some t)
        (\<lambda>t1. if right n \<noteq> None then clear_rec t1 (right n) else Some t1)"
    by (cases "left n"; cases "right n") auto
  also have "\<dots> = Some (t\<lparr>nodes := (\<lambda>x. if x \<in> set (ino l) \<union> set (ino r) then None else nodes t x)\<rparr>)"
    unfolding el using er by simp
  finally show ?case using n(1,2) Nd.prems(2)
    by (subst clear_rec.simps) (auto simp: delete_node_def fun_eq_iff)
qed simp

lemma bst_rel_cleared: "bst_rel (t\<lparr>nodes := (\<lambda>_. None), root := None, bst_size := 0\<rparr>) []"
  by (rule bst_relI[of _ Lf]) (simp_all add: bst_ok_def entries_def)

lemma bst_clear_correct:
  assumes "bst_rel t xs" "xs \<noteq> []"
  obtains t' where "bst_clear t = Some t'" "bst_rel t' []"
proof -
  obtain T where T: "bst_ok t T" "xs = map (kv t) (ino T)" using bst_relE[OF assms(1)] by metis
  then obtain l c r where N: "T = Nd l c r" using assms(2) by (cases T) auto
  then have r: "root t = Some c" "rep (nodes t) None (Some c) T" using bst_okD(1)[OF T(1)] by auto
  have "clear_rec t (root t) = Some (t\<lparr>nodes := (\<lambda>a. if a \<in> set (ino T) then None else nodes t a)\<rparr>)"
    using clear_rec_correct[OF r(2) bst_okD(2)[OF T(1)]] r(1) by simp
  moreover have "(\<lambda>a. if a \<in> set (ino T) then None else nodes t a) = (\<lambda>_. None)"
    by (rule ext) (metis bst_okD(3)[OF T(1)])
  ultimately have "bst_clear t = Some (t\<lparr>nodes := (\<lambda>_. None), root := None, bst_size := 0\<rparr>)"
    by (simp add: bst_clear_def)
  then show thesis using that by (metis bst_rel_cleared)
qed

section \<open>The interface of a keyed store\<close>

text \<open>What the process table and the file tables promise their clients, in terms of the map a
  store represents. Inserting asks for a key that is not there.\<close>

locale keyed_store =
  fixes stands_for :: "'s \<Rightarrow> ('k \<Rightarrow> 'v option) \<Rightarrow> bool" and empty :: 's
    and insert :: "'s \<Rightarrow> 'k \<Rightarrow> 'v \<Rightarrow> 's option" and remove :: "'s \<Rightarrow> 'k \<Rightarrow> 's option"
    and get :: "'s \<Rightarrow> 'k \<Rightarrow> 'v option" and contains :: "'s \<Rightarrow> 'k \<Rightarrow> bool option"
  assumes empty_law: "stands_for empty (\<lambda>_. None)"
    and insert_law: "stands_for s m \<Longrightarrow> k \<notin> dom m \<Longrightarrow> \<exists>s'. insert s k v = Some s' \<and> stands_for s' (m(k := Some v))"
    and remove_law: "stands_for s m \<Longrightarrow> \<exists>s'. remove s k = Some s' \<and> stands_for s' (m(k := None))"
    and contains_law: "stands_for s m \<Longrightarrow> contains s k = Some (k \<in> dom m)"
    and get_law: "stands_for s m \<Longrightarrow> k \<in> dom m \<Longrightarrow> get s k = m k"
begin

text \<open>Replacing the value of a key by removing and inserting it.\<close>

lemma update_law:
  assumes "stands_for s m"
  shows "\<exists>s' s''. remove s k = Some s' \<and> insert s' k v = Some s'' \<and> stands_for s'' (m(k := Some v))"
proof -
  obtain s' where s': "remove s k = Some s'" "stands_for s' (m(k := None))" using remove_law[OF assms] by blast
  then obtain s'' where "insert s' k v = Some s''" "stands_for s'' ((m(k := None))(k := Some v))"
    using insert_law[OF s'(2), of k v] by (auto simp: dom_def)
  then show ?thesis using s'(1) by auto
qed

end

definition bst_map :: "('k::linorder, 'v) binary_search_tree \<Rightarrow> ('k \<Rightarrow> 'v option) \<Rightarrow> bool" where
  "bst_map t m \<longleftrightarrow> (\<exists>xs. bst_rel t xs \<and> distinct (map fst xs) \<and> m = map_of xs)"

lemma map_of_mid:
  assumes "k \<notin> fst ` set us"
  shows "map_of (us @ (k, v) # vs) = (map_of (us @ vs))(k := Some v)"
proof -
  have "map_of us k = None" using assms by (simp add: map_of_eq_None_iff)
  then show ?thesis by (auto simp: fun_eq_iff map_add_def split: option.splits)
qed

interpretation bststore: keyed_store bst_map bst_init bst_insert bst_remove bst_get bst_contains
proof
  show "bst_map bst_init (\<lambda>_. None)" unfolding bst_map_def using bst_rel_init by fastforce
next
  fix s :: "('k::linorder, 'v) binary_search_tree" and m k v
  assume "bst_map s m" and k: "k \<notin> dom m"
  then obtain xs where xs: "bst_rel s xs" "distinct (map fst xs)" "m = map_of xs" by (auto simp: bst_map_def)
  have kx: "k \<notin> fst ` set xs" using k xs(3) by (simp add: dom_map_of_conv_image_fst)
  obtain t' us vs where t: "bst_insert s k v = Some t'" "xs = us @ vs" "bst_rel t' (us @ (k, v) # vs)"
    using bst_insert_entries[OF xs(1)] by blast
  have "map_of (us @ (k, v) # vs) = m(k := Some v)"
    using kx xs(3) t(2) map_of_mid[of k us v vs] by auto
  moreover have "distinct (map fst (us @ (k, v) # vs))" using xs(2) t(2) kx by auto
  ultimately show "\<exists>s'. bst_insert s k v = Some s' \<and> bst_map s' (m(k := Some v))"
    using t(1,3) unfolding bst_map_def by metis
next
  fix s :: "('k::linorder, 'v) binary_search_tree" and m k
  assume "bst_map s m"
  then obtain xs where xs: "bst_rel s xs" "distinct (map fst xs)" "m = map_of xs" by (auto simp: bst_map_def)
  obtain t' where t: "bst_remove s k = Some t'"
    "if k \<in> fst ` set xs then \<exists>us v vs. xs = us @ (k, v) # vs \<and> bst_rel t' (us @ vs) else bst_rel t' xs"
    using bst_remove_entries[OF xs(1)] by blast
  show "\<exists>s'. bst_remove s k = Some s' \<and> bst_map s' (m(k := None))"
  proof (cases "k \<in> fst ` set xs")
    case True
    then obtain us v vs where u: "xs = us @ (k, v) # vs" "bst_rel t' (us @ vs)" using t(2) by auto
    have out: "k \<notin> fst ` set us" "k \<notin> fst ` set vs" using xs(2) u(1) by auto
    have "map_of (us @ vs) k = None" using out by (simp add: map_add_def map_of_eq_None_iff[THEN iffD2])
    then have "map_of (us @ vs) = m(k := None)"
      using xs(3) u(1) map_of_mid[OF out(1), of v vs] by (auto simp: fun_eq_iff)
    moreover have "distinct (map fst (us @ vs))" using xs(2) u(1) by auto
    ultimately show ?thesis using t(1) u(2) unfolding bst_map_def by metis
  next
    case False
    then have "m k = None" using xs(3) by (simp add: map_of_eq_None_iff)
    then have "m(k := None) = m" by (auto simp: fun_eq_iff)
    then show ?thesis using t False xs unfolding bst_map_def by auto
  qed
next
  fix s :: "('k::linorder, 'v) binary_search_tree" and m k
  assume "bst_map s m"
  then obtain xs where xs: "bst_rel s xs" "distinct (map fst xs)" "m = map_of xs" by (auto simp: bst_map_def)
  have d: "dom m = fst ` set xs" using xs(3) by (simp add: dom_map_of_conv_image_fst)
  show "bst_contains s k = Some (k \<in> dom m)" unfolding d by (rule bst_lookup_entries(1)[OF xs(1)])
  show "bst_get s k = m k" if kd: "k \<in> dom m"
  proof -
    obtain v where "bst_get s k = Some v" "(k, v) \<in> set xs"
      using bst_lookup_entries(2)[OF xs(1), of k] kd unfolding d by blast
    then show ?thesis using xs(2,3) by simp
  qed
qed

section \<open>Properties\<close>

text \<open>C5: insertion into a search tree returns, whatever the shape of the tree, without a null
  dereference; the entries stay sorted by key and gain exactly the new one, duplicates of the
  key included, and the stored size counts them.\<close>

theorem bst_insert_sorted:
  assumes "bst_rel t xs"
  shows "\<exists>t' us vs. bst_insert t k v = Some t' \<and> xs = us @ vs \<and> bst_rel t' (us @ (k, v) # vs)"
  using bst_insert_entries[OF assms] by metis

theorem bst_insert_sorted_witness:
  "\<exists>t' us vs. bst_insert (bst_init :: (int, nat) binary_search_tree) 3 7 = Some t' \<and> [] = us @ vs
    \<and> bst_rel t' (us @ (3, 7) # vs)"
  by (rule bst_insert_sorted[OF bst_rel_init])

text \<open>C6: removal of a key returns, frees nothing that is still linked, and takes exactly one entry
  of that key out of the sorted entries; without such an entry they are unchanged.\<close>

theorem bst_remove_sorted:
  assumes "bst_rel t xs"
  shows "\<exists>t'. bst_remove t k = Some t' \<and>
    (if k \<in> fst ` set xs then \<exists>us v vs. xs = us @ (k, v) # vs \<and> bst_rel t' (us @ vs) else bst_rel t' xs)"
  using bst_remove_entries[OF assms] by metis

theorem bst_remove_sorted_witness:
  "\<exists>t'. bst_remove (bst_init :: (int, nat) binary_search_tree) 4 = Some t' \<and>
    (if 4 \<in> fst ` set ([] :: (int \<times> nat) list) then \<exists>us v vs. [] = us @ (4, v) # vs \<and> bst_rel t' (us @ vs)
     else bst_rel t' [])"
  by (rule bst_remove_sorted[OF bst_rel_init])

text \<open>C21: a loop over the iterators visits the keys of a tree in ascending order and ends after as
  many steps as the tree has entries.\<close>

theorem bst_iteration_sorted:
  assumes "bst_rel t xs"
  shows "\<exists>p. bst_begin t = Some p \<and> iter_keys (nat (bst_size t)) t p = Some (map fst xs) \<and> sorted (map fst xs)"
proof -
  obtain T where T: "bst_ok t T" "xs = map (kv t) (ino T)" "sorted (map fst (entries t T))"
    "bst_size t = int (length xs)" "length xs = length (ino T)" using bst_relE[OF assms] by metis
  then show ?thesis using bst_begin_correct[OF T(1)] iter_keys_correct[OF T(1), of "[]" "ino T" "length (ino T)"]
    by (simp add: entries_def)
qed

theorem bst_iteration_sorted_witness:
  "\<exists>p. bst_begin (bst_init :: (int, nat) binary_search_tree) = Some p
    \<and> iter_keys (nat (bst_size (bst_init :: (int, nat) binary_search_tree)))
          (bst_init :: (int, nat) binary_search_tree) p = Some (map fst ([] :: (int \<times> nat) list))
    \<and> sorted (map fst ([] :: (int \<times> nat) list))"
  by (rule bst_iteration_sorted[OF bst_rel_init])

text \<open>C20: as a map. A tree built by inserting absent keys and removing keys answers \<open>contains\<close> and
  \<open>get\<close> like a partial map: here after an update of one key.\<close>

theorem bst_update_lookup:
  assumes "bst_map t m"
  shows "\<exists>t1 t2. bst_remove t k = Some t1 \<and> bst_insert t1 k v = Some t2 \<and> bst_map t2 (m(k := Some v))
    \<and> bst_contains t2 j = Some (j = k \<or> j \<in> dom m) \<and> bst_get t2 k = Some v
    \<and> (j \<in> dom m \<longrightarrow> j \<noteq> k \<longrightarrow> bst_get t2 j = m j)"
proof -
  obtain t1 t2 where t: "bst_remove t k = Some t1" "bst_insert t1 k v = Some t2" "bst_map t2 (m(k := Some v))"
    using bststore.update_law[OF assms] by blast
  have "bst_contains t2 j = Some (j \<in> dom (m(k := Some v)))" by (rule bststore.contains_law[OF t(3)])
  moreover have "bst_get t2 k = (m(k := Some v)) k" by (rule bststore.get_law[OF t(3)]) simp
  moreover have "bst_get t2 j = (m(k := Some v)) j" if "j \<in> dom m" by (rule bststore.get_law[OF t(3)]) (use that in simp)
  ultimately show ?thesis using t by auto
qed

theorem bst_update_lookup_witness:
  "\<exists>t1 t2. bst_remove (bst_init :: (int, nat) binary_search_tree) 5 = Some t1 \<and> bst_insert t1 5 9 = Some t2
    \<and> bst_map t2 ((\<lambda>_. None)(5 := Some 9)) \<and> bst_contains t2 6 = Some (6 = (5::int) \<or> 6 \<in> dom (\<lambda>_::int. None :: nat option))
    \<and> bst_get t2 5 = Some 9 \<and> (6 \<in> dom (\<lambda>_::int. None :: nat option) \<longrightarrow> 6 \<noteq> (5::int) \<longrightarrow> bst_get t2 6 = None)"
  by (rule bst_update_lookup[OF bststore.empty_law])

text \<open>\<open>clear\<close> frees every node of a tree that has one; on an empty tree, and so in the
  destructor of an empty tree, it dereferences the null root.\<close>

theorem bst_clear_spec:
  assumes "bst_rel t xs"
  shows "if xs = [] then bst_clear t = None else \<exists>t'. bst_clear t = Some t' \<and> bst_rel t' []"
proof (cases "xs = []")
  case True
  obtain T where T: "bst_ok t T" "xs = map (kv t) (ino T)" using bst_relE[OF assms] by metis
  then have "root t = None" using bst_okD(1)[OF T(1)] True by (cases T) auto
  then show ?thesis using True by (simp add: bst_clear_def clear_rec.simps)
next
  case False
  then show ?thesis using bst_clear_correct[OF assms False] by metis
qed

theorem bst_clear_spec_witness:
  "if ([] :: (int \<times> nat) list) = [] then bst_clear (bst_init :: (int, nat) binary_search_tree) = None
   else \<exists>t'. bst_clear (bst_init :: (int, nat) binary_search_tree) = Some t' \<and> bst_rel t' []"
  by (rule bst_clear_spec[OF bst_rel_init])

text \<open>\<open>pop_min\<close> does not return the minimum. Its reference points into the node that the removal
  reuses for the next entry, or frees when there is none to move.\<close>

theorem pop_min_returns_other_value:
  "do { t1 \<leftarrow> bst_insert (bst_init :: (int, int) binary_search_tree) 1 10; t2 \<leftarrow> bst_insert t1 2 20;
        (x, _) \<leftarrow> pop_min t2; y \<leftarrow> peek_min t2; Some (x, y) } = Some (Some 20, 10)
   \<and> do { t1 \<leftarrow> bst_insert (bst_init :: (int, int) binary_search_tree) 1 10; (x, _) \<leftarrow> pop_min t1; Some x } = Some None"
  by code_simp

end
