(* ===== verification/Ring_Buffer.thy ===== *)
theory Ring_Buffer
  imports Cros_Prelude
begin

text \<open>
  Byte rings. The pipe and the UART both keep received bytes in an array with a read and a
  write position that wrap to 0 at the end of the array, and drain it with the same loop. The
  bytes between the two positions are the contents of the ring; the locale \<open>ring_reader\<close> states
  what the two drain loops share and proves that they return a prefix of the contents.
\<close>

section \<open>Contents of a ring\<close>

definition ring_next :: "nat \<Rightarrow> nat \<Rightarrow> nat" where
  "ring_next N i = (if i + 1 \<ge> N then 0 else i + 1)"

fun ring_walk :: "u8 list \<Rightarrow> nat \<Rightarrow> nat \<Rightarrow> u8 list" where
  "ring_walk b i 0 = []"
| "ring_walk b i (Suc n) = b ! i # ring_walk b (ring_next (length b) i) n"

definition ring_len :: "nat \<Rightarrow> nat \<Rightarrow> nat \<Rightarrow> nat" where
  "ring_len N r w = (if r \<le> w then w - r else w + N - r)"

definition ring :: "u8 list \<Rightarrow> nat \<Rightarrow> nat \<Rightarrow> u8 list" where
  "ring b r w = ring_walk b r (ring_len (length b) r w)"

lemma ring_next_less: "i < N \<Longrightarrow> ring_next N i < N"
  by (simp add: ring_next_def)

lemma length_ring_walk [simp]: "length (ring_walk b i n) = n"
  by (induction n arbitrary: i) simp_all

lemma length_ring: "length (ring b r w) = ring_len (length b) r w"
  by (simp add: ring_def)

lemma ring_len_bound: "r < N \<Longrightarrow> w < N \<Longrightarrow> ring_len N r w < N"
  by (auto simp: ring_len_def)

lemma ring_empty_iff: "r < length b \<Longrightarrow> w < length b \<Longrightarrow> ring b r w = [] \<longleftrightarrow> r = w"
  using length_ring[of b r w] by (auto simp: ring_len_def split: if_splits)

lemma ring_empty [simp]: "ring b r r = []"
  by (simp add: ring_def ring_len_def)

lemma ring_len_advance_read:
  "r < N \<Longrightarrow> w < N \<Longrightarrow> r \<noteq> w \<Longrightarrow> ring_len N r w = Suc (ring_len N (ring_next N r) w)"
  by (auto simp: ring_len_def ring_next_def)

lemma ring_len_advance_write:
  "r < N \<Longrightarrow> w < N \<Longrightarrow> ring_next N w \<noteq> r \<Longrightarrow> ring_len N r (ring_next N w) = Suc (ring_len N r w)"
  by (auto simp: ring_len_def ring_next_def split: if_splits)

lemma ring_full_iff:
  "r < N \<Longrightarrow> w < N \<Longrightarrow> ring_next N w = r \<longleftrightarrow> ring_len N r w = N - 1"
  by (auto simp: ring_len_def ring_next_def)

lemma ring_read_step:
  assumes "r < length b" "w < length b" "r \<noteq> w"
  shows "ring b r w = b ! r # ring b (ring_next (length b) r) w"
  using assms by (simp add: ring_def ring_len_advance_read)

text \<open>Writing at the write position appends a byte.\<close>

lemma ring_walk_snoc: "ring_walk b i (Suc n) = ring_walk b i n @ [b ! ((ring_next (length b) ^^ n) i)]"
  by (induction n arbitrary: i) (simp_all add: funpow_swap1)

lemma ring_next_pow: "i < N \<Longrightarrow> n < N \<Longrightarrow> (ring_next N ^^ n) i = (if i + n < N then i + n else i + n - N)"
  by (induction n) (auto simp: ring_next_def)

lemma ring_walk_upd:
  "i < length b \<Longrightarrow> n < length b \<Longrightarrow> (\<And>j. j < n \<Longrightarrow> (ring_next (length b) ^^ j) i \<noteq> w)
    \<Longrightarrow> ring_walk (b[w := v]) i n = ring_walk b i n"
proof (induction n arbitrary: i)
  case (Suc n)
  have "i \<noteq> w" using Suc.prems(3)[of 0] by simp
  moreover have "ring_walk (b[w := v]) (ring_next (length b) i) n = ring_walk b (ring_next (length b) i) n"
  proof (rule Suc.IH)
    show "ring_next (length b) i < length b" using Suc.prems by (intro ring_next_less) simp
    show "(ring_next (length b) ^^ j) (ring_next (length b) i) \<noteq> w" if "j < n" for j
      using Suc.prems(3)[of "Suc j"] that by (simp add: funpow_swap1)
  qed (use Suc.prems in simp)
  ultimately show ?case by simp
qed simp

lemma ring_write_step:
  assumes r: "r < length b" and w: "w < length b" and room: "ring_next (length b) w \<noteq> r"
  shows "ring (b[w := v]) r (ring_next (length b) w) = ring b r w @ [v]"
proof -
  let ?n = "ring_len (length b) r w"
  have n: "?n < length b" using ring_len_bound[OF r w] .
  have at: "(ring_next (length b) ^^ ?n) r = w"
    using ring_next_pow[OF r n] r w by (auto simp: ring_len_def)
  have "ring_walk (b[w := v]) r ?n = ring_walk b r ?n"
  proof (rule ring_walk_upd[OF r n])
    fix j assume j: "j < ?n"
    then show "(ring_next (length b) ^^ j) r \<noteq> w"
      using ring_next_pow[OF r, of j] n w r by (auto simp: ring_len_def split: if_splits)
  qed
  then show ?thesis
    using ring_len_advance_write[OF r w room] ring_walk_snoc[of "b[w := v]" r ?n] at w
    by (simp add: ring_def)
qed

section \<open>Draining a ring\<close>

locale ring_reader =
  fixes buf :: "'s \<Rightarrow> u8 list" and rd :: "'s \<Rightarrow> nat" and wr :: "'s \<Rightarrow> nat" and cap :: nat
    and adv :: "'s \<Rightarrow> 's" and drain :: "nat \<Rightarrow> 's \<Rightarrow> (u8 list \<times> 's) option"
  assumes drain_0: "drain 0 s = Some ([], s)"
    and drain_Suc: "drain (Suc n) s =
      (if rd s = wr s then Some ([], s)
       else if rd s < length (buf s)
       then map_option (\<lambda>(xs, s'). (buf s ! rd s # xs, s')) (drain n (adv s))
       else None)"
    and adv_laws: "buf (adv s) = buf s" "wr (adv s) = wr s" "rd (adv s) = ring_next cap (rd s)"
begin

lemma drain_prefix:
  assumes "length (buf s) = cap" "rd s < cap" "wr s < cap"
  shows "\<exists>s'. drain n s = Some (take n (ring (buf s) (rd s) (wr s)), s') \<and> buf s' = buf s \<and> wr s' = wr s
    \<and> rd s' < cap \<and> ring (buf s) (rd s') (wr s) = drop n (ring (buf s) (rd s) (wr s))"
  using assms
proof (induction n arbitrary: s)
  case 0
  then show ?case by (simp add: drain_0)
next
  case (Suc n)
  show ?case
  proof (cases "rd s = wr s")
    case True
    then show ?thesis using Suc.prems by (simp add: drain_Suc)
  next
    case False
    have "ring_next cap (rd s) < cap" using Suc.prems by (intro ring_next_less) simp
    then obtain s' where s': "drain n (adv s)
        = Some (take n (ring (buf s) (ring_next cap (rd s)) (wr s)), s')"
      "buf s' = buf s" "wr s' = wr s" "rd s' < cap"
      "ring (buf s) (rd s') (wr s) = drop n (ring (buf s) (ring_next cap (rd s)) (wr s))"
      using Suc.IH[of "adv s"] Suc.prems by (auto simp: adv_laws)
    then show ?thesis using False Suc.prems by (simp add: drain_Suc ring_read_step)
  qed
qed

lemma drain_frame:
  "drain n s = Some (xs, s') \<Longrightarrow> (\<And>s. f (adv s) = f s) \<Longrightarrow> f s' = f s"
  by (induction n arbitrary: s xs) (auto simp: drain_0 drain_Suc split: if_splits)

end

end
