(* ===== verification/Pipe.thy ===== *)
theory Pipe
  imports Ring_Buffer
begin

text \<open>
  Pipes, \<^verbatim>\<open>src/fs/pipe.cpp\<close>: a ring of 4096 bytes between the file contexts of its readers and
  writers. The buffer of the caller is the list of the bytes it holds; a read returns the
  bytes it stores there. Reading past the caller's buffer is the value \<open>None\<close>.
\<close>

section \<open>State and operations\<close>

definition PIPE_SIZE :: nat where "PIPE_SIZE = 4096"

record Pipe =
  buffer :: "u8 list"
  writePos :: nat
  readPos :: nat
  readerCount :: int
  writerCount :: int

definition Pipe_init :: "u8 list \<Rightarrow> Pipe" where
  "Pipe_init mem = \<lparr>buffer = mem, writePos = 0, readPos = 0, readerCount = 0, writerCount = 0\<rparr>"

function put_loop :: "Pipe \<Rightarrow> u8 list \<Rightarrow> int \<Rightarrow> int \<Rightarrow> (int \<times> Pipe) option" where
  "put_loop p s n c =
     (if c < n \<and> \<not> (writePos p = PIPE_SIZE - 1 \<and> readPos p = 0) \<and> \<not> (writePos p + 1 = readPos p)
      then if nat c < length s \<and> writePos p < length (buffer p)
           then put_loop (p\<lparr>buffer := (buffer p)[writePos p := s ! nat c],
                            writePos := (if writePos p + 1 \<ge> PIPE_SIZE then 0 else writePos p + 1)\<rparr>)
                         s n (c + 1)
           else None
      else Some (c, p))"
  by pat_completeness auto
termination by (relation "measure (\<lambda>(p, s, n, c). nat (n - c))") auto

declare put_loop.simps [simp del]

definition pipe_put :: "Pipe \<Rightarrow> u8 list \<Rightarrow> int \<Rightarrow> (int \<times> Pipe) option" where
  "pipe_put p data n =
     (if readerCount p = 0 then Some (error_value EPIPE, p)
      else do {
        (c, p') \<leftarrow> put_loop p data n 0;
        Some (if n > 0 \<and> c = 0 then error_value EFULL else c, p') })"

definition pipe_adv :: "Pipe \<Rightarrow> Pipe" where
  "pipe_adv p = p\<lparr>readPos := (if readPos p + 1 \<ge> PIPE_SIZE then 0 else readPos p + 1)\<rparr>"

text \<open>The loop of \<open>read\<close>, by the number of bytes still asked for.\<close>

primrec read_loop :: "nat \<Rightarrow> Pipe \<Rightarrow> (u8 list \<times> Pipe) option" where
  "read_loop 0 p = Some ([], p)"
| "read_loop (Suc m) p =
     (if readPos p = writePos p then Some ([], p)
      else if readPos p < length (buffer p)
      then do { (xs, p') \<leftarrow> read_loop m (pipe_adv p); Some (buffer p ! readPos p # xs, p') }
      else None)"

definition pipe_read :: "Pipe \<Rightarrow> int \<Rightarrow> (int \<times> u8 list \<times> Pipe) option" where
  "pipe_read p n = do { (xs, p') \<leftarrow> read_loop (nat n) p; Some (int (length xs), xs, p') }"

definition addReader :: "Pipe \<Rightarrow> Pipe" where "addReader p = p\<lparr>readerCount := readerCount p + 1\<rparr>"
definition removeReader :: "Pipe \<Rightarrow> Pipe" where "removeReader p = p\<lparr>readerCount := readerCount p - 1\<rparr>"
definition addWriter :: "Pipe \<Rightarrow> Pipe" where "addWriter p = p\<lparr>writerCount := writerCount p + 1\<rparr>"
definition removeWriter :: "Pipe \<Rightarrow> Pipe" where "removeWriter p = p\<lparr>writerCount := writerCount p - 1\<rparr>"

section \<open>The file contexts of the two ends\<close>

text \<open>Both constructors and both \<open>copy\<close> methods register one more end; a destructor returns no
  pipe when it deletes the object.\<close>

definition PipeReader_init :: "Pipe \<Rightarrow> Pipe" where "PipeReader_init p = addReader p"
definition PipeWriter_init :: "Pipe \<Rightarrow> Pipe" where "PipeWriter_init p = addWriter p"

definition PipeReader_destroy :: "Pipe \<Rightarrow> Pipe option" where
  "PipeReader_destroy p =
     (let p' = removeReader p
      in if readerCount p' = 0 \<and> writerCount p' = 0 then None else Some p')"

definition PipeWriter_destroy :: "Pipe \<Rightarrow> Pipe option" where
  "PipeWriter_destroy p =
     (let p' = removeWriter p
      in if readerCount p' = 0 \<and> writerCount p' = 0 then None else Some p')"

definition PipeReader_read :: "Pipe \<Rightarrow> int \<Rightarrow> (int \<times> u8 list \<times> Pipe) option" where
  "PipeReader_read p n = do {
     (c, xs, p') \<leftarrow> pipe_read p n;
     Some (if c = 0 \<and> writerCount p' = 0 then error_value EEOF else c, xs, p') }"

definition PipeReader_write :: "Pipe \<Rightarrow> u8 list \<Rightarrow> int \<Rightarrow> (int \<times> Pipe) option" where
  "PipeReader_write p data n = Some (error_value EIO, p)"

definition PipeWriter_read :: "Pipe \<Rightarrow> int \<Rightarrow> (int \<times> u8 list \<times> Pipe) option" where
  "PipeWriter_read p n = Some (error_value EIO, [], p)"

definition PipeWriter_write :: "Pipe \<Rightarrow> u8 list \<Rightarrow> int \<Rightarrow> (int \<times> Pipe) option" where
  "PipeWriter_write p data n = pipe_put p data n"

section \<open>The contents of a pipe\<close>

definition pipe_inv :: "Pipe \<Rightarrow> bool" where
  "pipe_inv p \<longleftrightarrow> length (buffer p) = PIPE_SIZE \<and> readPos p < PIPE_SIZE \<and> writePos p < PIPE_SIZE"

definition pipe_data :: "Pipe \<Rightarrow> u8 list" where
  "pipe_data p = ring (buffer p) (readPos p) (writePos p)"

interpretation pipering: ring_reader buffer readPos writePos PIPE_SIZE pipe_adv read_loop
  by unfold_locales (auto simp: pipe_adv_def ring_next_def bind_Some_map)

lemma pipe_adv_counts [simp]:
  "readerCount (pipe_adv p) = readerCount p" "writerCount (pipe_adv p) = writerCount p"
  by (simp_all add: pipe_adv_def)

lemma pipe_data_length: "pipe_inv p \<Longrightarrow> length (pipe_data p) \<le> PIPE_SIZE - 1"
  using ring_len_bound[of "readPos p" PIPE_SIZE "writePos p"]
  by (auto simp: pipe_inv_def pipe_data_def length_ring)

lemma pipe_full_iff:
  assumes "pipe_inv p"
  shows "(writePos p = PIPE_SIZE - 1 \<and> readPos p = 0) \<or> writePos p + 1 = readPos p
    \<longleftrightarrow> length (pipe_data p) = PIPE_SIZE - 1"
  using assms ring_full_iff[of "readPos p" PIPE_SIZE "writePos p"]
  by (auto simp: pipe_inv_def pipe_data_def length_ring ring_next_def split: if_splits)

lemma pipe_write_byte:
  fixes v :: u8
  assumes "pipe_inv p" "length (pipe_data p) \<noteq> PIPE_SIZE - 1"
  defines "p' \<equiv> p\<lparr>buffer := (buffer p)[writePos p := v],
      writePos := (if writePos p + 1 \<ge> PIPE_SIZE then 0 else writePos p + 1)\<rparr>"
  shows "pipe_inv p'" "pipe_data p' = pipe_data p @ [v]"
proof -
  have w: "(if writePos p + 1 \<ge> PIPE_SIZE then 0 else writePos p + 1) = ring_next PIPE_SIZE (writePos p)"
    by (simp add: ring_next_def)
  have l: "length (buffer p) = PIPE_SIZE" "readPos p < PIPE_SIZE" "writePos p < PIPE_SIZE"
    using assms(1) by (auto simp: pipe_inv_def)
  have room: "ring_next PIPE_SIZE (writePos p) \<noteq> readPos p"
    using assms(2) ring_full_iff[OF l(2,3)] l(1) by (simp add: pipe_data_def length_ring)
  show "pipe_inv p'" unfolding p'_def w using l ring_next_less[OF l(3)] by (simp add: pipe_inv_def)
  show "pipe_data p' = pipe_data p @ [v]"
    unfolding p'_def w pipe_data_def using ring_write_step[of "readPos p" "buffer p" "writePos p" v] l room by simp
qed

lemma put_loop_correct:
  assumes "pipe_inv p" "0 \<le> c" "n \<le> int (length s)"
  shows "\<exists>p' m. put_loop p s n c = Some (c + int m, p') \<and> m = min (nat (n - c)) (PIPE_SIZE - 1 - length (pipe_data p))
    \<and> pipe_inv p' \<and> pipe_data p' = pipe_data p @ take m (drop (nat c) s)
    \<and> readerCount p' = readerCount p \<and> writerCount p' = writerCount p"
  using assms
proof (induction p s n c rule: put_loop.induct)
  case (1 p s n c)
  show ?case
  proof (cases "c < n \<and> length (pipe_data p) \<noteq> PIPE_SIZE - 1")
    case False
    then show ?thesis using 1(2) pipe_full_iff[OF 1(2)]
      by (subst put_loop.simps) (auto simp: min_def)
  next
    case True
    let ?p = "p\<lparr>buffer := (buffer p)[writePos p := s ! nat c],
      writePos := (if writePos p + 1 \<ge> PIPE_SIZE then 0 else writePos p + 1)\<rparr>"
    have go: "c < n \<and> \<not> (writePos p = PIPE_SIZE - 1 \<and> readPos p = 0) \<and> \<not> (writePos p + 1 = readPos p)"
      and ix: "nat c < length s \<and> writePos p < length (buffer p)"
      using True pipe_full_iff[OF 1(2)] 1(2-4) by (auto simp: pipe_inv_def)
    note w = pipe_write_byte[OF 1(2) conjunct2[OF True], of "s ! nat c"]
    have c0: "0 \<le> c + 1" using 1(3) by simp
    have nc: "nat (c + 1) = Suc (nat c)" using 1(3) by simp
    obtain p' m where r: "put_loop ?p s n (c + 1) = Some (c + 1 + int m, p')"
      "m = min (nat (n - (c + 1))) (PIPE_SIZE - 1 - length (pipe_data ?p))" "pipe_inv p'"
      "pipe_data p' = pipe_data ?p @ take m (drop (nat (c + 1)) s)"
      "readerCount p' = readerCount p" "writerCount p' = writerCount p"
      using 1(1)[OF go ix w(1) c0 1(4)] by auto
    have "put_loop p s n c = Some (c + int (Suc m), p')" using go ix r(1) by (subst put_loop.simps) simp
    moreover have "Suc m = min (nat (n - c)) (PIPE_SIZE - 1 - length (pipe_data p))"
      using r(2) w(2) True pipe_data_length[OF 1(2)] by (auto simp: min_def)
    moreover have "pipe_data p' = pipe_data p @ take (Suc m) (drop (nat c) s)"
      using r(4) w(2) True ix by (simp add: nc Cons_nth_drop_Suc[symmetric])
    ultimately show ?thesis using r by blast
  qed
qed

lemma pipe_put_correct:
  assumes "pipe_inv p" "n \<le> int (length data)" "readerCount p \<noteq> 0"
  defines "m \<equiv> min (nat n) (PIPE_SIZE - 1 - length (pipe_data p))"
  shows "\<exists>p'. pipe_put p data n = Some (if 0 < n \<and> m = 0 then error_value EFULL else int m, p')
    \<and> pipe_inv p' \<and> pipe_data p' = pipe_data p @ take m data
    \<and> readerCount p' = readerCount p \<and> writerCount p' = writerCount p"
proof -
  obtain p' where "put_loop p data n 0 = Some (int m, p')" "pipe_inv p'"
    "pipe_data p' = pipe_data p @ take m data" "readerCount p' = readerCount p" "writerCount p' = writerCount p"
    using put_loop_correct[OF assms(1) _ assms(2), of 0] by (auto simp: m_def)
  then show ?thesis using assms(3) by (auto simp: pipe_put_def)
qed

lemma pipe_read_correct:
  assumes "pipe_inv p"
  shows "\<exists>p'. pipe_read p n = Some (int (min (nat n) (length (pipe_data p))), take (nat n) (pipe_data p), p')
    \<and> pipe_inv p' \<and> pipe_data p' = drop (nat n) (pipe_data p)
    \<and> readerCount p' = readerCount p \<and> writerCount p' = writerCount p"
proof -
  obtain p' where r: "read_loop (nat n) p = Some (take (nat n) (pipe_data p), p')" "buffer p' = buffer p"
    "writePos p' = writePos p" "readPos p' < PIPE_SIZE"
    "ring (buffer p) (readPos p') (writePos p) = drop (nat n) (pipe_data p)"
    using pipering.drain_prefix[of p "nat n"] assms unfolding pipe_inv_def pipe_data_def by blast
  have "readerCount p' = readerCount p" "writerCount p' = writerCount p"
    using pipering.drain_frame[OF r(1), of readerCount] pipering.drain_frame[OF r(1), of writerCount] by simp_all
  then show ?thesis using r assms by (simp add: pipe_read_def pipe_inv_def pipe_data_def min.commute)
qed

section \<open>Properties\<close>

text \<open>Writing to a pipe. Without a reader it fails with \<open>EPIPE\<close> and changes nothing. With one
  it appends as many of the bytes as fit below the capacity of 4095 and returns their number,
  or \<open>EFULL\<close> when bytes were given and none fits; it never writes outside the buffer.\<close>

theorem pipe_write_spec:
  assumes "pipe_inv p" and "n \<le> int (length data)"
  shows "\<exists>p' r. PipeWriter_write p data n = Some (r, p') \<and> pipe_inv p'
    \<and> (if readerCount p = 0 then r = error_value EPIPE \<and> p' = p
       else let m = min (nat n) (4095 - length (pipe_data p))
            in pipe_data p' = pipe_data p @ take m data
               \<and> r = (if 0 < n \<and> m = 0 then error_value EFULL else int m))"
proof (cases "readerCount p = 0")
  case True
  then show ?thesis using assms by (simp add: PipeWriter_write_def pipe_put_def)
next
  case False
  then show ?thesis using pipe_put_correct[OF assms False] by (auto simp: PipeWriter_write_def PIPE_SIZE_def Let_def)
qed

text \<open>Reading from a pipe returns the oldest bytes, as many as are there and asked for, and
  keeps the rest in order. It reports \<open>EEOF\<close> exactly when it returns nothing and no writer is
  left.\<close>

theorem pipe_reader_spec:
  assumes "pipe_inv p"
  shows "\<exists>p'. PipeReader_read p n
      = Some (if (n \<le> 0 \<or> pipe_data p = []) \<and> writerCount p = 0 then error_value EEOF
              else int (min (nat n) (length (pipe_data p))), take (nat n) (pipe_data p), p')
    \<and> pipe_inv p' \<and> pipe_data p' = drop (nat n) (pipe_data p)"
proof -
  obtain p' where "pipe_read p n = Some (int (min (nat n) (length (pipe_data p))), take (nat n) (pipe_data p), p')"
    "pipe_inv p'" "pipe_data p' = drop (nat n) (pipe_data p)" "writerCount p' = writerCount p"
    using pipe_read_correct[OF assms] by blast
  then show ?thesis by (auto simp: PipeReader_read_def min_def)
qed

definition sample_pipe :: Pipe where
  "sample_pipe = addWriter (addReader (Pipe_init (replicate PIPE_SIZE 0)))"

lemma sample_pipe_inv: "pipe_inv sample_pipe"
  by (simp add: sample_pipe_def addWriter_def addReader_def Pipe_init_def pipe_inv_def PIPE_SIZE_def)

theorem pipe_write_spec_witness:
  "\<exists>p' r. PipeWriter_write sample_pipe [1, 2, 3] 3 = Some (r, p') \<and> pipe_inv p'
    \<and> (if readerCount sample_pipe = 0 then r = error_value EPIPE \<and> p' = sample_pipe
       else let m = min (nat 3) (4095 - length (pipe_data sample_pipe))
            in pipe_data p' = pipe_data sample_pipe @ take m [1, 2, 3]
               \<and> r = (if 0 < (3::int) \<and> m = 0 then error_value EFULL else int m))"
  by (rule pipe_write_spec[OF sample_pipe_inv]) simp

theorem pipe_reader_spec_witness:
  "\<exists>p'. PipeReader_read sample_pipe 5
      = Some (if ((5::int) \<le> 0 \<or> pipe_data sample_pipe = []) \<and> writerCount sample_pipe = 0 then error_value EEOF
              else int (min (nat 5) (length (pipe_data sample_pipe))), take (nat 5) (pipe_data sample_pipe), p')
    \<and> pipe_inv p' \<and> pipe_data p' = drop (nat 5) (pipe_data sample_pipe)"
  by (rule pipe_reader_spec[OF sample_pipe_inv])

section \<open>Sequences of operations\<close>

datatype pipe_op = Write "u8 list" | Read int

text \<open>Runs operations on the two ends and collects the bytes the writers were told are accepted
  and the bytes the readers received.\<close>

fun run_pipe :: "pipe_op list \<Rightarrow> Pipe \<Rightarrow> (u8 list \<times> u8 list \<times> Pipe) option" where
  "run_pipe [] p = Some ([], [], p)"
| "run_pipe (Write d # ops) p = do {
     (r, p') \<leftarrow> PipeWriter_write p d (int (length d));
     (ins, outs, p'') \<leftarrow> run_pipe ops p';
     Some (take (nat r) d @ ins, outs, p'') }"
| "run_pipe (Read n # ops) p = do {
     (r, xs, p') \<leftarrow> PipeReader_read p n;
     (ins, outs, p'') \<leftarrow> run_pipe ops p';
     Some (ins, take (nat r) xs @ outs, p'') }"

lemma run_pipe_fifo:
  "pipe_inv p \<Longrightarrow> \<exists>ins outs p'. run_pipe ops p = Some (ins, outs, p') \<and> pipe_inv p'
    \<and> pipe_data p @ ins = outs @ pipe_data p'"
proof (induction ops arbitrary: p)
  case (Cons op ops)
  show ?case
  proof (cases op)
    case (Write d)
    obtain p1 r where w: "PipeWriter_write p d (int (length d)) = Some (r, p1)" "pipe_inv p1"
      "pipe_data p1 = pipe_data p @ take (nat r) d"
    proof (cases "readerCount p = 0")
      case True
      then have "PipeWriter_write p d (int (length d)) = Some (error_value EPIPE, p)"
        by (simp add: PipeWriter_write_def pipe_put_def)
      then show ?thesis using that Cons.prems by simp
    next
      case False
      then show ?thesis using that pipe_put_correct[OF Cons.prems, of "int (length d)" d]
        by (fastforce simp: PipeWriter_write_def)
    qed
    obtain ins outs p' where "run_pipe ops p1 = Some (ins, outs, p')" "pipe_inv p'"
      "pipe_data p1 @ ins = outs @ pipe_data p'" using Cons.IH[OF w(2)] by blast
    then show ?thesis using w Write by simp
  next
    case (Read n)
    obtain p1 where r: "pipe_read p n = Some (int (min (nat n) (length (pipe_data p))), take (nat n) (pipe_data p), p1)"
      "pipe_inv p1" "pipe_data p1 = drop (nat n) (pipe_data p)" using pipe_read_correct[OF Cons.prems] by blast
    obtain ins outs p' where i: "run_pipe ops p1 = Some (ins, outs, p')" "pipe_inv p'"
      "pipe_data p1 @ ins = outs @ pipe_data p'" using Cons.IH[OF r(2)] by blast
    have "pipe_data p @ ins = take (nat n) (pipe_data p) @ outs @ pipe_data p'"
      using i(3) r(3) by (metis append.assoc append_take_drop_id)
    then show ?thesis using r(1) i(1,2) Read by (auto simp: PipeReader_read_def min_def)
  qed
qed simp


end
