(* ===== verification/Uart.thy ===== *)
theory Uart
  imports Ring_Buffer
begin

text \<open>
  The UART driver, \<^verbatim>\<open>src/devices/uart.cpp\<close>. The registers are hardware: the words the data
  register delivers until the flag register reports an empty receive queue are the argument
  \<open>rx\<close> of the operations that read them, and the bytes stored to the data register are
  collected in \<open>tx\<close>. Waiting for the transmit queue to drain has no effect on the state.
\<close>

section \<open>State and operations\<close>

definition bufferSize :: nat where "bufferSize = 4096"

record UART =
  uart_buffer :: "u8 list"
  bufferIndex :: nat
  IMSC :: u32
  ICR :: u32
  tx :: "u8 list"

definition UART_CTSM :: u32 where "UART_CTSM = 0x002"
definition UART_Receive :: u32 where "UART_Receive = 0x010"
definition UART_Transmit :: u32 where "UART_Transmit = 0x020"
definition UART_ReceiveTimeout :: u32 where "UART_ReceiveTimeout = 0x040"
definition UART_Framing :: u32 where "UART_Framing = 0x080"
definition UART_Parity :: u32 where "UART_Parity = 0x100"
definition UART_Break :: u32 where "UART_Break = 0x200"
definition UART_Overrun :: u32 where "UART_Overrun = 0x400"

definition UART_init :: UART where
  "UART_init = \<lparr>uart_buffer = replicate bufferSize 0, bufferIndex = 0,
     IMSC = UART_Receive OR UART_ReceiveTimeout OR UART_Framing OR UART_Parity OR UART_Break OR UART_Overrun,
     ICR = 0, tx = []\<rparr>"

definition uart_putc :: "UART \<Rightarrow> u8 \<Rightarrow> UART" where
  "uart_putc u c = u\<lparr>tx := tx u @ [c]\<rparr>"

text \<open>\<open>operator<<\<close> for a string stops at the terminating zero; without one it reads past the end.\<close>

fun uart_puts :: "UART \<Rightarrow> u8 list \<Rightarrow> UART option" where
  "uart_puts u [] = None"
| "uart_puts u (c # s) = (if c = 0 then Some u else uart_puts (uart_putc u c) s)"

text \<open>\<open>readByte\<close> stores every word that the device has; the store truncates it to 8 bits.\<close>

fun readByte :: "UART \<Rightarrow> u32 list \<Rightarrow> UART option" where
  "readByte u [] = Some u"
| "readByte u (d # rx) =
     (if bufferIndex u < length (uart_buffer u)
      then readByte (u\<lparr>uart_buffer := (uart_buffer u)[bufferIndex u := ucast d],
                       bufferIndex := (if bufferIndex u + 1 \<ge> bufferSize then 0 else bufferIndex u + 1)\<rparr>) rx
      else None)"

text \<open>\<open>handleInterrupt\<close> with the status word, the words available to the first and, when the
  timeout bit is set too, to the second call of \<open>readByte\<close>. The log messages are left out.\<close>

definition uart_handleInterrupt :: "UART \<Rightarrow> u32 \<Rightarrow> u32 list \<Rightarrow> u32 list \<Rightarrow> UART option" where
  "uart_handleInterrupt u status rx1 rx2 = do {
     u1 \<leftarrow> (if status AND UART_Receive \<noteq> 0 then readByte u rx1 else Some u);
     u2 \<leftarrow> (if status AND UART_ReceiveTimeout \<noteq> 0 then readByte u1 rx2 else Some u1);
     Some (u2\<lparr>ICR := status\<rparr>) }"

section \<open>File contexts\<close>

text \<open>A context is the driver it refers to together with its position.\<close>

record UARTContext =
  ctx_uart :: UART
  ctx_pos :: nat

definition UARTContext_init :: "UART \<Rightarrow> UARTContext" where
  "UARTContext_init u = \<lparr>ctx_uart = u, ctx_pos = bufferIndex u\<rparr>"

definition UARTContext_copy :: "UARTContext \<Rightarrow> UARTContext" where
  "UARTContext_copy x = (UARTContext_init (ctx_uart x))\<lparr>ctx_pos := ctx_pos x\<rparr>"

definition uart_adv :: "UARTContext \<Rightarrow> UARTContext" where
  "uart_adv x = x\<lparr>ctx_pos := (if ctx_pos x + 1 \<ge> bufferSize then 0 else ctx_pos x + 1)\<rparr>"

primrec uart_read_loop :: "nat \<Rightarrow> UARTContext \<Rightarrow> (u8 list \<times> UARTContext) option" where
  "uart_read_loop 0 x = Some ([], x)"
| "uart_read_loop (Suc m) x =
     (if ctx_pos x = bufferIndex (ctx_uart x) then Some ([], x)
      else if ctx_pos x < length (uart_buffer (ctx_uart x))
      then do { (xs, x') \<leftarrow> uart_read_loop m (uart_adv x);
                Some (uart_buffer (ctx_uart x) ! ctx_pos x # xs, x') }
      else None)"

definition UARTContext_read :: "UARTContext \<Rightarrow> int \<Rightarrow> (int \<times> u8 list \<times> UARTContext) option" where
  "UARTContext_read x n = do { (xs, x') \<leftarrow> uart_read_loop (nat n) x; Some (int (length xs), xs, x') }"

fun uart_write_loop :: "UART \<Rightarrow> u8 list \<Rightarrow> UART" where
  "uart_write_loop u [] = u"
| "uart_write_loop u (c # s) =
     uart_write_loop (if c = 10 then uart_putc (uart_putc u c) 13 else uart_putc u c) s"

definition UARTContext_write :: "UARTContext \<Rightarrow> u8 list \<Rightarrow> int \<Rightarrow> (int \<times> UARTContext) option" where
  "UARTContext_write x s n =
     (if nat n \<le> length s
      then Some (n, x\<lparr>ctx_uart := uart_write_loop (ctx_uart x) (take (nat n) s)\<rparr>) else None)"

section \<open>Receiving\<close>

definition uart_inv :: "UARTContext \<Rightarrow> bool" where
  "uart_inv x \<longleftrightarrow> length (uart_buffer (ctx_uart x)) = bufferSize \<and> bufferIndex (ctx_uart x) < bufferSize
     \<and> ctx_pos x < bufferSize"

definition uart_pending :: "UARTContext \<Rightarrow> u8 list" where
  "uart_pending x = ring (uart_buffer (ctx_uart x)) (ctx_pos x) (bufferIndex (ctx_uart x))"

interpretation uartring: ring_reader "\<lambda>x. uart_buffer (ctx_uart x)" ctx_pos "\<lambda>x. bufferIndex (ctx_uart x)"
    bufferSize uart_adv uart_read_loop
  by unfold_locales (auto simp: uart_adv_def ring_next_def bind_Some_map)

lemma readByte_pending:
  assumes "uart_inv x" "length (uart_pending x) + length rx \<le> bufferSize - 1"
  shows "\<exists>u'. readByte (ctx_uart x) rx = Some u' \<and> uart_inv (x\<lparr>ctx_uart := u'\<rparr>)
    \<and> uart_pending (x\<lparr>ctx_uart := u'\<rparr>) = uart_pending x @ map ucast rx"
  using assms
proof (induction rx arbitrary: x)
  case Nil
  then show ?case by simp
next
  case (Cons d rx)
  let ?u = "ctx_uart x"
  let ?u1 = "?u\<lparr>uart_buffer := (uart_buffer ?u)[bufferIndex ?u := ucast d],
      bufferIndex := (if bufferIndex ?u + 1 \<ge> bufferSize then 0 else bufferIndex ?u + 1)\<rparr>"
  have nx: "(if bufferIndex ?u + 1 \<ge> bufferSize then 0 else bufferIndex ?u + 1) = ring_next bufferSize (bufferIndex ?u)"
    by (simp add: ring_next_def)
  have l: "length (uart_buffer ?u) = bufferSize" "bufferIndex ?u < bufferSize" "ctx_pos x < bufferSize"
    using Cons.prems(1) by (auto simp: uart_inv_def)
  have room: "ring_next bufferSize (bufferIndex ?u) \<noteq> ctx_pos x"
    using Cons.prems(2) ring_full_iff[OF l(3,2)] l(1) by (auto simp: uart_pending_def length_ring)
  have i1: "uart_inv (x\<lparr>ctx_uart := ?u1\<rparr>)" unfolding nx uart_inv_def using l ring_next_less[OF l(2)] by simp
  have p1: "uart_pending (x\<lparr>ctx_uart := ?u1\<rparr>) = uart_pending x @ [ucast d]"
    unfolding nx uart_pending_def
    using ring_write_step[of "ctx_pos x" "uart_buffer ?u" "bufferIndex ?u"] l room by simp
  have "length (uart_pending (x\<lparr>ctx_uart := ?u1\<rparr>)) + length rx \<le> bufferSize - 1"
    using p1 Cons.prems(2) by simp
  from Cons.IH[OF i1 this] show ?case using l p1 by simp
qed

lemma uart_write_loop_tx:
  "uart_write_loop u s = u\<lparr>tx := tx u @ concat (map (\<lambda>c. if c = 10 then [10, 13] else [c]) s)\<rparr>"
  by (induction u s rule: uart_write_loop.induct) (auto simp: uart_putc_def)

section \<open>Properties\<close>

text \<open>C23: bytes received by a receive interrupt reach every open context in order: as long as the
  context has fewer than 4096 bytes outstanding, what it reads afterwards is its pending bytes
  followed by the low bytes of the words received.\<close>

theorem uart_receive_then_read:
  assumes "uart_inv x" and "status AND UART_Receive \<noteq> 0" and "status AND UART_ReceiveTimeout = 0"
    and "length (uart_pending x) + length rx \<le> 4095"
  shows "\<exists>u' x'. uart_handleInterrupt (ctx_uart x) status rx [] = Some u' \<and> ICR u' = status
    \<and> UARTContext_read (x\<lparr>ctx_uart := u'\<rparr>) n
        = Some (int (min (nat n) (length (uart_pending x) + length rx)),
                take (nat n) (uart_pending x @ map ucast rx), x')
    \<and> uart_inv x' \<and> uart_pending x' = drop (nat n) (uart_pending x @ map ucast rx)"
proof -
  obtain u' where r: "readByte (ctx_uart x) rx = Some u'" "uart_inv (x\<lparr>ctx_uart := u'\<rparr>)"
    "uart_pending (x\<lparr>ctx_uart := u'\<rparr>) = uart_pending x @ map ucast rx"
    using readByte_pending[OF assms(1), of rx] assms(4) by (auto simp: bufferSize_def)
  let ?x = "x\<lparr>ctx_uart := u'\<lparr>ICR := status\<rparr>\<rparr>"
  have x: "uart_inv ?x" "uart_pending ?x = uart_pending x @ map ucast rx"
    using r(2,3) by (simp_all add: uart_inv_def uart_pending_def)
  obtain x' where d: "uart_read_loop (nat n) ?x = Some (take (nat n) (uart_pending ?x), x')"
    "uart_buffer (ctx_uart x') = uart_buffer (ctx_uart ?x)" "bufferIndex (ctx_uart x') = bufferIndex (ctx_uart ?x)"
    "ctx_pos x' < bufferSize" "ring (uart_buffer (ctx_uart ?x)) (ctx_pos x') (bufferIndex (ctx_uart ?x))
      = drop (nat n) (uart_pending ?x)"
    using uartring.drain_prefix[of ?x "nat n"] x(1) unfolding uart_inv_def uart_pending_def by blast
  have "uart_inv x'" "uart_pending x' = drop (nat n) (uart_pending x @ map ucast rx)"
    using d(2-5) x by (simp_all add: uart_inv_def uart_pending_def)
  then show ?thesis using r(1) assms(2,3) d(1) x(2)
    by (intro exI[of _ "u'\<lparr>ICR := status\<rparr>"] exI[of _ x'])
       (simp add: uart_handleInterrupt_def UARTContext_read_def min.commute)
qed

definition sample_uart :: UARTContext where
  "sample_uart = UARTContext_init UART_init"

theorem uart_receive_then_read_witness:
  "\<exists>u' x'. uart_handleInterrupt (ctx_uart sample_uart) 0x10 [0x141, 0x42] [] = Some u' \<and> ICR u' = 0x10
    \<and> UARTContext_read (sample_uart\<lparr>ctx_uart := u'\<rparr>) 8
        = Some (int (min (nat 8) (length (uart_pending sample_uart) + length [0x141 :: u32, 0x42])),
                take (nat 8) (uart_pending sample_uart @ map ucast [0x141 :: u32, 0x42]), x')
    \<and> uart_inv x' \<and> uart_pending x' = drop (nat 8) (uart_pending sample_uart @ map ucast [0x141 :: u32, 0x42])"
  by (rule uart_receive_then_read)
     (simp_all add: sample_uart_def UARTContext_init_def UART_init_def uart_inv_def bufferSize_def
        uart_pending_def UART_Receive_def UART_ReceiveTimeout_def)

end
