(* ===== verification/Context.thy ===== *)
theory Context
  imports Cros_Prelude
begin

text \<open>
  The saved processor state of \<^verbatim>\<open>src/sched/aarch64/context.cpp\<close> and the string routines of
  \<^verbatim>\<open>src/util/string.cpp\<close> it uses. Memory is a function from addresses to bytes. A C string is
  the list of its bytes without the terminating zero; the code reads it from memory.
\<close>

section \<open>Memory\<close>

type_synonym memory = "u64 \<Rightarrow> u8"

text \<open>The loops of \<open>memcpy\<close> and \<open>memset\<close> store one byte after the other.\<close>

fun store_bytes :: "memory \<Rightarrow> u64 \<Rightarrow> u8 list \<Rightarrow> memory" where
  "store_bytes m a [] = m"
| "store_bytes m a (b # bs) = store_bytes (m(a := b)) (a + 1) bs"

definition load_bytes :: "memory \<Rightarrow> u64 \<Rightarrow> nat \<Rightarrow> u8 list" where
  "load_bytes m a n = map (\<lambda>i. m (a + of_nat i)) [0..<n]"

primrec memcpy_loop :: "nat \<Rightarrow> memory \<Rightarrow> u64 \<Rightarrow> u64 \<Rightarrow> memory" where
  "memcpy_loop 0 m d s = m"
| "memcpy_loop (Suc n) m d s = memcpy_loop n (m(d := m s)) (d + 1) (s + 1)"

definition memcpy :: "memory \<Rightarrow> u64 \<Rightarrow> u64 \<Rightarrow> nat \<Rightarrow> memory" where
  "memcpy m dest src count = memcpy_loop count m dest src"

definition memset :: "memory \<Rightarrow> u64 \<Rightarrow> int \<Rightarrow> int \<Rightarrow> memory" where
  "memset m s sz v = store_bytes m s (replicate (nat sz) (word_of_int v))"

text \<open>\<open>strlen\<close> and \<open>strcpy\<close> walk to the terminating zero; without one they do not return.\<close>

partial_function (option) strlen_from :: "memory \<Rightarrow> u64 \<Rightarrow> nat option" where
  "strlen_from m s = (if m s = 0 then Some 0 else do { n \<leftarrow> strlen_from m (s + 1); Some (Suc n) })"

definition strlen :: "memory \<Rightarrow> u64 \<Rightarrow> nat option" where
  "strlen m s = (if s = 0 then Some 0 else strlen_from m s)"

partial_function (option) strcpy_loop :: "memory \<Rightarrow> u64 \<Rightarrow> u64 \<Rightarrow> memory option" where
  "strcpy_loop m dest src =
     (if m src \<noteq> 0 then strcpy_loop (m(dest := m src)) (dest + 1) (src + 1)
      else Some (m(dest := 0)))"

definition strcpy :: "memory \<Rightarrow> u64 \<Rightarrow> u64 \<Rightarrow> memory option" where
  "strcpy m dest src = (if dest = 0 \<or> src = 0 then Some m else strcpy_loop m dest src)"

declare strlen_from.simps [code] strcpy_loop.simps [code]

text \<open>A store and a load of an \<open>unsigned long\<close>.\<close>

definition store_long :: "memory \<Rightarrow> u64 \<Rightarrow> u64 \<Rightarrow> memory" where
  "store_long m a v = store_bytes m a (le_bytes 8 v)"

definition load_long :: "memory \<Rightarrow> u64 \<Rightarrow> u64" where
  "load_long m a = le_word (load_bytes m a 8)"

section \<open>Contexts\<close>

record Context =
  fpRegs :: "u64 list"
  gpRegs :: "u64 list"
  stackPointer :: u64
  programCounter :: u64
  programStatus :: u64
  fpcr :: u64
  fpsr :: u64
  kernelStack :: u64

text \<open>The constructor without arguments leaves \<open>kernelStack\<close> as it finds it: \<open>old\<close>.\<close>

definition Context_init0 :: "u64 \<Rightarrow> Context" where
  "Context_init0 old = \<lparr>fpRegs = replicate 64 0, gpRegs = map of_nat [0..<31], stackPointer = 0,
     programCounter = 0, programStatus = 0, fpcr = 0, fpsr = 0, kernelStack = old\<rparr>"

definition Context_init3 :: "u64 \<Rightarrow> u64 \<Rightarrow> u64 \<Rightarrow> Context" where
  "Context_init3 pc sp ksp = \<lparr>fpRegs = replicate 64 0, gpRegs = map of_nat [0..<31], stackPointer = sp,
     programCounter = pc, programStatus = 0, fpcr = 0, fpsr = 0, kernelStack = ksp\<rparr>"

definition Context_init1 :: "u64 \<Rightarrow> Context" where "Context_init1 pc = Context_init3 pc 0 0"
definition Context_init2 :: "u64 \<Rightarrow> u64 \<Rightarrow> Context" where "Context_init2 pc sp = Context_init3 pc sp 0"

definition functionCall :: "Context \<Rightarrow> u64 \<Rightarrow> u64 \<Rightarrow> u64 \<Rightarrow> Context" where
  "functionCall c func_ptr returnLoc arg = c\<lparr>programCounter := func_ptr,
     gpRegs := ((gpRegs c)[30 := returnLoc])[0 := arg]\<rparr>"

definition setProgramCounter :: "Context \<Rightarrow> u64 \<Rightarrow> Context" where
  "setProgramCounter c pc = c\<lparr>programCounter := pc\<rparr>"

definition setStackPointer :: "Context \<Rightarrow> u64 \<Rightarrow> Context" where
  "setStackPointer c sp = c\<lparr>stackPointer := sp\<rparr>"

definition setKernelStack :: "Context \<Rightarrow> u64 \<Rightarrow> Context" where
  "setKernelStack c sp = c\<lparr>kernelStack := sp\<rparr>"

definition setProcessArgs :: "Context \<Rightarrow> int \<Rightarrow> u64 \<Rightarrow> u64 \<Rightarrow> Context" where
  "setProcessArgs c argc argv envp =
     c\<lparr>gpRegs := (((gpRegs c)[0 := word_of_int argc])[1 := argv])[2 := envp]\<rparr>"

definition setReturnValue :: "Context \<Rightarrow> u64 \<Rightarrow> Context" where
  "setReturnValue c v = c\<lparr>gpRegs := (gpRegs c)[0 := v]\<rparr>"

definition pushLong :: "memory \<Rightarrow> Context \<Rightarrow> u64 \<Rightarrow> memory \<times> Context" where
  "pushLong m c v = (let sp = stackPointer c - 8 in (store_long m sp v, c\<lparr>stackPointer := sp\<rparr>))"

definition pushString :: "memory \<Rightarrow> Context \<Rightarrow> u64 \<Rightarrow> (memory \<times> Context) option" where
  "pushString m c str = do {
     l \<leftarrow> strlen m str;
     let len0 = l + 1 + 15;
     let len = len0 - len0 mod 16;
     let sp = stackPointer c - of_nat len;
     m' \<leftarrow> strcpy m sp str;
     Some (m', c\<lparr>stackPointer := sp\<rparr>) }"

section \<open>Bytes and strings in memory\<close>

text \<open>All addresses of a span of \<open>n\<close> bytes at \<open>a\<close>, which does not wrap around.\<close>

definition in_span :: "u64 \<Rightarrow> u64 \<Rightarrow> nat \<Rightarrow> bool" where
  "in_span x a n \<longleftrightarrow> unat a \<le> unat x \<and> unat x < unat a + n"

lemma store_bytes_outside:
  assumes "unat a + length bs \<le> 2 ^ 64" "\<not> in_span x a (length bs)"
  shows "store_bytes m a bs x = m x"
  using assms
proof (induction bs arbitrary: m a)
  case (Cons b bs)
  have ax: "x \<noteq> a" using Cons.prems(2) by (auto simp: in_span_def)
  show ?case
  proof (cases bs)
    case Nil
    then show ?thesis using ax by simp
  next
    case (Cons c cs)
    have u: "unat (a + 1) = unat a + 1" using Cons.prems(1) Cons by (intro unat_suc) simp
    have "store_bytes (m(a := b)) (a + 1) bs x = (m(a := b)) x"
      by (rule Cons.IH) (use Cons.prems u in \<open>auto simp: in_span_def\<close>)
    then show ?thesis using ax by simp
  qed
qed simp

lemma store_bytes_at:
  assumes "unat a + length bs \<le> 2 ^ 64" "i < length bs"
  shows "store_bytes m a bs (a + of_nat i) = bs ! i"
  using assms
proof (induction bs arbitrary: m a i)
  case (Cons b bs)
  show ?case
  proof (cases i)
    case 0
    show ?thesis
    proof (cases bs)
      case (Cons c cs)
      have u: "unat (a + 1) = unat a + 1" using Cons.prems(1) Cons by (intro unat_suc) simp
      have "store_bytes (m(a := b)) (a + 1) bs a = (m(a := b)) a"
        by (rule store_bytes_outside) (use Cons.prems u in \<open>auto simp: in_span_def\<close>)
      then show ?thesis using 0 by simp
    qed (use 0 in simp)
  next
    case (Suc j)
    have u: "unat (a + 1) = unat a + 1"
      using Cons.prems Suc by (intro unat_suc) simp
    have "store_bytes (m(a := b)) (a + 1) bs (a + 1 + of_nat j) = bs ! j"
      by (rule Cons.IH) (use Cons.prems u Suc in auto)
    then show ?thesis using Suc by (simp add: algebra_simps)
  qed
qed simp

lemma load_store_bytes:
  assumes "unat a + length bs \<le> 2 ^ 64"
  shows "load_bytes (store_bytes m a bs) a (length bs) = bs"
  using store_bytes_at[OF assms] by (auto simp: load_bytes_def intro: nth_equalityI)

text \<open>The memory outside the addresses from \<open>lo\<close> up to \<open>hi\<close> is unchanged.\<close>

definition same_outside :: "nat \<Rightarrow> nat \<Rightarrow> memory \<Rightarrow> memory \<Rightarrow> bool" where
  "same_outside lo hi m m' \<longleftrightarrow> (\<forall>x. unat x < lo \<or> hi \<le> unat x \<longrightarrow> m' x = m x)"

text \<open>The \<open>n\<close> bytes at \<open>a\<close> do not wrap around and lie outside the addresses from \<open>lo\<close> up to \<open>hi\<close>.\<close>

definition clear_of :: "nat \<Rightarrow> nat \<Rightarrow> u64 \<Rightarrow> nat \<Rightarrow> bool" where
  "clear_of lo hi a n \<longleftrightarrow> unat a + n \<le> 2 ^ 64 \<and> (unat a + n \<le> lo \<or> hi \<le> unat a)"

definition cstr :: "memory \<Rightarrow> u64 \<Rightarrow> u8 list \<Rightarrow> bool" where
  "cstr m s bs \<longleftrightarrow> s \<noteq> 0 \<and> 0 \<notin> set bs \<and> load_bytes m s (length bs + 1) = bs @ [0]"

lemma same_outside_refl [simp]: "same_outside lo hi m m"
  by (simp add: same_outside_def)

lemma same_outside_trans:
  assumes "same_outside lo hi m m'" "same_outside lo' hi' m' m''" "lo'' \<le> lo" "lo'' \<le> lo'" "hi \<le> hi''" "hi' \<le> hi''"
  shows "same_outside lo'' hi'' m m''"
  using assms unfolding same_outside_def by (metis dual_order.trans order_less_le_trans)

lemma same_outside_mono:
  "same_outside lo hi m m' \<Longrightarrow> lo' \<le> lo \<Longrightarrow> hi \<le> hi' \<Longrightarrow> same_outside lo' hi' m m'"
  using same_outside_trans[of lo hi m m' lo hi m' lo' hi'] by simp

lemma clear_of_mono:
  "clear_of lo hi a n \<Longrightarrow> lo \<le> lo' \<Longrightarrow> hi' \<le> hi \<Longrightarrow> k \<le> n \<Longrightarrow> clear_of lo' hi' a k"
  by (auto simp: clear_of_def)

lemma load_bytes_same:
  assumes "same_outside lo hi m m'" "clear_of lo hi a n"
  shows "load_bytes m' a n = load_bytes m a n"
proof -
  have "m' (a + of_nat i) = m (a + of_nat i)" if "i < n" for i
  proof -
    have "unat (a + of_nat i) = unat a + i" using assms(2) that by (intro unat_add_of_nat) (auto simp: clear_of_def)
    then show ?thesis using assms that by (auto simp: same_outside_def clear_of_def)
  qed
  then show ?thesis by (simp add: load_bytes_def)
qed

lemma load_long_same:
  "same_outside lo hi m m' \<Longrightarrow> clear_of lo hi a 8 \<Longrightarrow> load_long m' a = load_long m a"
  by (simp add: load_long_def load_bytes_same)

lemma cstr_same:
  "cstr m s bs \<Longrightarrow> same_outside lo hi m m' \<Longrightarrow> clear_of lo hi s (length bs + 1) \<Longrightarrow> cstr m' s bs"
  by (simp add: cstr_def load_bytes_same del: One_nat_def add_Suc_right)

lemma store_bytes_same_outside:
  assumes "unat a + length bs \<le> 2 ^ 64"
  shows "same_outside (unat a) (unat a + length bs) m (store_bytes m a bs)"
  using store_bytes_outside[OF assms] by (fastforce simp: same_outside_def in_span_def)

lemma load_long_store_long:
  assumes "unat a + 8 \<le> 2 ^ 64"
  shows "load_long (store_long m a v) a = v"
  using load_store_bytes[of a "le_bytes 8 v" m] assms
  by (simp add: load_long_def store_long_def le_word_bytes)

lemma load_bytes_Suc: "load_bytes m a (Suc n) = m a # load_bytes m (a + 1) n"
  by (simp add: load_bytes_def upt_conv_Cons map_Suc_upt[symmetric] algebra_simps comp_def del: upt_Suc)

lemma strlen_from_cstr:
  "load_bytes m s (length bs + 1) = bs @ [0] \<Longrightarrow> 0 \<notin> set bs \<Longrightarrow> strlen_from m s = Some (length bs)"
proof (induction bs arbitrary: s)
  case Nil
  then show ?case by (subst strlen_from.simps) (simp add: load_bytes_Suc)
next
  case (Cons b bs)
  then have "strlen_from m (s + 1) = Some (length bs)" by (simp add: load_bytes_Suc)
  then show ?case using Cons.prems by (subst strlen_from.simps) (auto simp: load_bytes_Suc)
qed

lemma strlen_cstr: "cstr m s bs \<Longrightarrow> strlen m s = Some (length bs)"
  by (simp add: cstr_def strlen_def strlen_from_cstr)

lemma strcpy_loop_cstr:
  assumes "load_bytes m s (length bs + 1) = bs @ [0]" "0 \<notin> set bs"
    and "unat d + length bs < 2 ^ 64" "clear_of (unat d) (unat d + length bs + 1) s (length bs + 1)"
  shows "strcpy_loop m d s = Some (store_bytes m d (bs @ [0]))"
  using assms
proof (induction bs arbitrary: m s d)
  case Nil
  then show ?case by (subst strcpy_loop.simps) (simp add: load_bytes_Suc)
next
  case (Cons b bs)
  have d1: "unat (d + 1) = unat d + 1" using Cons.prems(3) by (intro unat_suc) simp
  have s1: "unat (s + 1) = unat s + 1"
    using Cons.prems(4) by (intro unat_suc) (auto simp: clear_of_def)
  have out: "same_outside (unat d) (unat d + 1) m (m(d := b))" by (auto simp: same_outside_def)
  have "load_bytes (m(d := b)) (s + 1) (length bs + 1) = bs @ [0]"
    using load_bytes_same[OF out, of "s + 1" "length bs + 1"] Cons.prems(1,4) s1
    by (auto simp: clear_of_def load_bytes_Suc)
  then have "strcpy_loop (m(d := b)) (d + 1) (s + 1) = Some (store_bytes (m(d := b)) (d + 1) (bs @ [0]))"
    by (rule Cons.IH) (use Cons.prems(2-4) d1 s1 in \<open>auto simp: clear_of_def\<close>)
  then show ?case using Cons.prems(1,2) by (subst strcpy_loop.simps) (auto simp: load_bytes_Suc)
qed

text \<open>The bytes \<open>pushString\<close> takes from the stack: the string and its zero, up to a multiple of 16.\<close>

definition padded :: "u8 list \<Rightarrow> nat" where
  "padded bs = 16 * ((length bs + 16) div 16)"

lemma padded_gt: "length bs < padded bs"
  unfolding padded_def by presburger

lemma pushString_cstr:
  assumes "cstr m s bs" "padded bs < unat (stackPointer c)"
    and "clear_of (unat (stackPointer c) - padded bs) (unat (stackPointer c)) s (length bs + 1)"
  shows "\<exists>m'. pushString m c s = Some (m', c\<lparr>stackPointer := stackPointer c - of_nat (padded bs)\<rparr>)
    \<and> same_outside (unat (stackPointer c) - padded bs) (unat (stackPointer c)) m m'
    \<and> cstr m' (stackPointer c - of_nat (padded bs)) bs"
proof -
  define sp where "sp = stackPointer c - of_nat (padded bs)"
  have len: "length bs + 1 + 15 - (length bs + 1 + 15) mod 16 = padded bs"
  proof -
    have "length bs + 1 + 15 = length bs + 16" by simp
    then show ?thesis unfolding padded_def by (metis minus_mod_eq_mult_div)
  qed
  have u: "unat sp = unat (stackPointer c) - padded bs"
    unfolding sp_def using assms(2) by (intro unat_sub_of_nat) simp
  have lt: "unat (stackPointer c) < 2 ^ 64" using unsigned_less[of "stackPointer c", where ?'a = nat] by simp
  have gt: "length bs < padded bs" by (rule padded_gt)
  have sp0: "sp \<noteq> 0" using u assms(2) by auto
  have fit: "unat sp + length (bs @ [0]) \<le> unat (stackPointer c)" using u gt assms(2) by simp
  have cpy: "strcpy m sp s = Some (store_bytes m sp (bs @ [0]))"
    using assms(1) sp0 strcpy_loop_cstr[of m s bs sp] fit lt u assms(2,3)
    by (auto simp: strcpy_def cstr_def clear_of_def)
  have out: "same_outside (unat sp) (unat (stackPointer c)) m (store_bytes m sp (bs @ [0]))"
    by (rule same_outside_mono[OF store_bytes_same_outside]) (use fit lt in auto)
  have "load_bytes (store_bytes m sp (bs @ [0])) sp (length (bs @ [0])) = bs @ [0]"
    by (rule load_store_bytes) (use fit lt in simp)
  then have "cstr (store_bytes m sp (bs @ [0])) sp bs" using assms(1) sp0 by (simp add: cstr_def)
  moreover have "pushString m c s = Some (store_bytes m sp (bs @ [0]), c\<lparr>stackPointer := sp\<rparr>)"
    unfolding pushString_def strlen_cstr[OF assms(1)] Let_def bind.bind_lunit len sp_def[symmetric] cpy ..
  ultimately show ?thesis using out u unfolding sp_def by metis
qed

end
