(* ===== verification/Cstring.thy ===== *)
theory Cstring
  imports Cros_Prelude
begin

text \<open>
  The string class, \<^verbatim>\<open>src/containers/string.cpp\<close>. A \<open>char *\<close> is the array behind it, from the
  pointer on, and an access behind the end of the array is the value \<open>None\<close>. Fresh arrays hold
  unspecified bytes, given by the parameter \<open>junk\<close>. A \<open>string\<close> is its array \<open>s\<close>; the operations
  return the new array. The second part relates them to operations on the text before the
  terminator.
\<close>

section \<open>Character arrays\<close>

type_synonym chars = "u8 list"

definition new_array :: "(nat \<Rightarrow> u8) \<Rightarrow> nat \<Rightarrow> chars" where "new_array junk n = map junk [0..<n]"

primrec string_strlen :: "chars \<Rightarrow> int option" where
  "string_strlen [] = None"
| "string_strlen (c # cs) = (if c = 0 then Some 0 else map_option (\<lambda>n. n + 1) (string_strlen cs))"

fun string_strcmp :: "chars \<Rightarrow> chars \<Rightarrow> bool option" where
  "string_strcmp (a # as) (b # bs) = (if a \<noteq> 0 \<and> b \<noteq> 0 \<and> a = b then string_strcmp as bs else Some (a = b))"
| "string_strcmp _ _ = None"

text \<open>The copying loops: \<open>copy_until\<close> stores the characters of \<open>src\<close> before its terminator, at most
  \<open>n\<close> of them when a bound is given, from position \<open>i\<close> of \<open>dest\<close> on, and returns the next position.\<close>

fun copy_until :: "nat option \<Rightarrow> chars \<Rightarrow> nat \<Rightarrow> chars \<Rightarrow> (nat \<times> chars) option" where
  "copy_until n dest i [] = None"
| "copy_until n dest i (c # src) = (if c \<noteq> 0 \<and> n \<noteq> Some 0
     then (if i < length dest then copy_until (map_option (\<lambda>k. k - 1) n) (dest[i := c]) (i + 1) src else None)
     else Some (i, dest))"

definition terminate_at :: "nat \<Rightarrow> chars \<Rightarrow> chars option" where
  "terminate_at i dest = (if i < length dest then Some (dest[i := 0]) else None)"

definition string_strcpy :: "(nat \<Rightarrow> u8) \<Rightarrow> chars \<Rightarrow> chars option" where
  "string_strcpy junk src = do {
     len \<leftarrow> string_strlen src;
     (i, dest) \<leftarrow> copy_until None (new_array junk (nat (len + 1))) 0 src;
     terminate_at i dest }"

definition string_strncpy :: "(nat \<Rightarrow> u8) \<Rightarrow> chars \<Rightarrow> int \<Rightarrow> chars option" where
  "string_strncpy junk src len = do {
     (i, dest) \<leftarrow> copy_until (Some (nat len)) (new_array junk (nat (len + 1))) 0 src;
     terminate_at i dest }"

definition string_strdup :: "(nat \<Rightarrow> u8) \<Rightarrow> chars \<Rightarrow> chars option" where
  "string_strdup junk s = string_strcpy junk s"

definition string_strcat :: "(nat \<Rightarrow> u8) \<Rightarrow> chars option \<Rightarrow> chars \<Rightarrow> chars option" where
  "string_strcat junk dest src = (case dest of
     None \<Rightarrow> string_strdup junk src
   | Some d \<Rightarrow> do {
       len_dest \<leftarrow> string_strlen d;
       len_src \<leftarrow> string_strlen src;
       (i, t1) \<leftarrow> copy_until None (new_array junk (nat (len_dest + len_src + 1))) 0 d;
       (j, t2) \<leftarrow> copy_until None t1 i src;
       terminate_at j t2 })"

definition substr_from :: "(nat \<Rightarrow> u8) \<Rightarrow> chars \<Rightarrow> int \<Rightarrow> chars option" where
  "substr_from junk str start_index = string_strcpy junk (drop (nat start_index) str)"

definition substr_range :: "(nat \<Rightarrow> u8) \<Rightarrow> chars \<Rightarrow> int \<Rightarrow> int \<Rightarrow> chars option" where
  "substr_range junk str start_index end_index = do {
     let len = end_index - start_index;
     t \<leftarrow> string_strncpy junk (drop (nat start_index) str) len;
     terminate_at (nat len) t }"

section \<open>Strings\<close>

definition string_init :: "(nat \<Rightarrow> u8) \<Rightarrow> chars option" where "string_init junk = string_strdup junk [0]"
definition string_of :: "(nat \<Rightarrow> u8) \<Rightarrow> chars \<Rightarrow> chars option" where "string_of junk other = string_strdup junk other"
definition string_copy :: "(nat \<Rightarrow> u8) \<Rightarrow> chars \<Rightarrow> chars option" where "string_copy junk other = string_strdup junk other"

definition string_size :: "chars \<Rightarrow> int option" where "string_size s = string_strlen s"

text \<open>Both comparison operators return \<open>string_strcmp\<close>, which is true for equal strings.\<close>

definition string_eq :: "chars \<Rightarrow> chars \<Rightarrow> bool option" where "string_eq s other = string_strcmp s other"
definition string_neq :: "chars \<Rightarrow> chars \<Rightarrow> bool option" where "string_neq s other = string_strcmp s other"

definition assign_char :: "(nat \<Rightarrow> u8) \<Rightarrow> chars \<Rightarrow> u8 \<Rightarrow> chars option" where
  "assign_char junk s c = string_strdup junk [c, 0]"
definition assign_chars :: "(nat \<Rightarrow> u8) \<Rightarrow> chars \<Rightarrow> chars \<Rightarrow> chars option" where
  "assign_chars junk s other = string_strdup junk other"

definition plus_chars :: "(nat \<Rightarrow> u8) \<Rightarrow> chars \<Rightarrow> chars \<Rightarrow> chars option" where
  "plus_chars junk s other = do { r \<leftarrow> string_strcpy junk s; string_strcat junk (Some r) other }"
definition plus_char :: "(nat \<Rightarrow> u8) \<Rightarrow> chars \<Rightarrow> u8 \<Rightarrow> chars option" where
  "plus_char junk s c = do { r \<leftarrow> string_strcpy junk s; string_strcat junk (Some r) [c, 0] }"

definition append_char :: "(nat \<Rightarrow> u8) \<Rightarrow> chars \<Rightarrow> u8 \<Rightarrow> chars option" where
  "append_char junk s c = do { t \<leftarrow> string_strcpy junk s; string_strcat junk (Some t) [c, 0] }"
definition append_chars :: "(nat \<Rightarrow> u8) \<Rightarrow> chars \<Rightarrow> chars \<Rightarrow> chars option" where
  "append_chars junk s other = do { t \<leftarrow> string_strcpy junk s; string_strcat junk (Some t) other }"

definition string_at :: "chars \<Rightarrow> int \<Rightarrow> u8 option" where
  "string_at s index = (if 0 \<le> index \<and> nat index < length s then Some (s ! nat index) else None)"

definition string_substr :: "(nat \<Rightarrow> u8) \<Rightarrow> chars \<Rightarrow> int \<Rightarrow> chars option" where
  "string_substr junk s start_index = do {
     n \<leftarrow> string_strlen s;
     (if start_index < 0 \<or> start_index \<ge> n then string_init junk
      else string_of junk (drop (nat start_index) s)) }"

definition string_substr_to :: "(nat \<Rightarrow> u8) \<Rightarrow> chars \<Rightarrow> int \<Rightarrow> int \<Rightarrow> chars option" where
  "string_substr_to junk s start_index end_index = do {
     n \<leftarrow> string_strlen s;
     (if start_index < 0 \<or> start_index \<ge> n \<or> end_index \<le> start_index \<or> end_index > n then string_init junk
      else do {
        let length' = end_index - start_index;
        t \<leftarrow> string_strncpy junk (drop (nat start_index) s) length';
        t' \<leftarrow> terminate_at (nat length') t;
        string_of junk t' }) }"

section \<open>Strings as texts\<close>

text \<open>A string holds a text when its array is the text and a terminator.\<close>

definition holds :: "chars \<Rightarrow> u8 list \<Rightarrow> bool" where
  "holds s t \<longleftrightarrow> 0 \<notin> set t \<and> (\<exists>rest. s = t @ 0 # rest)"

definition txt_add :: "u8 list \<Rightarrow> u8 \<Rightarrow> u8 list" where
  "txt_add t c = (if c = 0 then t else t @ [c])"

definition txt_sub :: "u8 list \<Rightarrow> int \<Rightarrow> u8 list" where
  "txt_sub t a = (if a < 0 \<or> a \<ge> int (length t) then [] else drop (nat a) t)"

definition txt_sub_to :: "u8 list \<Rightarrow> int \<Rightarrow> int \<Rightarrow> u8 list" where
  "txt_sub_to t a b = (if a < 0 \<or> a \<ge> int (length t) \<or> b \<le> a \<or> b > int (length t) then []
     else take (nat (b - a)) (drop (nat a) t))"

lemma strlen_text: "0 \<notin> set t \<Longrightarrow> string_strlen (t @ 0 # r) = Some (int (length t))"
  by (induction t) auto

lemma strcmp_text: "0 \<notin> set t \<Longrightarrow> 0 \<notin> set u \<Longrightarrow> string_strcmp (t @ 0 # r) (u @ 0 # r') = Some (t = u)"
proof (induction t arbitrary: u)
  case Nil
  then show ?case by (cases u) auto
next
  case (Cons c t)
  then show ?case by (cases u) auto
qed

lemma copy_until_text:
  assumes "0 \<notin> set t" "i + length t \<le> length dest" "case n of None \<Rightarrow> True | Some k \<Rightarrow> length t \<le> k"
    "t' = 0 # r \<or> n = Some (length t) \<and> t' \<noteq> []"
  shows "copy_until n dest i (t @ t') = Some (i + length t, take i dest @ t @ drop (i + length t) dest)"
  using assms
proof (induction t arbitrary: n dest i)
  case Nil
  then show ?case by (cases t') auto
next
  case (Cons c t)
  have c: "c \<noteq> 0" "n \<noteq> Some 0" "i < length dest" using Cons.prems by (auto split: option.splits)
  have "copy_until (map_option (\<lambda>k. k - 1) n) (dest[i := c]) (i + 1) (t @ t')
      = Some (i + 1 + length t, take (i + 1) (dest[i := c]) @ t @ drop (i + 1 + length t) (dest[i := c]))"
    by (rule Cons.IH) (use Cons.prems in \<open>auto split: option.splits\<close>)
  then show ?case using c by (simp add: take_Suc_conv_app_nth take_update_cancel)
qed

lemma terminate_last: "length t = n \<Longrightarrow> terminate_at n (t @ [x]) = Some (t @ [0])"
  by (auto simp: terminate_at_def)

lemma length_new_array [simp]: "length (new_array junk n) = n"
  by (simp add: new_array_def)

lemma last_of_drop: "length xs = n + 1 \<Longrightarrow> \<exists>x. drop n xs = [x]"
  by (metis Cons_nth_drop_Suc Suc_eq_plus1 drop_all lessI order_refl)

lemma strcpy_text:
  assumes "0 \<notin> set t"
  shows "string_strcpy junk (t @ 0 # r) = Some (t @ [0])"
proof -
  obtain x where x: "drop (length t) (new_array junk (length t + 1)) = [x]"
    using last_of_drop[of "new_array junk (length t + 1)" "length t"] by auto
  have "nat (int (length t) + 1) = length t + 1" by simp
  then show ?thesis unfolding string_strcpy_def strlen_text[OF assms] bind.bind_lunit
    using copy_until_text[OF assms, of 0 "new_array junk (length t + 1)" None "0 # r" r] x
    by (simp add: terminate_last)
qed

lemma strncpy_text:
  assumes "0 \<notin> set t" "n \<le> length t"
  shows "string_strncpy junk (t @ 0 # r) (int n) = Some (take n t @ [0])"
proof -
  obtain x where x: "drop n (new_array junk (n + 1)) = [x]"
    using last_of_drop[of "new_array junk (n + 1)" n] by auto
  have z: "0 \<notin> set (take n t)" using assms(1) by (meson in_set_takeD)
  have e: "t @ 0 # r = take n t @ (drop n t @ 0 # r)" by simp
  have k: "nat (int n + 1) = n + 1" "nat (int n) = n" by simp_all
  show ?thesis unfolding string_strncpy_def e k
    using copy_until_text[OF z, of 0 "new_array junk (n + 1)" "Some n" "drop n t @ 0 # r" r] assms(2) x
    by (simp add: terminate_last min_absorb2)
qed

lemma strcat_text:
  assumes "0 \<notin> set t" "0 \<notin> set u"
  shows "string_strcat junk (Some (t @ 0 # r)) (u @ 0 # r') = Some (t @ u @ [0])"
proof -
  define A where "A = new_array junk (length t + length u + 1)"
  have lA: "length A = length t + length u + 1" by (simp add: A_def)
  have k: "nat (int (length t) + int (length u) + 1) = length t + length u + 1" by simp
  have c1: "copy_until None A 0 (t @ 0 # r) = Some (length t, t @ drop (length t) A)"
    using copy_until_text[OF assms(1), of 0 A None "0 # r" r] lA by simp
  have c2: "copy_until None (t @ drop (length t) A) (length t) (u @ 0 # r') = Some (length t + length u, t @ u @ drop (length t + length u) A)"
    using copy_until_text[OF assms(2), of "length t" "t @ drop (length t) A" None "0 # r'" r'] lA by (simp add: add.commute)
  obtain x where x: "drop (length t + length u) A = [x]" using last_of_drop[of A "length t + length u"] lA by auto
  show ?thesis unfolding string_strcat_def option.case strlen_text[OF assms(1)] strlen_text[OF assms(2)] bind.bind_lunit k A_def[symmetric] c1 prod.case c2 x
    using terminate_last[of "t @ u" "length t + length u" x] by simp
qed

text \<open>The operations of the class on texts.\<close>

lemma holds_text: "holds s t \<longleftrightarrow> 0 \<notin> set t \<and> (\<exists>r. s = t @ 0 # r)"
  by (simp add: holds_def)

lemma string_ops_hold:
  assumes "holds s t" "holds s' u"
  shows "string_size s = Some (int (length t))" "string_eq s s' = Some (t = u)"
    "\<exists>v. append_char junk s c = Some v \<and> holds v (txt_add t c)"
    "\<exists>v. append_chars junk s s' = Some v \<and> holds v (t @ u)"
    "\<exists>v. string_substr junk s a = Some v \<and> holds v (txt_sub t a)"
    "\<exists>v. string_substr_to junk s a b = Some v \<and> holds v (txt_sub_to t a b)"
proof -
  obtain r r' where s: "s = t @ 0 # r" "s' = u @ 0 # r'" "0 \<notin> set t" "0 \<notin> set u" using assms by (auto simp: holds_def)
  show "string_size s = Some (int (length t))" "string_eq s s' = Some (t = u)"
    using s by (simp_all add: string_size_def string_eq_def strlen_text strcmp_text)
  show "\<exists>v. append_char junk s c = Some v \<and> holds v (txt_add t c)"
    using s strcat_text[of t "[c]" junk "[]" "[]"] strcat_text[of t "[]" junk "[]" "[0]"]
    by (cases "c = 0") (auto simp: append_char_def strcpy_text holds_def txt_add_def)
  show "\<exists>v. append_chars junk s s' = Some v \<and> holds v (t @ u)"
    using s strcat_text[of t u junk "[]" r'] by (auto simp: append_chars_def strcpy_text holds_def)
  have init: "string_init junk = Some [0]" using strcpy_text[of "[]" junk "[]"] by (simp add: string_init_def string_strdup_def)
  show "\<exists>v. string_substr junk s a = Some v \<and> holds v (txt_sub t a)"
  proof (cases "a < 0 \<or> a \<ge> int (length t)")
    case True
    then show ?thesis using s init by (auto simp: string_substr_def strlen_text txt_sub_def holds_def)
  next
    case False
    then have "nat a \<le> length t" "0 \<notin> set (drop (nat a) t)" using s(3) by (auto dest: in_set_dropD)
    then show ?thesis using False s strcpy_text[of "drop (nat a) t" junk r]
      by (auto simp: string_substr_def string_of_def string_strdup_def strlen_text txt_sub_def holds_def)
  qed
  show "\<exists>v. string_substr_to junk s a b = Some v \<and> holds v (txt_sub_to t a b)"
  proof (cases "a < 0 \<or> a \<ge> int (length t) \<or> b \<le> a \<or> b > int (length t)")
    case True
    then show ?thesis using s init by (auto simp: string_substr_to_def strlen_text txt_sub_to_def holds_def)
  next
    case False
    let ?d = "drop (nat a) t" and ?n = "nat (b - a)"
    have le: "nat a \<le> length t" "?n \<le> length ?d" and z: "0 \<notin> set ?d" "0 \<notin> set (take ?n ?d)"
      using False s(3) by (auto dest: in_set_dropD in_set_takeD)
    have len: "int ?n = b - a" "length (take ?n ?d) = ?n" using False le(2) by auto
    have c: "string_strncpy junk (drop (nat a) s) (b - a) = Some (take ?n ?d @ [0])"
      using strncpy_text[OF z(1) le(2), of junk r] s(1) le(1) len(1) by simp
    have "terminate_at ?n (take ?n ?d @ [0]) = Some (take ?n ?d @ [0])" using len(2) by (rule terminate_last)
    moreover have "string_of junk (take ?n ?d @ [0]) = Some (take ?n ?d @ [0])"
      using strcpy_text[OF z(2), of junk "[]"] by (simp add: string_of_def string_strdup_def)
    ultimately have "string_substr_to junk s a b = Some (take ?n ?d @ [0])"
      using False s c by (simp add: string_substr_to_def strlen_text)
    then show ?thesis using False z(2) by (auto simp: holds_def txt_sub_to_def)
  qed
qed



end
