(* ===== verification/Fat_Disk.thy ===== *)
theory Fat_Disk
  imports Cstring "HOL-Library.Signed_Division"
begin

text \<open>
  The ground of the FAT32 file system: the byte conversions of \<^verbatim>\<open>src/fs/fat32/helpers.cpp\<close> and the
  disk of \<^verbatim>\<open>src/fs/fat32/disk_interface/disk_interface.cpp\<close>. A buffer is the list of its bytes, and
  the RAM disk a function on offsets with a size; an access outside of them is the value \<open>None\<close>.
  A C++ \<open>int\<close> is an integer here; a conversion from \<open>unsigned int\<close> is written out with \<open>sint\<close>.
  The division of the language, which truncates, is \<open>sdiv\<close> with the remainder \<open>smod\<close>.
\<close>

section \<open>Buffers\<close>

definition byte_at :: "u8 list \<Rightarrow> int \<Rightarrow> u8 option" where
  "byte_at b i = (if 0 \<le> i \<and> nat i < length b then Some (b ! nat i) else None)"

definition put_byte :: "u8 list \<Rightarrow> int \<Rightarrow> u8 \<Rightarrow> u8 list option" where
  "put_byte b i v = (if 0 \<le> i \<and> nat i < length b then Some (b[nat i := v]) else None)"

primrec temp_bytes :: "nat \<Rightarrow> u8 list \<Rightarrow> int \<Rightarrow> u8 list option" where
  "temp_bytes 0 b i = Some []"
| "temp_bytes (Suc n) b i = do { x \<leftarrow> byte_at b i; xs \<leftarrow> temp_bytes n b (i + 1); Some (x # xs) }"

definition bytes_to_short :: "u8 list \<Rightarrow> int \<Rightarrow> u16 option" where
  "bytes_to_short b index = map_option le_word (temp_bytes 2 b index)"
definition bytes_to_int :: "u8 list \<Rightarrow> int \<Rightarrow> u32 option" where
  "bytes_to_int b index = map_option le_word (temp_bytes 4 b index)"
definition bytes_to_long :: "u8 list \<Rightarrow> int \<Rightarrow> u64 option" where
  "bytes_to_long b index = map_option le_word (temp_bytes 8 b index)"

text \<open>The loop of the inverse conversions: byte \<open>i\<close> of \<open>num\<close> goes to \<open>offset + i\<close>.\<close>

primrec put_bytes :: "nat \<Rightarrow> 'a::len word \<Rightarrow> u8 list \<Rightarrow> int \<Rightarrow> u8 list option" where
  "put_bytes 0 num b offset = Some b"
| "put_bytes (Suc n) num b offset = do {
     b' \<leftarrow> put_bytes n num b offset;
     put_byte b' (int n + offset) (ucast (drop_bit (n * 8) num AND 0xFF)) }"

definition short_to_bytes :: "u16 \<Rightarrow> u8 list \<Rightarrow> int \<Rightarrow> u8 list option" where
  "short_to_bytes num b offset = put_bytes 2 num b offset"
definition int_to_bytes :: "u32 \<Rightarrow> u8 list \<Rightarrow> int \<Rightarrow> u8 list option" where
  "int_to_bytes num b offset = put_bytes 4 num b offset"
definition long_to_bytes :: "u64 \<Rightarrow> u8 list \<Rightarrow> int \<Rightarrow> u8 list option" where
  "long_to_bytes num b offset = put_bytes 8 num b offset"

definition chars_to_unicode :: "u8 \<Rightarrow> u8 \<Rightarrow> u32" where
  "chars_to_unicode first second = push_bit 8 (ucast first) OR ucast second"

section \<open>The disk\<close>

record Disk =
  dmem :: "int \<Rightarrow> u8"
  dsize :: int
  dsector :: int

text \<open>The constructor over a RAM disk; the size is that of the memory the loader provides.\<close>

definition DiskInterface_init :: "(int \<Rightarrow> u8) \<Rightarrow> int \<Rightarrow> int \<Rightarrow> Disk" where
  "DiskInterface_init ramfs n sector = \<lparr>dmem = ramfs, dsize = n, dsector = sector\<rparr>"

definition in_disk :: "Disk \<Rightarrow> int \<Rightarrow> bool" where
  "in_disk d sector_index \<longleftrightarrow> 0 \<le> dsector d * sector_index \<and> dsector d * sector_index + dsector d \<le> dsize d"

definition disk_read :: "Disk \<Rightarrow> int \<Rightarrow> u8 list option" where
  "disk_read d sector_index =
     (if in_disk d sector_index then Some (map (\<lambda>i. dmem d (int i + dsector d * sector_index)) [0..<nat (dsector d)]) else None)"

definition disk_write :: "Disk \<Rightarrow> int \<Rightarrow> u8 list \<Rightarrow> Disk option" where
  "disk_write d sector_index b =
     (if in_disk d sector_index \<and> nat (dsector d) \<le> length b
      then Some (d\<lparr>dmem := (\<lambda>x. if dsector d * sector_index \<le> x \<and> x < dsector d * sector_index + dsector d
                            then b ! nat (x - dsector d * sector_index) else dmem d x)\<rparr>)
      else None)"

section \<open>Round trips\<close>

lemma put_bytes_spec:
  assumes "0 \<le> off" "nat off + n \<le> length b"
  shows "put_bytes n v b off = Some (take (nat off) b @ le_bytes n v @ drop (nat off + n) b)"
  using assms
proof (induction n)
  case (Suc n)
  have m: "ucast (drop_bit (n * 8) v AND 0xFF) = (ucast (drop_bit (8 * n) v) :: u8)"
  proof (rule bit_word_eqI)
    fix i assume i: "i < LENGTH(8)"
    have m: "(0xFF :: 'a word) = mask 8" by (simp add: mask_eq_exp_minus_1)
    show "bit (ucast (drop_bit (n * 8) v AND 0xFF) :: u8) i = bit (ucast (drop_bit (8 * n) v) :: u8) i"
      unfolding m using i by (auto simp: bit_simps mult.commute dest: bit_imp_le_length)
  qed
  have l: "le_bytes (Suc n) v = le_bytes n v @ [ucast (drop_bit (8 * n) v)]"
    by (rule nth_equalityI) (auto simp: le_bytes_nth nth_append less_Suc_eq simp del: le_bytes.simps)
  have i: "nat (int n + off) = nat off + n" using Suc.prems by (simp add: nat_add_distrib)
  have d: "drop (nat off + n) b = b ! (nat off + n) # drop (nat off + Suc n) b"
    using Suc.prems by (simp add: Cons_nth_drop_Suc)
  show ?case using Suc.prems Suc.IH
    by (simp add: put_byte_def i m l d list_update_append min_def del: le_bytes.simps)
qed simp

lemma temp_bytes_spec:
  assumes "0 \<le> off" "nat off + n \<le> length b"
  shows "temp_bytes n b off = Some (take n (drop (nat off) b))"
  using assms
proof (induction n arbitrary: off)
  case (Suc n)
  have "nat (off + 1) = Suc (nat off)" using Suc.prems by simp
  moreover have "drop (nat off) b = b ! nat off # drop (Suc (nat off)) b"
    using Suc.prems by (simp add: Cons_nth_drop_Suc)
  ultimately show ?case using Suc.prems Suc.IH[of "off + 1"] by (simp add: byte_at_def)
qed simp

lemma temp_put_bytes:
  assumes "0 \<le> off" "nat off + n \<le> length b" "put_bytes n v b off = Some b'"
  shows "temp_bytes n b' off = Some (le_bytes n v)" "length b' = length b"
  using assms temp_bytes_spec[of off n b'] by (auto simp: put_bytes_spec)

lemma word_bytes_roundtrip:
  fixes y :: "'z::len word"
  assumes "0 \<le> off" "nat off + n \<le> length b" "LENGTH('z) \<le> 8 * n"
  shows "\<exists>b'. put_bytes n y b off = Some b' \<and> map_option le_word (temp_bytes n b' off) = Some y
      \<and> take (nat off) b' = take (nat off) b \<and> drop (nat off + n) b' = drop (nat off + n) b"
proof (intro exI conjI)
  let ?b = "take (nat off) b @ le_bytes n y @ drop (nat off + n) b"
  show p: "put_bytes n y b off = Some ?b" by (rule put_bytes_spec[OF assms(1,2)])
  show "map_option le_word (temp_bytes n ?b off) = Some y"
    unfolding temp_put_bytes(1)[OF assms(1,2) p] option.map le_word_bytes[OF assms(3)] ..
  show "take (nat off) ?b = take (nat off) b" "drop (nat off + n) ?b = drop (nat off + n) b"
    using assms(2) by simp_all
qed

text \<open>A number stored into a buffer by \<open>int_to_bytes\<close> is read back by \<open>bytes_to_int\<close> at the same offset, whatever the buffer
  held, and no byte outside its four changes; the same holds for the conversions of two and
  eight bytes.\<close>

theorem byte_conversion_roundtrip:
  assumes "0 \<le> off" "nat off + 8 \<le> length b"
  shows "(\<exists>b'. int_to_bytes v b off = Some b' \<and> bytes_to_int b' off = Some v
            \<and> take (nat off) b' = take (nat off) b \<and> drop (nat off + 4) b' = drop (nat off + 4) b)
    \<and> (\<exists>b'. short_to_bytes w b off = Some b' \<and> bytes_to_short b' off = Some w
            \<and> take (nat off) b' = take (nat off) b \<and> drop (nat off + 2) b' = drop (nat off + 2) b)
    \<and> (\<exists>b'. long_to_bytes x b off = Some b' \<and> bytes_to_long b' off = Some x
            \<and> take (nat off) b' = take (nat off) b \<and> drop (nat off + 8) b' = drop (nat off + 8) b)"
  unfolding int_to_bytes_def bytes_to_int_def short_to_bytes_def bytes_to_short_def long_to_bytes_def bytes_to_long_def
  using assms by (intro conjI word_bytes_roundtrip) simp_all

theorem byte_conversion_roundtrip_witness:
  "\<exists>b'. int_to_bytes 0x12345678 [1, 2, 3, 4, 5, 6, 7, 8, 9] 1 = Some b' \<and> bytes_to_int b' 1 = Some 0x12345678"
  using byte_conversion_roundtrip[of 1 "[1, 2, 3, 4, 5, 6, 7, 8, 9]" "0x12345678" 0 0] by auto

lemma disk_read_length: "disk_read d k = Some b \<Longrightarrow> length b = nat (dsector d)"
  by (auto simp: disk_read_def split: if_splits)

lemma disk_read_after_write:
  assumes "disk_write d k b = Some d'" "length b = nat (dsector d)" "0 < dsector d"
  shows "disk_read d' k = Some b"
proof -
  have d': "dsector d' = dsector d" "in_disk d k" "in_disk d' k" using assms(1) by (auto simp: disk_write_def in_disk_def split: if_splits)
  have "map (\<lambda>i. dmem d' (int i + dsector d * k)) [0..<nat (dsector d)] = b"
    using assms by (intro nth_equalityI) (auto simp: disk_write_def split: if_splits)
  then show ?thesis using d' by (simp add: disk_read_def)
qed

lemma disk_read_other:
  assumes "disk_write d k b = Some d'" "j \<noteq> k" "0 < dsector d"
  shows "disk_read d' j = disk_read d j"
proof -
  have d': "dsector d' = dsector d" "dsize d' = dsize d" using assms(1) by (auto simp: disk_write_def split: if_splits)
  have "dmem d' (int i + dsector d * j) = dmem d (int i + dsector d * j)" if "i < nat (dsector d)" for i
  proof -
    have "\<not> (dsector d * k \<le> int i + dsector d * j \<and> int i + dsector d * j < dsector d * k + dsector d)"
    proof
      assume a: "dsector d * k \<le> int i + dsector d * j \<and> int i + dsector d * j < dsector d * k + dsector d"
      have "(int i + dsector d * j) div dsector d = j" using that assms(3) by simp
      moreover have "(int i + dsector d * j) div dsector d = k"
        using a assms(3) by (intro int_div_pos_eq[of _ _ _ "int i + dsector d * j - dsector d * k"]) auto
      ultimately show False using assms(2) by simp
    qed
    then show ?thesis using assms(1) by (auto simp: disk_write_def split: if_splits)
  qed
  then show ?thesis using d' by (simp add: disk_read_def in_disk_def)
qed

end
