(* ===== verification/Fat_Entry.thy ===== *)
theory Fat_Entry
  imports Fat_Disk
begin

text \<open>
  The entries of the FAT32 file system, \<^verbatim>\<open>src/fs/fat32/entry.cpp\<close> and
  \<^verbatim>\<open>src/fs/fat32/entry_helpers.cpp\<close>. Entries are objects of a store, indexed by address; names are
  texts, whose operations are those of the string class, and vectors are lists. A failure of the
  code is the value \<open>False\<close> or 0 it returns; a null dereference, an access outside a buffer or the
  disk, and a search that does not end are the value \<open>None\<close>. \<open>stray\<close> gives the bytes that lie
  behind the terminator of a string. Fresh objects are assumed to find memory.
\<close>

section \<open>State\<close>

datatype EntryAttribute = FILE | EMPTY | DIRECTORY | LONG_NAME | ROOT

datatype FatEntryType = END | FREE | RESERVED | ALLOCATED | DEFECTIVE

record Entry =
  ename :: "u8 list"
  extension :: "u8 list"
  etype :: EntryAttribute
  file_size_bytes :: int
  byte_offset :: int
  eorder :: int
  elast :: bool
  parent_dir :: "nat option"
  sub_dirs :: "nat list"
  long_name_entries :: "nat list"
  fat_allocations :: "int list"

record FAT32 =
  di :: Disk
  objects :: "nat \<Rightarrow> Entry option"
  fresh_entry :: nat
  root_dir :: nat
  data_region_start_cluster_offset :: int
  bytes_per_fat_entry :: int
  bytes_per_dir_entry :: int
  bytes_per_cluster :: int
  bytes_per_sector :: int
  sectors_per_cluster :: int
  sectors_per_fat :: int
  reserved_sectors :: int
  reserved_fat_entries :: int
  total_sectors :: int
  fat_count :: int
  stray :: "u8 list \<Rightarrow> nat \<Rightarrow> u8"

definition Entry_default :: Entry where
  "Entry_default = \<lparr>ename = [], extension = [], etype = FILE, file_size_bytes = 0, byte_offset = 0, eorder = 0,
     elast = False, parent_dir = None, sub_dirs = [], long_name_entries = [], fat_allocations = []\<rparr>"

definition new_object :: "FAT32 \<Rightarrow> Entry \<Rightarrow> nat \<times> FAT32" where
  "new_object s e = (fresh_entry s, s\<lparr>objects := (objects s)(fresh_entry s \<mapsto> e), fresh_entry := fresh_entry s + 1\<rparr>)"

definition modify :: "FAT32 \<Rightarrow> nat \<Rightarrow> (Entry \<Rightarrow> Entry) \<Rightarrow> FAT32 option" where
  "modify s e f = do { x \<leftarrow> objects s e; Some (s\<lparr>objects := (objects s)(e \<mapsto> f x)\<rparr>) }"

definition sector_of :: "FAT32 \<Rightarrow> int \<Rightarrow> int" where "sector_of s off = off sdiv bytes_per_sector s"
definition in_sector :: "FAT32 \<Rightarrow> int \<Rightarrow> int" where "in_sector s off = off smod bytes_per_sector s"

definition write_sector :: "FAT32 \<Rightarrow> int \<Rightarrow> u8 list \<Rightarrow> FAT32 option" where
  "write_sector s k b = do { d \<leftarrow> disk_write (di s) k b; Some (s\<lparr>di := d\<rparr>) }"

text \<open>A sequence of assignments to elements of a buffer.\<close>

fun put_all :: "u8 list \<Rightarrow> (int \<times> u8) list \<Rightarrow> u8 list option" where
  "put_all b [] = Some b"
| "put_all b ((i, v) # ps) = do { b' \<leftarrow> put_byte b i v; put_all b' ps }"

section \<open>Reading entries\<close>

definition parse_attribute :: "FAT32 \<Rightarrow> int \<Rightarrow> EntryAttribute option" where
  "parse_attribute s off = do {
     buffer \<leftarrow> disk_read (di s) (sector_of s off);
     a \<leftarrow> byte_at buffer (11 + in_sector s off);
     let attribute = a AND 0x3F;
     Some (if attribute = 0x08 then ROOT else if attribute = 0x10 then DIRECTORY
           else if attribute = 0x20 then FILE else if attribute = 0x0F then LONG_NAME else EMPTY) }"

text \<open>Characters that are not blanks are appended; appending a terminator has no effect.\<close>

fun collect_chars :: "u8 list \<Rightarrow> int list \<Rightarrow> u8 list \<Rightarrow> u8 list option" where
  "collect_chars b [] t = Some t"
| "collect_chars b (i # is) t = do { c \<leftarrow> byte_at b i; collect_chars b is (if c \<noteq> 0x20 then txt_add t c else t) }"

definition parse_short_file_name :: "FAT32 \<Rightarrow> int \<Rightarrow> u8 list option" where
  "parse_short_file_name s off = do {
     buffer \<leftarrow> disk_read (di s) (sector_of s off);
     collect_chars buffer (map (\<lambda>i. i + in_sector s off) [0..7]) [] }"

fun collect_unicode :: "u8 list \<Rightarrow> int list \<Rightarrow> u8 list \<Rightarrow> u8 list option" where
  "collect_unicode b [] t = Some t"
| "collect_unicode b (i # is) t = do {
     first \<leftarrow> byte_at b i;
     second \<leftarrow> byte_at b (i + 1);
     (if chars_to_unicode first second \<noteq> 0xFFFF then collect_unicode b is (txt_add t first) else Some t) }"

definition piece_offsets :: "int \<Rightarrow> int \<Rightarrow> int \<Rightarrow> int list" where
  "piece_offsets base off n = map (\<lambda>i. 2 * i + base + off) [0..n - 1]"

definition parse_long_name :: "FAT32 \<Rightarrow> nat \<Rightarrow> FAT32 option" where
  "parse_long_name s e = do {
     x \<leftarrow> objects s e;
     buffer \<leftarrow> disk_read (di s) (sector_of s (byte_offset x));
     let o' = in_sector s (byte_offset x);
     b0 \<leftarrow> byte_at buffer (0 + o');
     t1 \<leftarrow> collect_unicode buffer (piece_offsets 1 o' 5) [];
     t2 \<leftarrow> collect_unicode buffer (piece_offsets 14 o' 6) t1;
     t3 \<leftarrow> collect_unicode buffer (piece_offsets 28 o' 2) t2;
     modify s e (\<lambda>x. x\<lparr>eorder := uint (b0 AND 0x1F), elast := False, ename := t3, extension := [], file_size_bytes := - 1\<rparr>) }"

section \<open>Cluster chains\<close>

definition check_fat_entry_type :: "FAT32 \<Rightarrow> u32 \<Rightarrow> FatEntryType" where
  "check_fat_entry_type s val =
     (if val = 0xFFFFFFFF then END
      else if val AND 0xFFFFFFF = 0 then FREE
      else if val AND 0xFFFFFFF = 0xFFFFFFE then DEFECTIVE
      else if val < word_of_int (total_sectors s sdiv sectors_per_cluster s) then ALLOCATED else RESERVED)"

text \<open>The sector of a FAT entry and its place there, computed in \<open>unsigned int\<close>.\<close>

definition fat_sector :: "FAT32 \<Rightarrow> u32 \<Rightarrow> int" where
  "fat_sector s n = sint (word_of_int (reserved_sectors s)
     + (n * word_of_int (bytes_per_fat_entry s)) div word_of_int (bytes_per_sector s) :: u32)"
definition fat_in_sector :: "FAT32 \<Rightarrow> u32 \<Rightarrow> int" where
  "fat_in_sector s n = sint ((n * word_of_int (bytes_per_fat_entry s)) mod word_of_int (bytes_per_sector s) :: u32)"

partial_function (option) follow_chain ::
    "FAT32 \<Rightarrow> u8 list \<Rightarrow> u32 \<Rightarrow> int \<Rightarrow> FatEntryType \<Rightarrow> int list \<Rightarrow> int list option" where
  "follow_chain s buffer current current_sector type allocations =
     (if type = ALLOCATED then do {
        next \<leftarrow> bytes_to_int buffer (fat_in_sector s current);
        let next_sector = fat_sector s next;
        buffer' \<leftarrow> (if check_fat_entry_type s next = ALLOCATED \<and> next_sector \<noteq> current_sector
                   then disk_read (di s) next_sector else Some buffer);
        follow_chain s buffer' next next_sector (check_fat_entry_type s next) (allocations @ [sint current]) }
      else Some (allocations @ [sint current]))"

declare follow_chain.simps [code]

definition find_cluster_allocations :: "FAT32 \<Rightarrow> nat \<Rightarrow> u32 \<Rightarrow> FAT32 option" where
  "find_cluster_allocations s e first =
     (if first = 0 then Some s
      else do {
        x \<leftarrow> objects s e;
        buffer \<leftarrow> disk_read (di s) (fat_sector s first);
        v \<leftarrow> bytes_to_int buffer (fat_in_sector s first);
        a \<leftarrow> follow_chain s buffer first (fat_sector s first) (check_fat_entry_type s v) (fat_allocations x);
        modify s e (\<lambda>x. x\<lparr>fat_allocations := a\<rparr>) })"

definition fat_entry_to_cluster_offset :: "FAT32 \<Rightarrow> int \<Rightarrow> int" where
  "fat_entry_to_cluster_offset s fat_entry = sint ((word_of_int fat_entry - word_of_int (reserved_fat_entries s))
     + word_of_int (data_region_start_cluster_offset s) :: u32)"

section \<open>Constructing the tree\<close>

text \<open>A long name entry is only constructed at an offset whose attribute says so.\<close>

definition new_long_name :: "FAT32 \<Rightarrow> nat \<Rightarrow> int \<Rightarrow> (nat \<times> FAT32) option" where
  "new_long_name s this off = do {
     let (e, s1) = new_object s (Entry_default\<lparr>etype := LONG_NAME, byte_offset := off, parent_dir := Some this\<rparr>);
     s2 \<leftarrow> parse_long_name s1 e;
     Some (e, s2) }"

partial_function (option) long_name_loop :: "FAT32 \<Rightarrow> nat \<Rightarrow> int \<Rightarrow> int \<Rightarrow> FAT32 option" where
  "long_name_loop s e start search =
     (if search \<ge> start then do {
        type \<leftarrow> parse_attribute s search;
        (if type = LONG_NAME then do {
           (l, s1) \<leftarrow> new_long_name s e search;
           s2 \<leftarrow> modify s1 e (\<lambda>x. x\<lparr>long_name_entries := long_name_entries x @ [l]\<rparr>);
           long_name_loop s2 e start (search - bytes_per_dir_entry s2) }
         else Some s) }
      else Some s)"

declare long_name_loop.simps [code]

text \<open>The bound of the search is the number of the cluster, where the comment means its offset.\<close>

fun names_of :: "FAT32 \<Rightarrow> nat list \<Rightarrow> u8 list option" where
  "names_of s [] = Some []"
| "names_of s (l # ls) = do { x \<leftarrow> objects s l; r \<leftarrow> names_of s ls; Some (ename x @ r) }"

definition find_long_name_entries :: "FAT32 \<Rightarrow> nat \<Rightarrow> FAT32 option" where
  "find_long_name_entries s e = do {
     x \<leftarrow> objects s e;
     s1 \<leftarrow> long_name_loop s e (byte_offset x sdiv bytes_per_cluster s) (byte_offset x - bytes_per_dir_entry s);
     x1 \<leftarrow> objects s1 e;
     (if long_name_entries x1 \<noteq> [] then do {
        t \<leftarrow> names_of s1 (long_name_entries x1);
        s2 \<leftarrow> modify s1 e (\<lambda>x. x\<lparr>ename := t\<rparr>);
        modify s2 (last (long_name_entries x1)) (\<lambda>x. x\<lparr>elast := True\<rparr>) }
      else Some s1) }"

definition parse_root_entry :: "FAT32 \<Rightarrow> nat \<Rightarrow> FAT32 option" where
  "parse_root_entry s e = do {
     x \<leftarrow> objects s e;
     buffer \<leftarrow> disk_read (di s) (sector_of s (byte_offset x));
     s1 \<leftarrow> modify s e (\<lambda>x. x\<lparr>ename := [], extension := []\<rparr>);
     s2 \<leftarrow> find_cluster_allocations s1 e (word_of_int (reserved_fat_entries s));
     sz \<leftarrow> bytes_to_int buffer (28 + in_sector s (byte_offset x));
     modify s2 e (\<lambda>x. x\<lparr>file_size_bytes := sint sz, eorder := - 1\<rparr>) }"

definition parse_dir_entry :: "FAT32 \<Rightarrow> nat \<Rightarrow> FAT32 option" where
  "parse_dir_entry s e = do {
     x \<leftarrow> objects s e;
     let o' = in_sector s (byte_offset x);
     buffer \<leftarrow> disk_read (di s) (sector_of s (byte_offset x));
     t \<leftarrow> parse_short_file_name s (byte_offset x);
     ext \<leftarrow> collect_chars buffer (map (\<lambda>i. i + o') [8..10]) [];
     high \<leftarrow> bytes_to_short buffer (20 + o');
     low \<leftarrow> bytes_to_short buffer (26 + o');
     let first = push_bit 16 (ucast high) OR ucast low;
     s1 \<leftarrow> modify s e (\<lambda>x. x\<lparr>ename := t, extension := ext\<rparr>);
     s2 \<leftarrow> find_cluster_allocations s1 e first;
     sz \<leftarrow> bytes_to_int buffer (28 + o');
     s3 \<leftarrow> modify s2 e (\<lambda>x. x\<lparr>file_size_bytes := sint sz\<rparr>);
     s4 \<leftarrow> find_long_name_entries s3 e;
     modify s4 e (\<lambda>x. x\<lparr>eorder := - 1\<rparr>) }"

text \<open>The loop over the 32 assignments of \<open>clear_entry\<close>.\<close>

definition clear_entry :: "FAT32 \<Rightarrow> int \<Rightarrow> FAT32 option" where
  "clear_entry s off = do {
     buffer \<leftarrow> disk_read (di s) (sector_of s off);
     buffer' \<leftarrow> put_all buffer (map (\<lambda>i. (i + in_sector s off, 0)) [0..bytes_per_dir_entry s - 1]);
     write_sector s (sector_of s off) buffer' }"

text \<open>The offsets \<open>find_sub_dir_entries\<close> looks at: every entry of every cluster of the directory.\<close>

definition slots :: "FAT32 \<Rightarrow> Entry \<Rightarrow> int list" where
  "slots s x = concat (map (\<lambda>a. let start = fat_entry_to_cluster_offset s a * bytes_per_cluster s in
      map (\<lambda>j. start + int j * bytes_per_dir_entry s)
        [0..<nat ((bytes_per_cluster s + bytes_per_dir_entry s - 1) div bytes_per_dir_entry s)]) (fat_allocations x))"

text \<open>The constructor and the search for subdirectories call each other; a directory that contains
  itself makes the recursion endless, so that its depth is bounded by the first argument.\<close>

function (sequential) Entry_init :: "nat \<Rightarrow> FAT32 \<Rightarrow> nat option \<Rightarrow> int \<Rightarrow> (nat \<times> FAT32) option"
    and find_sub_dir_entries :: "nat \<Rightarrow> FAT32 \<Rightarrow> nat \<Rightarrow> int list \<Rightarrow> FAT32 option" where
  "Entry_init 0 s par off = None"
| "Entry_init (Suc depth) s par off = do {
     type \<leftarrow> parse_attribute s off;
     let (e, s1) = new_object s (Entry_default\<lparr>etype := type, byte_offset := off, parent_dir := par\<rparr>);
     (case type of
        ROOT \<Rightarrow> do {
          s2 \<leftarrow> parse_root_entry s1 e;
          x \<leftarrow> objects s2 e;
          s3 \<leftarrow> find_sub_dir_entries depth s2 e (slots s2 x);
          Some (e, s3) }
      | EMPTY \<Rightarrow> do { s2 \<leftarrow> clear_entry s1 off; Some (e, s2) }
      | LONG_NAME \<Rightarrow> do { s2 \<leftarrow> parse_long_name s1 e; Some (e, s2) }
      | _ \<Rightarrow> do {
          s2 \<leftarrow> parse_dir_entry s1 e;
          x \<leftarrow> objects s2 e;
          s3 \<leftarrow> (if type = DIRECTORY then find_sub_dir_entries depth s2 e (slots s2 x) else Some s2);
          Some (e, s3) }) }"
| "find_sub_dir_entries depth s e [] = Some s"
| "find_sub_dir_entries depth s e (off # offs) = do {
     type \<leftarrow> parse_attribute s off;
     t \<leftarrow> parse_short_file_name s off;
     (if (type = DIRECTORY \<or> type = FILE) \<and> \<not> (t = [0x2E] \<or> t = [0x2E, 0x2E]) then do {
        (d, s1) \<leftarrow> Entry_init depth s (Some e) off;
        s2 \<leftarrow> modify s1 e (\<lambda>x. x\<lparr>sub_dirs := sub_dirs x @ [d]\<rparr>);
        find_sub_dir_entries depth s2 e offs }
      else find_sub_dir_entries depth s e offs) }"
  by pat_completeness auto
termination
  by (relation "measures [\<lambda>x. case x of Inl (d, _) \<Rightarrow> d | Inr (d, _) \<Rightarrow> d,
      \<lambda>x. case x of Inl _ \<Rightarrow> 0 | Inr (_, _, _, offs) \<Rightarrow> 1 + length offs]") auto

end
