(* ===== verification/Fat_Write.thy ===== *)
theory Fat_Write
  imports Fat_Entry
begin

text \<open>
  The operations of FAT32 entries that change the disk: cluster allocation, new directory
  entries with their long names, and reading and writing of file data
  (\<^verbatim>\<open>src/fs/fat32/entry.cpp\<close>, second half of \<^verbatim>\<open>src/fs/fat32/entry_helpers.cpp\<close>).
\<close>

section \<open>Cluster allocation\<close>

definition fat_byte_offset :: "FAT32 \<Rightarrow> int \<Rightarrow> int" where
  "fat_byte_offset s n = reserved_sectors s * bytes_per_sector s + n * bytes_per_fat_entry s"

text \<open>The limit of the search is a number of clusters of the FAT, not of its entries.\<close>

function free_cluster_loop :: "FAT32 \<Rightarrow> u8 list \<Rightarrow> int \<Rightarrow> int \<Rightarrow> int option" where
  "free_cluster_loop s buffer limit current =
     (if current < limit then do {
        v \<leftarrow> bytes_to_int buffer (in_sector s (fat_byte_offset s current));
        (if check_fat_entry_type s v = FREE then Some current
         else do {
           let next = current + 1;
           buffer' \<leftarrow> (if sector_of s (fat_byte_offset s next) \<noteq> sector_of s (fat_byte_offset s current)
                      then disk_read (di s) (sector_of s (fat_byte_offset s next)) else Some buffer);
           free_cluster_loop s buffer' limit next }) }
      else Some 0)"
  by pat_completeness auto
termination by (relation "measure (\<lambda>(s, buffer, limit, current). nat (limit - current))") auto

declare free_cluster_loop.simps [simp del]

definition find_free_cluster :: "FAT32 \<Rightarrow> int option" where
  "find_free_cluster s = do {
     buffer \<leftarrow> disk_read (di s) (sector_of s (fat_byte_offset s 2));
     free_cluster_loop s buffer (sectors_per_fat s sdiv sectors_per_cluster s) 2 }"

definition high_half :: "int \<Rightarrow> u16" where "high_half n = ucast (drop_bit 16 (word_of_int n :: u32))"
definition low_half :: "int \<Rightarrow> u16" where "low_half n = ucast (word_of_int n :: u32)"

text \<open>The two base entries are written where the entry itself lies, not into the new cluster; of
  the second name only one character is stored.\<close>

definition put_base_entry :: "u8 list \<Rightarrow> int \<Rightarrow> int \<Rightarrow> int \<Rightarrow> u8 list option" where
  "put_base_entry b o' first sz = do {
     b1 \<leftarrow> put_all b [(0 + o', 0x2E), (11 + o', 0x10)];
     b2 \<leftarrow> short_to_bytes (high_half first) b1 (20 + o');
     b3 \<leftarrow> short_to_bytes (low_half first) b2 (26 + o');
     int_to_bytes (word_of_int sz) b3 (28 + o') }"

definition init_dir_cluster :: "FAT32 \<Rightarrow> nat \<Rightarrow> int \<Rightarrow> FAT32 option" where
  "init_dir_cluster s e cluster_offset = do {
     x \<leftarrow> objects s e;
     let cluster_byte_offset = cluster_offset * bytes_per_cluster s;
     s1 \<leftarrow> clear_entry s cluster_byte_offset;
     s2 \<leftarrow> clear_entry s1 (cluster_byte_offset + bytes_per_dir_entry s);
     buffer \<leftarrow> disk_read (di s2) (sector_of s (byte_offset x));
     let o' = in_sector s (byte_offset x);
     first \<leftarrow> first_of (fat_allocations x);
     b1 \<leftarrow> put_base_entry buffer o' first (file_size_bytes x);
     p \<leftarrow> parent_dir x;
     px \<leftarrow> objects s2 p;
     pfirst \<leftarrow> first_of (fat_allocations px);
     b2 \<leftarrow> put_base_entry b1 (o' + bytes_per_dir_entry s) pfirst (file_size_bytes px);
     write_sector s2 (sector_of s (byte_offset x)) b2 }"

definition initial_cluster :: "FAT32 \<Rightarrow> nat \<Rightarrow> (bool \<times> FAT32) option" where
  "initial_cluster s e = do {
     current \<leftarrow> find_free_cluster s;
     (if current = 0 then Some (False, s)
      else do {
        let cb = fat_byte_offset s current;
        buffer \<leftarrow> disk_read (di s) (sector_of s cb);
        buffer' \<leftarrow> int_to_bytes 0xFFFFFFFF buffer (in_sector s cb);
        s1 \<leftarrow> write_sector s (sector_of s cb) buffer';
        s2 \<leftarrow> modify s1 e (\<lambda>x. x\<lparr>fat_allocations := fat_allocations x @ [current]\<rparr>);
        x \<leftarrow> objects s2 e;
        s3 \<leftarrow> (if etype x = DIRECTORY then init_dir_cluster s2 e (fat_entry_to_cluster_offset s2 current) else Some s2);
        Some (True, s3) }) }"

text \<open>The loop of \<open>allocate_more_clusters\<close>: \<open>buffer\<close> is the sector of the FAT entry of \<open>current\<close>. The
  result says whether a free cluster was found each time.\<close>

primrec allocate_loop :: "nat \<Rightarrow> FAT32 \<Rightarrow> nat \<Rightarrow> u8 list \<Rightarrow> int \<Rightarrow> (bool \<times> FAT32 \<times> u8 list \<times> int) option" where
  "allocate_loop 0 s e buffer current = Some (True, s, buffer, current)"
| "allocate_loop (Suc n) s e buffer current = do {
     next \<leftarrow> find_free_cluster s;
     (if next = 0 then Some (False, s, buffer, current)
      else do {
        let cb = fat_byte_offset s current;
        buffer' \<leftarrow> int_to_bytes (word_of_int next) buffer (in_sector s cb);
        s1 \<leftarrow> write_sector s (sector_of s cb) buffer';
        buffer'' \<leftarrow> disk_read (di s1) (sector_of s (fat_byte_offset s next));
        x \<leftarrow> objects s1 e;
        s2 \<leftarrow> (if etype x = DIRECTORY then init_dir_cluster s1 e (fat_entry_to_cluster_offset s1 next) else Some s1);
        s3 \<leftarrow> modify s2 e (\<lambda>x. x\<lparr>fat_allocations := fat_allocations x @ [next]\<rparr>);
        allocate_loop n s3 e buffer'' next }) }"

definition allocate_more_clusters :: "FAT32 \<Rightarrow> nat \<Rightarrow> int \<Rightarrow> (bool \<times> FAT32) option" where
  "allocate_more_clusters s e num_additional_clusters =
     (if num_additional_clusters \<le> 0 then Some (False, s)
      else do {
        x \<leftarrow> objects s e;
        (ok, s1, n) \<leftarrow> (if fat_allocations x = []
                        then do { (ok, s1) \<leftarrow> initial_cluster s e; Some (ok, s1, num_additional_clusters - 1) }
                        else Some (True, s, num_additional_clusters));
        (if \<not> ok then Some (False, s1)
         else do {
           x1 \<leftarrow> objects s1 e;
           let current = last (fat_allocations x1);
           buffer \<leftarrow> disk_read (di s1) (sector_of s1 (fat_byte_offset s1 current));
           (found, s2, buffer', current') \<leftarrow> allocate_loop (nat n) s1 e buffer current;
           b \<leftarrow> int_to_bytes 0xFFFFFFFF buffer' (in_sector s2 (fat_byte_offset s2 current'));
           s3 \<leftarrow> write_sector s2 (sector_of s2 (fat_byte_offset s2 current')) b;
           Some (found, s3) }) })"

section \<open>New entries\<close>

text \<open>The search for empty slots: the cluster numbers are both computed from the offset of the
  directory itself, so that the end of a cluster is never noticed.\<close>

partial_function (option) empty_loop ::
    "FAT32 \<Rightarrow> nat \<Rightarrow> int \<Rightarrow> int \<Rightarrow> int \<Rightarrow> int \<Rightarrow> int \<Rightarrow> int \<Rightarrow> (int \<times> FAT32) option" where
  "empty_loop s e num current cluster found start cluster_num = do {
     type \<leftarrow> parse_attribute s current;
     let start' = (if type = EMPTY \<and> found = 0 then current else start);
     let found' = (if type = EMPTY then found + 1 else 0);
     (if type = EMPTY \<and> found' = num then Some (start', s)
      else do {
        x \<leftarrow> objects s e;
        let next = current + bytes_per_dir_entry s;
        let next_cluster = byte_offset x sdiv bytes_per_cluster s;
        (if next_cluster \<noteq> cluster then do {
           let cluster_num' = cluster_num + 1;
           p \<leftarrow> parent_dir x;
           px \<leftarrow> objects s p;
           (ok, s1) \<leftarrow> (if cluster_num' > int (length (fat_allocations px)) then allocate_more_clusters s p 1 else Some (True, s));
           (if \<not> ok then Some (0, s1)
            else do {
              px1 \<leftarrow> objects s1 p;
              x1 \<leftarrow> objects s1 e;
              empty_loop s1 e num (fat_entry_to_cluster_offset s1 (last (fat_allocations px1)) + 2 * bytes_per_dir_entry s1)
                (byte_offset x1 sdiv bytes_per_cluster s1) found' start' cluster_num' }) }
         else empty_loop s e num next next_cluster found' start' cluster_num) }) }"

declare empty_loop.simps [code]

text \<open>For the root directory the code dereferences its null parent.\<close>

definition find_empty_entries :: "FAT32 \<Rightarrow> nat \<Rightarrow> int \<Rightarrow> (int \<times> FAT32) option" where
  "find_empty_entries s e num_entries = do {
     x \<leftarrow> objects s e;
     p \<leftarrow> parent_dir x;
     first \<leftarrow> first_of (fat_allocations x);
     empty_loop s e num_entries (fat_entry_to_cluster_offset s first * bytes_per_cluster s)
       (byte_offset x sdiv bytes_per_cluster s) 0 0 1 }"

definition name_char :: "FAT32 \<Rightarrow> u8 list \<Rightarrow> nat \<Rightarrow> u8" where
  "name_char s t i = (if i < length t then t ! i else if i = length t then 0 else stray s t i)"

definition special_char :: "u8 \<Rightarrow> bool" where
  "special_char c \<longleftrightarrow> c \<in> set [0x24, 0x25, 0x27, 0x2D, 0x5F, 0x40, 0x7E, 0x60, 0x21, 0x28, 0x29, 0x7B, 0x7D, 0x5E, 0x23, 0x26, 0x2E]"

definition short_char :: "u8 \<Rightarrow> u8 list" where
  "short_char c = (if 0x41 \<le> c \<and> c \<le> 0x5A then [c] else if 0x61 \<le> c \<and> c \<le> 0x7A then [c - 0x20]
     else if special_char c then [c] else [])"

definition long_to_short_name :: "FAT32 \<Rightarrow> u8 list \<Rightarrow> nat \<Rightarrow> u8 list" where
  "long_to_short_name s long_name len =
     (let short = concat (map (\<lambda>i. short_char (name_char s long_name i)) [0..<len])
      in short @ replicate (len - length short) 0x20)"

text \<open>The characters of one of the three pieces of a long name.\<close>

definition piece_puts :: "int \<Rightarrow> u8 list \<Rightarrow> nat \<Rightarrow> (int \<times> u8) list" where
  "piece_puts base part n = concat (map (\<lambda>i.
     if i = length part then [(base + int i * 2, 0)]
     else if length part < i then [(base + int i * 2, 0xFF), (base + int i * 2 + 1, 0xFF)]
     else [(base + int i * 2, part ! i)]) [0..<n])"

definition name_parts :: "u8 list \<Rightarrow> u8 list \<times> u8 list \<times> u8 list" where
  "name_parts t = (let n = int (length t) in
     if 5 \<ge> n then (txt_sub t 0, [], [])
     else if 11 \<ge> n then (txt_sub_to t 0 5, txt_sub t 5, [])
     else if 13 \<ge> n then (txt_sub_to t 0 5, txt_sub_to t 5 11, txt_sub t 11)
     else (txt_sub_to t 0 5, txt_sub_to t 5 11, txt_sub_to t 11 13))"

fun name_checksum :: "u8 list \<Rightarrow> u8 \<Rightarrow> u8" where
  "name_checksum [] acc = acc"
| "name_checksum (c # cs) acc = name_checksum cs ((if acc AND 1 \<noteq> 0 then 0x80 else 0) + drop_bit 1 acc + c)"

definition write_long_name_entry :: "FAT32 \<Rightarrow> nat \<Rightarrow> FAT32 option" where
  "write_long_name_entry s l = do {
     x \<leftarrow> objects s l;
     s1 \<leftarrow> clear_entry s (byte_offset x);
     let o' = in_sector s (byte_offset x);
     buffer \<leftarrow> disk_read (di s1) (sector_of s (byte_offset x));
     let (p1, p2, p3) = name_parts (ename x);
     p \<leftarrow> parent_dir x;
     px \<leftarrow> objects s1 p;
     let csum = name_checksum (long_to_short_name s (ename px) 8 @ long_to_short_name s (extension x) 3) 0;
     buffer' \<leftarrow> put_all buffer ([(o', if elast x then word_of_int (eorder x) OR 0x40 else word_of_int (eorder x))]
        @ piece_puts (o' + 1) p1 5 @ piece_puts (o' + 14) p2 6 @ piece_puts (o' + 28) p3 2
        @ [(o' + 11, 0x0F), (o' + 13, csum)]);
     write_sector s1 (sector_of s (byte_offset x)) buffer' }"

fun write_long_names :: "FAT32 \<Rightarrow> nat list \<Rightarrow> FAT32 option" where
  "write_long_names s [] = Some s"
| "write_long_names s (l # ls) = do { s1 \<leftarrow> write_long_name_entry s l; write_long_names s1 ls }"

definition write_dir_entry :: "FAT32 \<Rightarrow> nat \<Rightarrow> FAT32 option" where
  "write_dir_entry s e = do {
     x \<leftarrow> objects s e;
     s1 \<leftarrow> clear_entry s (byte_offset x);
     let o' = in_sector s (byte_offset x);
     buffer \<leftarrow> disk_read (di s1) (sector_of s (byte_offset x));
     let short_name = long_to_short_name s (ename x) 8;
     let short_ext = long_to_short_name s (extension x) 3;
     b1 \<leftarrow> put_all buffer (map (\<lambda>i. (int i + o', short_name ! i)) [0..<8] @ map (\<lambda>i. (8 + int i + o', short_ext ! i)) [0..<3]
        @ [(o' + 11, if etype x = FILE then 0x20 else 0x10)]);
     first \<leftarrow> first_of (fat_allocations x);
     b2 \<leftarrow> short_to_bytes (high_half first) b1 (20 + o');
     b3 \<leftarrow> short_to_bytes (low_half first) b2 (26 + o');
     b4 \<leftarrow> int_to_bytes (word_of_int (file_size_bytes x)) b3 (28 + o');
     s2 \<leftarrow> write_sector s1 (sector_of s (byte_offset x)) b4;
     write_long_names s2 (long_name_entries x) }"

text \<open>Number \<open>i\<close> of \<open>n\<close> long name entries of a new entry.\<close>

primrec make_long_names :: "nat \<Rightarrow> FAT32 \<Rightarrow> nat \<Rightarrow> u8 list \<Rightarrow> int \<Rightarrow> int \<Rightarrow> int \<Rightarrow> FAT32 option" where
  "make_long_names 0 s e t first n i = Some s"
| "make_long_names (Suc k) s e t first n i = do {
     let part = (if i * 13 + 13 \<ge> int (length t) then txt_sub t (i * 13) else txt_sub_to t (i * 13) (i * 13 + 13));
     let (l, s1) = new_object s (Entry_default\<lparr>parent_dir := Some e, ename := part, etype := LONG_NAME,
       byte_offset := first + (n - i - 1) * bytes_per_dir_entry s, eorder := i + 1\<rparr>);
     s2 \<leftarrow> modify s1 e (\<lambda>x. x\<lparr>long_name_entries := long_name_entries x @ [l]\<rparr>);
     make_long_names k s2 e t first n (i + 1) }"

definition long_name_count :: "u8 list \<Rightarrow> int" where
  "long_name_count t = (let n = int (length t) in if n smod 13 = 0 then n sdiv 13 else n sdiv 13 + 1)"

definition new_dir_entry :: "FAT32 \<Rightarrow> nat \<Rightarrow> nat \<Rightarrow> u8 list \<Rightarrow> EntryAttribute \<Rightarrow> (bool \<times> FAT32) option" where
  "new_dir_entry s this par_dir name type = do {
     s0 \<leftarrow> modify s this (\<lambda>x. x\<lparr>parent_dir := Some par_dir, ename := name, etype := type, eorder := - 1\<rparr>);
     let n = long_name_count name;
     (first, s1) \<leftarrow> find_empty_entries s0 par_dir (n + 1);
     (if first = 0 then Some (False, s1)
      else do {
        s2 \<leftarrow> modify s1 this (\<lambda>x. x\<lparr>byte_offset := first + n * bytes_per_dir_entry s1\<rparr>);
        (ok, s3) \<leftarrow> allocate_more_clusters s2 this 1;
        (if \<not> ok then Some (False, s3)
         else do {
           s4 \<leftarrow> modify s3 this (\<lambda>x. x\<lparr>file_size_bytes := (if type = FILE then 0 else bytes_per_cluster s3)\<rparr>);
           s5 \<leftarrow> make_long_names (nat n) s4 this name first n 0;
           x \<leftarrow> objects s5 this;
           l \<leftarrow> (if long_name_entries x = [] then None else Some (last (long_name_entries x)));
           s6 \<leftarrow> modify s5 l (\<lambda>x. x\<lparr>elast := True\<rparr>);
           s7 \<leftarrow> write_dir_entry s6 this;
           s8 \<leftarrow> modify s7 par_dir (\<lambda>x. x\<lparr>sub_dirs := sub_dirs x @ [this]\<rparr>);
           Some (True, s8) }) }) }"

section \<open>File data\<close>

definition target_sector :: "FAT32 \<Rightarrow> int \<Rightarrow> int \<Rightarrow> int" where
  "target_sector s a sector_offset =
     fat_entry_to_cluster_offset s a * sectors_per_cluster s + sector_offset smod sectors_per_cluster s"

definition vector_at :: "int list \<Rightarrow> int \<Rightarrow> int option" where
  "vector_at v i = (if 0 \<le> i \<and> nat i < length v then Some (v ! nat i) else None)"

definition read_data :: "FAT32 \<Rightarrow> nat \<Rightarrow> int \<Rightarrow> u8 list option option" where
  "read_data s e sector_offset = do {
     x \<leftarrow> objects s e;
     (if etype x \<noteq> FILE then Some None
      else do {
        let target_cluster = sector_offset sdiv sectors_per_cluster s;
        (if target_cluster \<ge> int (length (fat_allocations x)) then Some None
         else do {
           a \<leftarrow> vector_at (fat_allocations x) target_cluster;
           b \<leftarrow> disk_read (di s) (target_sector s a sector_offset);
           Some (Some b) }) }) }"

text \<open>The size of the data of a sector ends with its last byte that is not zero.\<close>

primrec data_size :: "nat \<Rightarrow> u8 list \<Rightarrow> int option" where
  "data_size 0 data = Some 0"
| "data_size (Suc i) data = do { c \<leftarrow> byte_at data (int i); if c \<noteq> 0 then Some (int i + 1) else data_size i data }"

definition update_size :: "FAT32 \<Rightarrow> nat \<Rightarrow> int \<Rightarrow> u8 list \<Rightarrow> FAT32 option" where
  "update_size s e sector_offset data = do {
     x \<leftarrow> objects s e;
     let required_size = (sector_offset + 1) * bytes_per_sector s;
     (if file_size_bytes x < required_size then do {
        n \<leftarrow> data_size (nat (bytes_per_sector s)) data;
        s1 \<leftarrow> modify s e (\<lambda>x. x\<lparr>file_size_bytes := sector_offset * bytes_per_sector s + n\<rparr>);
        buffer \<leftarrow> disk_read (di s1) (sector_of s (byte_offset x));
        buffer' \<leftarrow> int_to_bytes (word_of_int required_size) buffer (28 + in_sector s (byte_offset x));
        write_sector s1 (sector_of s (byte_offset x)) buffer' }
      else Some s) }"

definition write_data :: "FAT32 \<Rightarrow> nat \<Rightarrow> int \<Rightarrow> u8 list \<Rightarrow> (bool \<times> FAT32) option" where
  "write_data s e sector_offset data = do {
     x \<leftarrow> objects s e;
     (if etype x \<noteq> FILE then Some (False, s)
      else do {
        let target_cluster = sector_offset sdiv sectors_per_cluster s;
        let num_clusters = int (length (fat_allocations x));
        (ok, s1) \<leftarrow> (if target_cluster \<ge> num_clusters
                     then allocate_more_clusters s e (target_cluster + 1 - num_clusters) else Some (True, s));
        (if \<not> ok then Some (False, s1)
         else do {
           x1 \<leftarrow> objects s1 e;
           a \<leftarrow> vector_at (fat_allocations x1) target_cluster;
           s2 \<leftarrow> write_sector s1 (target_sector s1 a sector_offset) data;
           s3 \<leftarrow> update_size s2 e sector_offset data;
           Some (True, s3) }) }) }"

fun find_sub_dir_loop :: "FAT32 \<Rightarrow> u8 list \<Rightarrow> nat list \<Rightarrow> nat option option" where
  "find_sub_dir_loop s t [] = Some None"
| "find_sub_dir_loop s t (d # ds) = do {
     x \<leftarrow> objects s d;
     (if ename x = t then Some (Some d) else find_sub_dir_loop s t ds) }"

definition find_sub_dir :: "FAT32 \<Rightarrow> nat \<Rightarrow> u8 list \<Rightarrow> nat option option" where
  "find_sub_dir s e t = do { x \<leftarrow> objects s e; find_sub_dir_loop s t (sub_dirs x) }"

end
