(* ===== verification/Fat32.thy ===== *)
theory Fat32
  imports Fat_Write
begin

text \<open>
  The interface of the FAT32 file system, \<^verbatim>\<open>src/fs/fat32/fat32.cpp\<close> with the path functions of
  \<^verbatim>\<open>src/fs/fat32/fs_helpers.cpp\<close>, and the file contexts on it,
  \<^verbatim>\<open>src/fs/fat32/filecontextfat32.cpp\<close>. The operations the source marks as not implemented return
  failure; the dump functions only print.
\<close>

section \<open>Initialisation\<close>

text \<open>The parameters of the boot sector; a sector or cluster size of zero makes the code divide by
  zero. \<open>depth\<close> bounds the depth of the directory tree.\<close>

definition FAT32_init :: "nat \<Rightarrow> FAT32 \<Rightarrow> u8 list \<Rightarrow> FAT32 option" where
  "FAT32_init depth s root_sector = do {
     bps \<leftarrow> bytes_to_short root_sector 11;
     spc \<leftarrow> byte_at root_sector 13;
     res \<leftarrow> bytes_to_short root_sector 14;
     fats \<leftarrow> byte_at root_sector 16;
     tot32 \<leftarrow> bytes_to_int root_sector 32;
     tot16 \<leftarrow> bytes_to_short root_sector 19;
     spf \<leftarrow> bytes_to_int root_sector 36;
     (if bps = 0 \<or> spc = 0 then None
      else do {
        let start = (uint res + uint fats * sint spf) sdiv uint spc;
        let s1 = s\<lparr>bytes_per_sector := uint bps, sectors_per_cluster := uint spc, reserved_sectors := uint res,
          fat_count := uint fats, total_sectors := (if sint tot32 = 0 then uint tot16 else sint tot32), sectors_per_fat := sint spf,
          bytes_per_fat_entry := 4, bytes_per_dir_entry := 32, bytes_per_cluster := uint bps * uint spc,
          data_region_start_cluster_offset := start, reserved_fat_entries := 2\<rparr>;
        (r, s2) \<leftarrow> Entry_init depth s1 None (start * bytes_per_cluster s1);
        Some (s2\<lparr>root_dir := r\<rparr>) }) }"

definition FAT32_new :: "nat \<Rightarrow> FAT32 \<Rightarrow> (int \<Rightarrow> u8) \<Rightarrow> int \<Rightarrow> FAT32 option" where
  "FAT32_new depth s ramfs n = do {
     let s0 = s\<lparr>di := DiskInterface_init ramfs n 512, objects := (\<lambda>_. None), fresh_entry := 0\<rparr>;
     buffer \<leftarrow> disk_read (di s0) 0;
     FAT32_init depth s0 buffer }"

section \<open>Paths\<close>

fun parse_loop :: "u8 list \<Rightarrow> u8 list \<Rightarrow> u8 list list \<Rightarrow> u8 list list" where
  "parse_loop [] part path = path @ [part]"
| "parse_loop (c # cs) part path = (if c = 0x2F then parse_loop cs [] (path @ [part]) else parse_loop cs (txt_add part c) path)"

definition parse_file_path :: "u8 list \<Rightarrow> u8 list list" where
  "parse_file_path file_path = (case file_path of [] \<Rightarrow> []
     | c # cs \<Rightarrow> if c \<noteq> 0x2F then [] else parse_loop cs [] [])"

fun last_slash :: "u8 list \<Rightarrow> int \<Rightarrow> int \<Rightarrow> int" where
  "last_slash [] i r = r"
| "last_slash (c # cs) i r = last_slash cs (i + 1) (if c = 0x2F then i else r)"

definition snip_file_path :: "u8 list \<Rightarrow> u8 list" where
  "snip_file_path file_path = (let k = last_slash (tl file_path) 1 0
     in if k \<noteq> 0 then txt_sub_to file_path 0 k else [0x2F])"

fun walk_path :: "FAT32 \<Rightarrow> nat \<Rightarrow> u8 list list \<Rightarrow> nat option option" where
  "walk_path s e [] = Some (Some e)"
| "walk_path s e (t # ts) = do {
     r \<leftarrow> find_sub_dir s e t;
     (case r of None \<Rightarrow> Some None | Some d \<Rightarrow> walk_path s d ts) }"

definition find_entry :: "FAT32 \<Rightarrow> u8 list \<Rightarrow> nat option option" where
  "find_entry s file_path =
     (if file_path = [0x2F] then Some (Some (root_dir s))
      else if parse_file_path file_path = [] then Some None
      else walk_path s (root_dir s) (parse_file_path file_path))"

section \<open>Operations\<close>

definition file_type :: "FAT32 \<Rightarrow> u8 list \<Rightarrow> EntryAttribute option option" where
  "file_type s file_path = do {
     r \<leftarrow> find_entry s file_path;
     (case r of None \<Rightarrow> Some None | Some e \<Rightarrow> do { x \<leftarrow> objects s e; Some (Some (etype x)) }) }"

definition file_size :: "FAT32 \<Rightarrow> u8 list \<Rightarrow> int option option" where
  "file_size s file_path = do {
     r \<leftarrow> find_entry s file_path;
     (case r of None \<Rightarrow> Some None | Some e \<Rightarrow> do { x \<leftarrow> objects s e; Some (Some (file_size_bytes x)) }) }"

definition read_file :: "FAT32 \<Rightarrow> u8 list \<Rightarrow> int \<Rightarrow> u8 list option option" where
  "read_file s file_path sector_offset = do {
     r \<leftarrow> find_entry s file_path;
     (case r of None \<Rightarrow> Some None | Some e \<Rightarrow> read_data s e sector_offset) }"

definition write_file :: "FAT32 \<Rightarrow> u8 list \<Rightarrow> int \<Rightarrow> u8 list \<Rightarrow> (bool \<times> FAT32) option" where
  "write_file s file_path sector_offset data = do {
     r \<leftarrow> find_entry s file_path;
     (case r of None \<Rightarrow> Some (False, s) | Some e \<Rightarrow> write_data s e sector_offset data) }"

definition path_name :: "u8 list \<Rightarrow> u8 list option" where
  "path_name p = (if parse_file_path p = [] then None else Some (last (parse_file_path p)))"

definition add_entry :: "FAT32 \<Rightarrow> nat \<Rightarrow> u8 list \<Rightarrow> EntryAttribute \<Rightarrow> (bool \<times> FAT32) option" where
  "add_entry s par_dir path type = do {
     let (e, s1) = new_object s Entry_default;
     name \<leftarrow> path_name path;
     (ok, s2) \<leftarrow> new_dir_entry s1 e par_dir name type;
     Some (if ok then (True, s2) else (False, s2\<lparr>objects := (objects s2)(e := None)\<rparr>)) }"

definition create_file :: "FAT32 \<Rightarrow> u8 list \<Rightarrow> (bool \<times> FAT32) option" where
  "create_file s file_path = do {
     r \<leftarrow> find_entry s (snip_file_path file_path);
     (case r of None \<Rightarrow> Some (False, s)
      | Some par_dir \<Rightarrow> do {
          px \<leftarrow> objects s par_dir;
          (if etype px \<noteq> DIRECTORY then Some (False, s)
           else do {
             old \<leftarrow> find_entry s file_path;
             (if old \<noteq> None then Some (False, s) else add_entry s par_dir file_path FILE) }) }) }"

definition create_dir :: "FAT32 \<Rightarrow> u8 list \<Rightarrow> (bool \<times> FAT32) option" where
  "create_dir s dir_path = do {
     r \<leftarrow> find_entry s (snip_file_path dir_path);
     (case r of None \<Rightarrow> Some (False, s)
      | Some par_dir \<Rightarrow> do {
          old \<leftarrow> find_entry s dir_path;
          (if old \<noteq> None then Some (False, s) else add_entry s par_dir dir_path DIRECTORY) }) }"

definition list_dir :: "FAT32 \<Rightarrow> u8 list \<Rightarrow> u8 list list option option" where
  "list_dir s dir_path = do {
     r \<leftarrow> find_entry s dir_path;
     (case r of None \<Rightarrow> Some None
      | Some e \<Rightarrow> do {
          x \<leftarrow> objects s e;
          (if etype x \<noteq> DIRECTORY then Some None
           else do {
             xs \<leftarrow> those (map (objects s) (sub_dirs x));
             Some (Some (map ename xs)) }) }) }"

definition not_implemented :: "FAT32 \<Rightarrow> bool \<times> FAT32" where "not_implemented s = (False, s)"
definition get_sector_size :: "FAT32 \<Rightarrow> int" where "get_sector_size s = bytes_per_sector s"

section \<open>File contexts\<close>

record FileContextFAT32 =
  fpath :: "u8 list"
  sectorBuffer :: "u8 list option"
  fpos :: u32
  lastSector :: int

definition FileContextFAT32_init :: "u8 list \<Rightarrow> FileContextFAT32" where
  "FileContextFAT32_init path = \<lparr>fpath = path, sectorBuffer = None, fpos = 0, lastSector = - 1\<rparr>"

text \<open>The sector of the position is loaded unless it is the last one; \<open>lastSector\<close> is never changed.\<close>

definition load_sector :: "FAT32 \<Rightarrow> FileContextFAT32 \<Rightarrow> int \<Rightarrow> (bool \<times> FileContextFAT32) option" where
  "load_sector s f sector =
     (if sector \<noteq> lastSector f then do {
        r \<leftarrow> read_file s (fpath f) sector;
        Some (r \<noteq> None, f\<lparr>sectorBuffer := r\<rparr>) }
      else Some (True, f))"

text \<open>The bytes copied to the buffer of the caller, in order.\<close>

partial_function (option) fat_read_loop ::
    "FAT32 \<Rightarrow> FileContextFAT32 \<Rightarrow> int \<Rightarrow> u32 \<Rightarrow> u8 list \<Rightarrow> (u32 \<times> u8 list \<times> FileContextFAT32) option" where
  "fat_read_loop s f n count out =
     (if count < word_of_int n then do {
        let sector = sint (fpos f div word_of_int (get_sector_size s));
        let offset = sint (fpos f mod word_of_int (get_sector_size s));
        let bytesLeft = get_sector_size s - offset;
        (ok, f1) \<leftarrow> load_sector s f sector;
        (if \<not> ok then Some (count, out, f1)
         else do {
           let c = (if n > bytesLeft then bytesLeft else n);
           b \<leftarrow> sectorBuffer f1;
           bs \<leftarrow> (if c < 0 then None else temp_bytes (nat c) b offset);
           fat_read_loop s (f1\<lparr>fpos := fpos f1 + word_of_int c\<rparr>) n (count + word_of_int c) (out @ bs) }) }
      else Some (count, out, f))"

declare fat_read_loop.simps [code]

definition FileContextFAT32_read :: "FAT32 \<Rightarrow> FileContextFAT32 \<Rightarrow> int \<Rightarrow> (int \<times> u8 list \<times> FileContextFAT32) option" where
  "FileContextFAT32_read s f n = do {
     r \<leftarrow> file_size s (fpath f);
     (case r of None \<Rightarrow> Some (error_value EIO, [], f)
      | Some filesize \<Rightarrow>
          if fpos f \<ge> word_of_int filesize then Some (error_value EEOF, [], f)
          else do {
            let n' = (if fpos f + word_of_int n > word_of_int filesize then sint (word_of_int filesize - fpos f :: u32) else n);
            (count, out, f1) \<leftarrow> fat_read_loop s f n' 0 [];
            Some (sint count, out, f1) }) }"

definition FileContextFAT32_write :: "FileContextFAT32 \<Rightarrow> u8 list \<Rightarrow> int \<times> FileContextFAT32" where
  "FileContextFAT32_write f b = (error_value EIO, f)"

definition FileContextFAT32_copy :: "FileContextFAT32 \<Rightarrow> FileContextFAT32" where
  "FileContextFAT32_copy f = (FileContextFAT32_init (fpath f))\<lparr>fpos := fpos f\<rparr>"

section \<open>Lemmas on paths\<close>

fun join_path :: "u8 list list \<Rightarrow> u8 list" where
  "join_path [] = []"
| "join_path (t # ts) = 0x2F # t @ join_path ts"

definition name_ok :: "u8 list \<Rightarrow> bool" where "name_ok t \<longleftrightarrow> 0 \<notin> set t \<and> 0x2F \<notin> set t"

lemma parse_loop_name: "name_ok t \<Longrightarrow> parse_loop (t @ cs) part path = parse_loop cs (part @ t) path"
  by (induction t arbitrary: part) (auto simp: name_ok_def txt_add_def)

lemma parse_loop_join:
  "\<forall>t \<in> set ts. name_ok t \<Longrightarrow> parse_loop (join_path ts) part path = path @ part # ts"
proof (induction ts arbitrary: part path)
  case (Cons t ts)
  then show ?case using parse_loop_name[of t "join_path ts" "[]" "path @ [part]"] by simp
qed simp

lemma parse_join:
  assumes "ts \<noteq> []" "\<forall>t \<in> set ts. name_ok t"
  shows "parse_file_path (join_path ts) = ts"
proof (cases ts)
  case (Cons t ts')
  then show ?thesis using assms parse_loop_name[of t "join_path ts'" "[]" "[]"] parse_loop_join[of ts' t "[]"]
    by (simp add: parse_file_path_def)
qed (use assms in simp)

lemma last_slash_append: "last_slash (xs @ ys) i r = last_slash ys (i + int (length xs)) (last_slash xs i r)"
  by (induction xs arbitrary: i r) (simp_all add: add.assoc)

lemma last_slash_name: "0x2F \<notin> set t \<Longrightarrow> last_slash t i r = r"
  by (induction t arbitrary: i) auto

lemma join_path_append: "join_path (xs @ ys) = join_path xs @ join_path ys"
  by (induction xs) simp_all

lemma snip_join:
  assumes "ts \<noteq> []" "name_ok t"
  shows "snip_file_path (join_path (ts @ [t])) = join_path ts"
proof -
  obtain u us where ts: "ts = u # us" using assms(1) by (cases ts) auto
  have e: "join_path (ts @ [t]) = join_path ts @ 0x2F # t" by (simp add: join_path_append)
  have ne: "join_path ts = 0x2F # tl (join_path ts)" by (simp add: ts)
  have "last_slash (tl (join_path ts) @ 0x2F # t) 1 0 = 1 + int (length (tl (join_path ts)))"
    using assms(2) by (simp add: last_slash_append last_slash_name name_ok_def)
  moreover have "1 + int (length (tl (join_path ts))) = int (length (join_path ts))" using ne by (metis length_Cons of_nat_Suc add.commute)
  moreover have "tl (join_path (ts @ [t])) = tl (join_path ts) @ 0x2F # t" using ne e by (simp add: ts)
  ultimately have k: "last_slash (tl (join_path (ts @ [t]))) 1 0 = int (length (join_path ts))" by simp
  have l: "0 < length (join_path ts)" by (simp add: ts)
  then have "txt_sub_to (join_path ts @ 0x2F # t) 0 (int (length (join_path ts))) = join_path ts" by (simp add: txt_sub_to_def)
  then show ?thesis unfolding snip_file_path_def Let_def k using l by (simp add: e)
qed

text \<open>Paths: printing a nonempty list of names, each without a slash, and parsing it gives the list back, and cutting off the
  last name of a path of several names gives the path of the directory.\<close>

theorem path_roundtrip:
  assumes "ts \<noteq> []" "\<forall>t \<in> set ts. name_ok t" "name_ok t"
  shows "parse_file_path (join_path ts) = ts \<and> snip_file_path (join_path (ts @ [t])) = join_path ts
    \<and> path_name (join_path (ts @ [t])) = Some t"
  using parse_join[OF assms(1,2)] snip_join[OF assms(1,3)] parse_join[of "ts @ [t]"] assms(2,3)
  by (auto simp: path_name_def)

theorem path_roundtrip_witness:
  "parse_file_path (join_path [[0x61], [0x62, 0x63]]) = [[0x61], [0x62, 0x63]]
   \<and> snip_file_path (join_path [[0x61], [0x62, 0x63], [0x64]]) = join_path [[0x61], [0x62, 0x63]]"
  using path_roundtrip[of "[[0x61], [0x62, 0x63]]" "[0x64]"] by (simp add: name_ok_def)

end
