(* ===== verification/File_Context.thy ===== *)
theory File_Context
  imports Pipe Uart Context Fat32
begin

text \<open>
  The objects that processes share: file contexts (\<^verbatim>\<open>src/fs/filecontext.h\<close>) with their virtual
  methods, the pipes behind them, and address spaces, all with the reference count of
  \<^verbatim>\<open>src/util/hasrefcount.cpp\<close>. They live in the stores of a \<open>world\<close>, indexed by address;
  \<open>new\<close> takes an unused address and is assumed to find memory, \<open>delete\<close> takes the object out
  of its store, so that a use of a dangling pointer is the value \<open>None\<close>. The kernel has one
  UART; a context of it is a position in the ring of the device. The contexts on files of the
  FAT32 file system refer to the one in RAM, \<open>ramfs\<close>.
\<close>

section \<open>Objects\<close>

datatype file_object = PipeReader nat | PipeWriter nat | UartFile nat | FatFile FileContextFAT32

record FileContext =
  fc_refs :: int
  fc_object :: file_object

record AddressSpace =
  topLevelTable :: physaddr_t
  space_id :: int
  space_refs :: int

record world =
  uart_dev :: UART
  pipes :: "nat \<Rightarrow> Pipe option"
  contexts :: "nat \<Rightarrow> FileContext option"
  spaces :: "nat \<Rightarrow> AddressSpace option"
  fresh_addr :: nat
  umems :: "u64 \<Rightarrow> memory"
  ttbr0 :: u64
  kmem :: memory
  ramfs :: "FAT32 option"

text \<open>Memory by virtual address: \<open>umems\<close> gives the user half behind each value of the translation base
  register \<open>ttbr0\<close>, of which the kernel accesses the one that is loaded, and \<open>kmem\<close> the upper half, which all
  address spaces share.\<close>

definition kernel_half :: "u64 \<Rightarrow> bool" where "kernel_half a \<longleftrightarrow> a \<ge> 0xFFFFFF8000000000"
definition umem :: "world \<Rightarrow> memory" where
  "umem w = (\<lambda>a. if kernel_half a then kmem w a else umems w (ttbr0 w) a)"
definition store_umem :: "world \<Rightarrow> memory \<Rightarrow> world" where
  "store_umem w m = w\<lparr>kmem := (\<lambda>a. if kernel_half a then m a else kmem w a), umems := (umems w)(ttbr0 w := m)\<rparr>"

definition HasRefcount_init :: int where "HasRefcount_init = 0"
definition addReference :: "int \<Rightarrow> int" where "addReference r = r + 1"
definition removeReference :: "int \<Rightarrow> int" where "removeReference r = r - 1"

section \<open>Address spaces\<close>

definition AddressSpace_init :: "physaddr_t \<Rightarrow> int \<Rightarrow> AddressSpace" where
  "AddressSpace_init frame i = \<lparr>topLevelTable = frame, space_id = i, space_refs = HasRefcount_init\<rparr>"

definition space_ref :: "world \<Rightarrow> nat option \<Rightarrow> world option" where
  "space_ref w s = do {
     a \<leftarrow> s;
     sp \<leftarrow> spaces w a;
     Some (w\<lparr>spaces := (spaces w)(a \<mapsto> sp\<lparr>space_refs := addReference (space_refs sp)\<rparr>)\<rparr>) }"

text \<open>\<open>destoryAddressSpace\<close> is not implemented: it does nothing.\<close>

definition destoryAddressSpace :: "world \<Rightarrow> nat \<Rightarrow> world" where
  "destoryAddressSpace w a = w"

definition space_unref :: "world \<Rightarrow> nat option \<Rightarrow> world option" where
  "space_unref w s = do {
     a \<leftarrow> s;
     sp \<leftarrow> spaces w a;
     let sp' = sp\<lparr>space_refs := removeReference (space_refs sp)\<rparr>;
     let w' = w\<lparr>spaces := (spaces w)(a \<mapsto> sp')\<rparr>;
     Some (if space_refs sp' \<le> 0
           then (destoryAddressSpace w' a)\<lparr>spaces := (spaces (destoryAddressSpace w' a))(a := None)\<rparr>
           else w') }"

definition loadAddressSpace :: "world \<Rightarrow> nat option \<Rightarrow> world option" where
  "loadAddressSpace w s = do {
     a \<leftarrow> s;
     sp \<leftarrow> spaces w a;
     Some (w\<lparr>ttbr0 := topLevelTable sp OR push_bit 48 (word_of_int (space_id sp))\<rparr>) }"

section \<open>File contexts\<close>

definition new_context :: "world \<Rightarrow> file_object \<Rightarrow> nat \<times> world" where
  "new_context w ob = (fresh_addr w, w\<lparr>contexts := (contexts w)(fresh_addr w \<mapsto>
     \<lparr>fc_refs = HasRefcount_init, fc_object = ob\<rparr>), fresh_addr := fresh_addr w + 1\<rparr>)"

text \<open>\<open>new Pipe()\<close> on memory with the contents \<open>mem\<close>, and the contexts of its two ends.\<close>

definition new_pipe :: "world \<Rightarrow> u8 list \<Rightarrow> nat \<times> world" where
  "new_pipe w mem = (fresh_addr w, w\<lparr>pipes := (pipes w)(fresh_addr w \<mapsto> Pipe_init mem),
     fresh_addr := fresh_addr w + 1\<rparr>)"

definition createReader :: "world \<Rightarrow> nat \<Rightarrow> (nat \<times> world) option" where
  "createReader w p = do {
     pp \<leftarrow> pipes w p;
     Some (new_context (w\<lparr>pipes := (pipes w)(p \<mapsto> PipeReader_init pp)\<rparr>) (PipeReader p)) }"

definition createWriter :: "world \<Rightarrow> nat \<Rightarrow> (nat \<times> world) option" where
  "createWriter w p = do {
     pp \<leftarrow> pipes w p;
     Some (new_context (w\<lparr>pipes := (pipes w)(p \<mapsto> PipeWriter_init pp)\<rparr>) (PipeWriter p)) }"

definition uart_open :: "world \<Rightarrow> nat \<times> world" where
  "uart_open w = new_context w (UartFile (ctx_pos (UARTContext_init (uart_dev w))))"

definition fc_ref :: "world \<Rightarrow> nat \<Rightarrow> world option" where
  "fc_ref w a = do {
     c \<leftarrow> contexts w a;
     Some (w\<lparr>contexts := (contexts w)(a \<mapsto> c\<lparr>fc_refs := addReference (fc_refs c)\<rparr>)\<rparr>) }"

text \<open>The virtual methods.\<close>

definition fc_copy :: "world \<Rightarrow> nat \<Rightarrow> (nat \<times> world) option" where
  "fc_copy w a = do {
     c \<leftarrow> contexts w a;
     (case fc_object c of
        PipeReader p \<Rightarrow> createReader w p
      | PipeWriter p \<Rightarrow> createWriter w p
      | UartFile pos \<Rightarrow> Some (new_context w
          (UartFile (ctx_pos (UARTContext_copy \<lparr>ctx_uart = uart_dev w, ctx_pos = pos\<rparr>))))
      | FatFile f \<Rightarrow> Some (new_context w (FatFile (FileContextFAT32_copy f)))) }"

definition fc_delete :: "world \<Rightarrow> nat \<Rightarrow> world option" where
  "fc_delete w a = do {
     c \<leftarrow> contexts w a;
     let w' = w\<lparr>contexts := (contexts w)(a := None)\<rparr>;
     (case fc_object c of
        PipeReader p \<Rightarrow> do {
          pp \<leftarrow> pipes w p;
          Some (w'\<lparr>pipes := (pipes w)(p := PipeReader_destroy pp)\<rparr>) }
      | PipeWriter p \<Rightarrow> do {
          pp \<leftarrow> pipes w p;
          Some (w'\<lparr>pipes := (pipes w)(p := PipeWriter_destroy pp)\<rparr>) }
      | UartFile pos \<Rightarrow> Some w'
      | FatFile f \<Rightarrow> Some w') }"

definition fc_unref :: "world \<Rightarrow> nat \<Rightarrow> world option" where
  "fc_unref w a = do {
     c \<leftarrow> contexts w a;
     let c' = c\<lparr>fc_refs := removeReference (fc_refs c)\<rparr>;
     let w' = w\<lparr>contexts := (contexts w)(a \<mapsto> c')\<rparr>;
     (if fc_refs c' \<le> 0 then fc_delete w' a else Some w') }"

definition fc_read :: "world \<Rightarrow> nat \<Rightarrow> u64 \<Rightarrow> int \<Rightarrow> (int \<times> world) option" where
  "fc_read w a buf n = do {
     c \<leftarrow> contexts w a;
     (case fc_object c of
        PipeReader p \<Rightarrow> do {
          pp \<leftarrow> pipes w p;
          (r, xs, pp') \<leftarrow> PipeReader_read pp n;
          Some (r, store_umem (w\<lparr>pipes := (pipes w)(p \<mapsto> pp')\<rparr>) (store_bytes (umem w) buf xs)) }
      | PipeWriter p \<Rightarrow> do {
          pp \<leftarrow> pipes w p;
          (r, xs, pp') \<leftarrow> PipeWriter_read pp n;
          Some (r, store_umem (w\<lparr>pipes := (pipes w)(p \<mapsto> pp')\<rparr>) (store_bytes (umem w) buf xs)) }
      | UartFile pos \<Rightarrow> do {
          (r, xs, x) \<leftarrow> UARTContext_read \<lparr>ctx_uart = uart_dev w, ctx_pos = pos\<rparr> n;
          Some (r, store_umem (w\<lparr>contexts := (contexts w)(a \<mapsto> c\<lparr>fc_object := UartFile (ctx_pos x)\<rparr>),
                     uart_dev := ctx_uart x\<rparr>) (store_bytes (umem w) buf xs)) }
      | FatFile f \<Rightarrow> do {
          fs \<leftarrow> ramfs w;
          (r, xs, f') \<leftarrow> FileContextFAT32_read fs f n;
          Some (r, store_umem (w\<lparr>contexts := (contexts w)(a \<mapsto> c\<lparr>fc_object := FatFile f'\<rparr>)\<rparr>)
                     (store_bytes (umem w) buf xs)) }) }"

definition fc_write :: "world \<Rightarrow> nat \<Rightarrow> u64 \<Rightarrow> int \<Rightarrow> (int \<times> world) option" where
  "fc_write w a buf n = do {
     c \<leftarrow> contexts w a;
     let data = load_bytes (umem w) buf (nat n);
     (case fc_object c of
        PipeReader p \<Rightarrow> do {
          pp \<leftarrow> pipes w p;
          (r, pp') \<leftarrow> PipeReader_write pp data n;
          Some (r, w\<lparr>pipes := (pipes w)(p \<mapsto> pp')\<rparr>) }
      | PipeWriter p \<Rightarrow> do {
          pp \<leftarrow> pipes w p;
          (r, pp') \<leftarrow> PipeWriter_write pp data n;
          Some (r, w\<lparr>pipes := (pipes w)(p \<mapsto> pp')\<rparr>) }
      | UartFile pos \<Rightarrow> do {
          (r, x) \<leftarrow> UARTContext_write \<lparr>ctx_uart = uart_dev w, ctx_pos = pos\<rparr> data n;
          Some (r, w\<lparr>uart_dev := ctx_uart x\<rparr>) }
      | FatFile f \<Rightarrow> (let (r, f') = FileContextFAT32_write f data in
          Some (r, w\<lparr>contexts := (contexts w)(a \<mapsto> c\<lparr>fc_object := FatFile f'\<rparr>)\<rparr>))) }"

end
