(* ===== verification/Process.thy ===== *)
theory Process
  imports File_Context Bst_Map
begin

text \<open>
  Processes, \<^verbatim>\<open>src/sched/process.cpp\<close>: the saved context, the signal handlers and the file table, a
  search tree from descriptors to file contexts. Every method takes the process and the world
  of shared objects and returns them updated. The backup context of a signal is an object that
  only the process refers to: the pointer is an option. Uninitialised words are zero.
\<close>

section \<open>State\<close>

datatype State = ACTIVE | SIGNAL | SIGWAIT

datatype ActionType = NONE | HANDLER | KILL

record SignalAction =
  sig_type :: ActionType
  sig_handler :: u64
  sig_trampoline :: u64
  sig_userdata :: u64

definition MAX_SIGNAL :: nat where "MAX_SIGNAL = 64"

record Process =
  proc_pid :: pid_t
  proc_parent :: pid_t
  proc_ctx :: Context
  backupCtx :: "Context option"
  proc_state :: State
  addressSpace :: "nat option"
  signalHandlers :: "SignalAction list"
  files :: "(int, nat) binary_search_tree"

definition no_action :: SignalAction where
  "no_action = \<lparr>sig_type = NONE, sig_handler = 0, sig_trampoline = 0, sig_userdata = 0\<rparr>"

definition Process_init0 :: Process where
  "Process_init0 = \<lparr>proc_pid = 0, proc_parent = 0, proc_ctx = Context_init0 0, backupCtx = None,
     proc_state = ACTIVE, addressSpace = None, signalHandlers = replicate MAX_SIGNAL no_action, files = bst_init\<rparr>"

definition Process_init :: "world \<Rightarrow> pid_t \<Rightarrow> pid_t \<Rightarrow> u64 \<Rightarrow> u64 \<Rightarrow> u64 \<Rightarrow> nat option
    \<Rightarrow> (Process \<times> world) option" where
  "Process_init w pid par entry stack ksp sp = do {
     w' \<leftarrow> space_ref w sp;
     Some (\<lparr>proc_pid = pid, proc_parent = par, proc_ctx = Context_init3 entry stack ksp, backupCtx = None,
            proc_state = ACTIVE, addressSpace = sp, signalHandlers = replicate MAX_SIGNAL no_action,
            files = bst_init\<rparr>, w') }"

definition storeContext :: "Process \<Rightarrow> Context \<Rightarrow> Process" where
  "storeContext p newCtx = p\<lparr>proc_ctx := newCtx\<rparr>"

definition setState :: "Process \<Rightarrow> State \<Rightarrow> Process" where
  "setState p newState = p\<lparr>proc_state := newState\<rparr>"

section \<open>The file table\<close>

definition getFileContext :: "Process \<Rightarrow> int \<Rightarrow> nat option option" where
  "getFileContext p fd = do {
     b \<leftarrow> bst_contains (files p) fd;
     (if b then map_option Some (bst_get (files p) fd) else Some None) }"

text \<open>\<open>storeFileContext\<close> without and with a descriptor.\<close>

definition storeFileContext :: "Process \<Rightarrow> world \<Rightarrow> nat \<Rightarrow> (int \<times> Process \<times> world) option" where
  "storeFileContext p w f = do {
     let fd = bst_size (files p);
     t \<leftarrow> bst_insert (files p) fd f;
     w' \<leftarrow> fc_ref w f;
     Some (fd, p\<lparr>files := t\<rparr>, w') }"

definition storeFileContext_at :: "Process \<Rightarrow> world \<Rightarrow> nat \<Rightarrow> int \<Rightarrow> (int \<times> Process \<times> world) option" where
  "storeFileContext_at p w f fd = do {
     b \<leftarrow> bst_contains (files p) fd;
     (if b then Some (error_value EEXISTS, p, w)
      else do {
        t \<leftarrow> bst_insert (files p) fd f;
        w' \<leftarrow> fc_ref w f;
        Some (error_value ENONE, p\<lparr>files := t\<rparr>, w') }) }"

definition closeFileContext :: "Process \<Rightarrow> world \<Rightarrow> int \<Rightarrow> (int \<times> Process \<times> world) option" where
  "closeFileContext p w fd = do {
     b \<leftarrow> bst_contains (files p) fd;
     (if \<not> b then Some (error_value ENOFILE, p, w)
      else do {
        fc \<leftarrow> bst_get (files p) fd;
        t \<leftarrow> bst_remove (files p) fd;
        w' \<leftarrow> fc_unref w fc;
        Some (error_value ENONE, p\<lparr>files := t\<rparr>, w') }) }"

section \<open>Copying and destroying a process\<close>

text \<open>The loops over a file table with an iterator. The table that \<open>copy_files\<close> and \<open>clone_files\<close>
  read is that of another process; \<open>close_files\<close> changes the one it iterates over.\<close>

partial_function (option) copy_files :: "(int, nat) binary_search_tree \<Rightarrow> nat option \<Rightarrow> Process \<Rightarrow> world
    \<Rightarrow> (Process \<times> world) option" where
  "copy_files t it p w =
     (case it of
        None \<Rightarrow> Some (p, w)
      | Some a \<Rightarrow> do {
          fd \<leftarrow> iter_deref t (Some a);
          f \<leftarrow> bst_get t fd;
          (r, p', w') \<leftarrow> storeFileContext_at p w f fd;
          it' \<leftarrow> iter_next t a;
          copy_files t it' p' w' })"

partial_function (option) clone_files :: "(int, nat) binary_search_tree \<Rightarrow> nat option \<Rightarrow> Process \<Rightarrow> world
    \<Rightarrow> (Process \<times> world) option" where
  "clone_files t it p w =
     (case it of
        None \<Rightarrow> Some (p, w)
      | Some a \<Rightarrow> do {
          fd \<leftarrow> iter_deref t (Some a);
          f \<leftarrow> bst_get t fd;
          (f', w1) \<leftarrow> fc_copy w f;
          (r, p', w') \<leftarrow> storeFileContext_at p w1 f' fd;
          it' \<leftarrow> iter_next t a;
          clone_files t it' p' w' })"

partial_function (option) close_files :: "nat option \<Rightarrow> Process \<Rightarrow> world \<Rightarrow> (Process \<times> world) option" where
  "close_files it p w =
     (case it of
        None \<Rightarrow> Some (p, w)
      | Some a \<Rightarrow> do {
          fd \<leftarrow> iter_deref (files p) (Some a);
          (r, p', w') \<leftarrow> closeFileContext p w fd;
          it' \<leftarrow> iter_next (files p') a;
          close_files it' p' w' })"

declare copy_files.simps [code] clone_files.simps [code] close_files.simps [code]

text \<open>The copy constructor, the destructor (which ends with that of the member \<open>files\<close>) and the
  assignment. The assignment does not free an earlier backup context.\<close>

definition Process_copy :: "Process \<Rightarrow> world \<Rightarrow> (Process \<times> world) option" where
  "Process_copy other w = do {
     w1 \<leftarrow> (if addressSpace other \<noteq> None then space_ref w (addressSpace other) else Some w);
     it \<leftarrow> bst_begin (files other);
     copy_files (files other) it (other\<lparr>files := bst_init\<rparr>) w1 }"

definition Process_destroy :: "Process \<Rightarrow> world \<Rightarrow> world option" where
  "Process_destroy p w = do {
     w1 \<leftarrow> space_unref w (addressSpace p);
     it \<leftarrow> bst_begin (files p);
     (p', w2) \<leftarrow> close_files it p w1;
     t \<leftarrow> bst_clear (files p');
     Some w2 }"

definition Process_assign :: "Process \<Rightarrow> Process \<Rightarrow> world \<Rightarrow> (Process \<times> world) option" where
  "Process_assign p other w = do {
     w1 \<leftarrow> (if addressSpace p \<noteq> None \<and> addressSpace p \<noteq> addressSpace other
            then space_unref w (addressSpace p) else Some w);
     w2 \<leftarrow> (if addressSpace other \<noteq> None then space_ref w1 (addressSpace other) else Some w1);
     let p1 = other\<lparr>files := files p\<rparr>;
     it \<leftarrow> bst_begin (files p1);
     (p2, w3) \<leftarrow> close_files it p1 w2;
     it' \<leftarrow> bst_begin (files other);
     copy_files (files other) it' p2 w3 }"

section \<open>exec and clone\<close>

definition Process_exec :: "Process \<Rightarrow> world \<Rightarrow> u64 \<Rightarrow> u64 \<Rightarrow> u64 \<Rightarrow> nat option
    \<Rightarrow> (int \<times> Process \<times> world) option" where
  "Process_exec p w pc stack ksp sp =
     (if proc_state p \<noteq> ACTIVE then Some (- 1, p, w)
      else do {
        w1 \<leftarrow> (if addressSpace p \<noteq> None then space_unref w (addressSpace p) else Some w);
        w2 \<leftarrow> space_ref w1 sp;
        Some (0, p\<lparr>addressSpace := sp,
          proc_ctx := setKernelStack (setStackPointer (setProgramCounter (proc_ctx p) pc) stack) ksp\<rparr>, w2) })"

text \<open>\<open>base\<close> is the result of \<open>rmalloc\<close> for the kernel stack.\<close>

definition Process_clone :: "Process \<Rightarrow> world \<Rightarrow> u64 \<Rightarrow> pid_t \<Rightarrow> u64 \<Rightarrow> u64 \<Rightarrow> u64
    \<Rightarrow> (Process option \<times> world) option" where
  "Process_clone p w base pid pc stack userdata =
     (if base = 0 then Some (None, w)
      else do {
        let ksp = base + 2 ^ 16;
        (c, w1) \<leftarrow> Process_init w pid (proc_pid p) pc stack ksp (addressSpace p);
        let c1 = c\<lparr>proc_ctx := functionCall (proc_ctx c) pc 0 userdata\<rparr>;
        it \<leftarrow> bst_begin (files p);
        (c2, w2) \<leftarrow> clone_files (files p) it c1 w1;
        Some (Some c2, w2) })"

section \<open>Signals\<close>

definition setSignalAction :: "Process \<Rightarrow> int \<Rightarrow> u64 \<Rightarrow> u64 \<Rightarrow> u64 \<Rightarrow> Process" where
  "setSignalAction p signal handler trampoline userdata =
     (if signal < 0 \<or> signal \<ge> int MAX_SIGNAL then p
      else p\<lparr>signalHandlers := (signalHandlers p)[nat signal :=
        (if handler = 0 then no_action
         else \<lparr>sig_type = HANDLER, sig_handler = handler, sig_trampoline = trampoline, sig_userdata = userdata\<rparr>)]\<rparr>)"

definition signalTrigger :: "Process \<Rightarrow> int \<Rightarrow> int \<times> Process" where
  "signalTrigger p sig =
     (if sig < 0 \<or> sig \<ge> int MAX_SIGNAL then (0, p)
      else let h = signalHandlers p ! nat sig in
        case sig_type h of
          NONE \<Rightarrow> (0, p)
        | HANDLER \<Rightarrow>
            (if proc_state p = SIGNAL then (- 1, p)
             else (0, p\<lparr>backupCtx := Some (proc_ctx p),
                        proc_ctx := functionCall (proc_ctx p) (sig_handler h) (sig_trampoline h) (sig_userdata h),
                        proc_state := SIGNAL\<rparr>))
        | KILL \<Rightarrow> (1, p))"

definition signalReturn :: "Process \<Rightarrow> Process option" where
  "signalReturn p =
     (if proc_state p \<noteq> SIGNAL then Some p
      else do {
        c \<leftarrow> backupCtx p;
        Some (p\<lparr>proc_ctx := c, backupCtx := None, proc_state := ACTIVE\<rparr>) })"

section \<open>Program arguments\<close>

text \<open>The arguments are arrays of string pointers in memory, ended by a null pointer. The
  arrays the code allocates hold the addresses on the new stack.\<close>

partial_function (option) count_args :: "memory \<Rightarrow> u64 \<Rightarrow> nat \<Rightarrow> nat option" where
  "count_args m argv n =
     (if load_long m (argv + 8 * of_nat n) \<noteq> 0 then count_args m argv (n + 1) else Some n)"

declare count_args.simps [code]

primrec push_strings :: "nat \<Rightarrow> memory \<Rightarrow> Context \<Rightarrow> u64 \<Rightarrow> u64 list \<Rightarrow> (memory \<times> Context \<times> u64 list) option" where
  "push_strings 0 m c argv arr = Some (m, c, arr)"
| "push_strings (Suc i) m c argv arr = do {
     (m', c') \<leftarrow> pushString m c (load_long m (argv + 8 * of_nat i));
     push_strings i m' c' argv (arr[i := stackPointer c']) }"

primrec push_longs :: "nat \<Rightarrow> memory \<Rightarrow> Context \<Rightarrow> u64 list \<Rightarrow> memory \<times> Context" where
  "push_longs 0 m c arr = (m, c)"
| "push_longs (Suc i) m c arr = (let (m', c') = pushLong m c (arr ! i) in push_longs i m' c' arr)"

definition push_pad :: "nat \<Rightarrow> memory \<Rightarrow> Context \<Rightarrow> memory \<times> Context" where
  "push_pad n m c = (if n mod 2 = 1 then pushLong m c 0 else (m, c))"

definition storeProgramArgs :: "memory \<Rightarrow> Context \<Rightarrow> u64 \<Rightarrow> u64 \<Rightarrow> (memory \<times> Context) option" where
  "storeProgramArgs m c argv envp = do {
     envc \<leftarrow> count_args m envp 0;
     argc \<leftarrow> count_args m argv 0;
     (m1, c1, argArray) \<leftarrow> push_strings argc m c argv (replicate argc 0);
     (m2, c2, envArray) \<leftarrow> push_strings envc m1 c1 envp (replicate (envc + 1) 0);
     let envArray' = envArray[envc := 0];
     let (m3, c3) = push_pad argc m2 c2;
     let (m4, c4) = push_longs argc m3 c3 argArray;
     let argPtr = stackPointer c4;
     let (m5, c5) = push_pad (envc + 1) m4 c4;
     let (m6, c6) = push_longs (envc + 1) m5 c5 envArray';
     let envPtr = stackPointer c6;
     Some (m6, setProcessArgs c6 (int argc) argPtr envPtr) }"

end
