(* ===== verification/Process_Args.thy ===== *)
theory Process_Args
  imports Process
begin

text \<open>
  The stack that a new program starts with: \<open>storeProgramArgs\<close> copies the argument and
  environment strings onto the stack and builds the two arrays of pointers to the copies.
\<close>

section \<open>The arrays the program arguments come from\<close>

text \<open>An array of pointers to the strings \<open>ss\<close>, ended by a null pointer, outside the stack from
  \<open>lo\<close> up to \<open>hi\<close>.\<close>

definition arg_array :: "memory \<Rightarrow> nat \<Rightarrow> nat \<Rightarrow> u64 \<Rightarrow> u8 list list \<Rightarrow> bool" where
  "arg_array m lo hi argv ss \<longleftrightarrow> clear_of lo hi argv (8 * (length ss + 1))
     \<and> load_long m (argv + 8 * of_nat (length ss)) = 0
     \<and> (\<forall>i < length ss. cstr m (load_long m (argv + 8 * of_nat i)) (ss ! i)
          \<and> clear_of lo hi (load_long m (argv + 8 * of_nat i)) (length (ss ! i) + 1))"

lemma arg_array_entry:
  assumes "clear_of lo hi argv (8 * (n + 1))" "i \<le> n"
  shows "clear_of lo hi (argv + 8 * of_nat i) 8"
proof -
  have "unat (argv + of_nat (8 * i)) = unat argv + 8 * i"
    using assms by (intro unat_add_of_nat) (auto simp: clear_of_def)
  then show ?thesis using assms by (auto simp: clear_of_def)
qed

lemma arg_array_same:
  assumes "arg_array m lo hi argv ss" "same_outside lo hi m m'"
  shows "arg_array m' lo hi argv ss"
proof -
  have c: "clear_of lo hi argv (8 * (length ss + 1))" using assms(1) by (simp add: arg_array_def)
  have l: "load_long m' (argv + 8 * of_nat i) = load_long m (argv + 8 * of_nat i)" if "i \<le> length ss" for i
    using load_long_same[OF assms(2) arg_array_entry[OF c that]] .
  show ?thesis unfolding arg_array_def
    using assms l cstr_same[OF _ assms(2)] by (auto simp: arg_array_def)
qed

lemma arg_array_mono:
  "arg_array m lo hi argv ss \<Longrightarrow> lo \<le> lo' \<Longrightarrow> hi' \<le> hi \<Longrightarrow> arg_array m lo' hi' argv ss"
  unfolding arg_array_def using clear_of_mono[of lo hi _ _ lo' hi'] by (metis order_refl)

lemma count_args_correct:
  assumes "arg_array m lo hi argv ss" "n \<le> length ss"
  shows "count_args m argv n = Some (length ss)"
  using assms(2)
proof (induction "length ss - n" arbitrary: n)
  case 0
  then have "n = length ss" by simp
  then show ?case using assms(1) by (subst count_args.simps) (simp add: arg_array_def)
next
  case (Suc k)
  then have n: "n < length ss" "k = length ss - (n + 1)" by auto
  have "load_long m (argv + 8 * of_nat n) \<noteq> 0" using assms(1) n(1) by (auto simp: arg_array_def cstr_def)
  then show ?case using Suc.hyps(1)[OF n(2)] n(1) by (subst count_args.simps) simp
qed

section \<open>Pushing strings and pointers\<close>

definition strings_size :: "u8 list list \<Rightarrow> nat" where
  "strings_size ss = sum_list (map padded ss)"

lemma strings_size_take: "i < length ss \<Longrightarrow> strings_size (take (Suc i) ss) = strings_size (take i ss) + padded (ss ! i)"
  by (simp add: strings_size_def take_Suc_conv_app_nth)

text \<open>The strings \<open>ss\<close> lie behind the pointers \<open>arr\<close>, between \<open>lo\<close> and \<open>hi\<close>.\<close>

definition strings_at :: "memory \<Rightarrow> nat \<Rightarrow> nat \<Rightarrow> u64 list \<Rightarrow> u8 list list \<Rightarrow> nat \<Rightarrow> bool" where
  "strings_at m lo hi arr ss n \<longleftrightarrow> (\<forall>j < n. cstr m (arr ! j) (ss ! j)
     \<and> lo \<le> unat (arr ! j) \<and> unat (arr ! j) + length (ss ! j) < hi)"

lemma strings_at_same:
  assumes "strings_at m lo hi arr ss n" "same_outside lo' lo m m'" "hi \<le> 2 ^ 64"
  shows "strings_at m' lo hi arr ss n"
  using assms cstr_same[OF _ assms(2)] unfolding strings_at_def clear_of_def by fastforce

lemma push_strings_correct:
  assumes "arg_array m lo hi argv ss" "i \<le> length ss" "i \<le> length arr" "0 < lo"
    and "lo + strings_size (take i ss) \<le> unat (stackPointer c)" "unat (stackPointer c) \<le> hi"
  defines "sz \<equiv> strings_size (take i ss)"
  shows "\<exists>m' arr'. push_strings i m c argv arr = Some (m', c\<lparr>stackPointer := stackPointer c - of_nat sz\<rparr>, arr')
    \<and> same_outside (unat (stackPointer c) - sz) (unat (stackPointer c)) m m'
    \<and> length arr' = length arr \<and> (\<forall>j \<ge> i. arr' ! j = arr ! j)
    \<and> strings_at m' (unat (stackPointer c) - sz) (unat (stackPointer c)) arr' ss i"
  using assms(1-6) unfolding sz_def
proof (induction i arbitrary: m c arr)
  case 0
  then show ?case by (auto simp: strings_at_def strings_size_def)
next
  case (Suc i)
  let ?sp = "stackPointer c" and ?p = "load_long m (argv + 8 * of_nat i)" and ?k = "padded (ss ! i)"
    and ?t = "strings_size (take i ss)"
  have i: "i < length ss" "i < length arr" using Suc.prems by auto
  have t: "strings_size (take (Suc i) ss) = ?t + ?k" by (rule strings_size_take[OF i(1)])
  have str: "cstr m ?p (ss ! i)" "clear_of lo hi ?p (length (ss ! i) + 1)"
    using Suc.prems(1) i by (auto simp: arg_array_def)
  have u: "unat (?sp - of_nat ?k) = unat ?sp - ?k" using Suc.prems(5) t by (intro unat_sub_of_nat) simp
  have lt: "unat ?sp < 2 ^ 64" using unsigned_less[of ?sp, where ?'a = nat] by simp
  have room: "?k < unat ?sp" using Suc.prems(4,5) t by linarith
  have cl: "clear_of (unat ?sp - ?k) (unat ?sp) ?p (length (ss ! i) + 1)"
    by (rule clear_of_mono[OF str(2)]) (use Suc.prems(5,6) t in auto)
  obtain m1 where m1: "pushString m c ?p = Some (m1, c\<lparr>stackPointer := ?sp - of_nat ?k\<rparr>)"
    "same_outside (unat ?sp - ?k) (unat ?sp) m m1" "cstr m1 (?sp - of_nat ?k) (ss ! i)"
    using pushString_cstr[OF str(1) room cl] by blast
  have "arg_array m1 lo hi argv ss"
    by (rule arg_array_same[OF Suc.prems(1) same_outside_mono[OF m1(2)]]) (use Suc.prems(5,6) t in auto)
  moreover have below: "lo + ?t \<le> unat ?sp - ?k" using Suc.prems(5) t by linarith
  moreover have "unat ?sp - ?k \<le> hi" using Suc.prems(6) by (rule le_trans[OF diff_le_self])
  ultimately obtain m2 arr2 where m2: "push_strings i m1 (c\<lparr>stackPointer := ?sp - of_nat ?k\<rparr>) argv (arr[i := ?sp - of_nat ?k])
      = Some (m2, c\<lparr>stackPointer := ?sp - of_nat ?k - of_nat ?t\<rparr>, arr2)"
    "same_outside (unat ?sp - ?k - ?t) (unat ?sp - ?k) m1 m2"
    "length arr2 = length arr" "\<forall>j \<ge> i. arr2 ! j = arr[i := ?sp - of_nat ?k] ! j"
    "strings_at m2 (unat ?sp - ?k - ?t) (unat ?sp - ?k) arr2 ss i"
    using Suc.IH[of m1 "arr[i := ?sp - of_nat ?k]" "c\<lparr>stackPointer := ?sp - of_nat ?k\<rparr>"] i Suc.prems(4,6) below u
    by auto
  have "cstr m2 (?sp - of_nat ?k) (ss ! i)"
    by (rule cstr_same[OF m1(3) m2(2)]) (use u lt padded_gt[of "ss ! i"] Suc.prems(5) t in \<open>auto simp: clear_of_def\<close>)
  then have "strings_at m2 (unat ?sp - (?t + ?k)) (unat ?sp) arr2 ss (Suc i)"
    using m2(4,5) u padded_gt[of "ss ! i"] i(2) Suc.prems(5) t unfolding strings_at_def less_Suc_eq by fastforce
  moreover have "same_outside (unat ?sp - (?t + ?k)) (unat ?sp) m m2"
    by (rule same_outside_trans[OF m1(2) m2(2)]) auto
  moreover have "\<forall>j \<ge> Suc i. arr2 ! j = arr ! j" using m2(4) by auto
  ultimately show ?case using m1(1) m2(1,3) t by (simp add: algebra_simps)
qed

lemma pushLong_correct:
  assumes "8 \<le> unat (stackPointer c)" "pushLong m c v = (m', c')"
  shows "c' = c\<lparr>stackPointer := stackPointer c - 8\<rparr>" "unat (stackPointer c - 8) = unat (stackPointer c) - 8"
    "same_outside (unat (stackPointer c) - 8) (unat (stackPointer c)) m m'" "load_long m' (stackPointer c - 8) = v"
proof -
  have u: "unat (stackPointer c - 8) = unat (stackPointer c) - 8"
    using unat_sub_of_nat[of 8 "stackPointer c"] assms(1) by simp
  have lt: "unat (stackPointer c) < 2 ^ 64" using unsigned_less[of "stackPointer c", where ?'a = nat] by simp
  show "c' = c\<lparr>stackPointer := stackPointer c - 8\<rparr>" "unat (stackPointer c - 8) = unat (stackPointer c) - 8"
    using assms(2) u by (auto simp: pushLong_def Let_def)
  have m: "m' = store_long m (stackPointer c - 8) v" using assms(2) by (auto simp: pushLong_def Let_def)
  show "same_outside (unat (stackPointer c) - 8) (unat (stackPointer c)) m m'"
    using store_bytes_same_outside[of "stackPointer c - 8" "le_bytes 8 v" m] assms(1) lt u
    by (simp add: m store_long_def)
  show "load_long m' (stackPointer c - 8) = v" unfolding m by (rule load_long_store_long) (use u lt assms(1) in simp)
qed

lemma push_longs_correct:
  assumes "8 * i \<le> unat (stackPointer c)"
  shows "\<exists>m'. push_longs i m c arr = (m', c\<lparr>stackPointer := stackPointer c - 8 * of_nat i\<rparr>)
    \<and> unat (stackPointer c - 8 * of_nat i) = unat (stackPointer c) - 8 * i
    \<and> same_outside (unat (stackPointer c) - 8 * i) (unat (stackPointer c)) m m'
    \<and> (\<forall>j < i. load_long m' (stackPointer c - 8 * of_nat i + 8 * of_nat j) = arr ! j)"
  using assms
proof (induction i arbitrary: m c)
  case 0
  then show ?case by simp
next
  case (Suc i)
  let ?sp = "stackPointer c"
  obtain m1 c1 where p: "pushLong m c (arr ! i) = (m1, c1)" by (metis surj_pair)
  have h: "c1 = c\<lparr>stackPointer := ?sp - 8\<rparr>" "unat (?sp - 8) = unat ?sp - 8"
    "same_outside (unat ?sp - 8) (unat ?sp) m m1" "load_long m1 (?sp - 8) = arr ! i"
    using pushLong_correct[OF _ p] Suc.prems by auto
  have lt: "unat ?sp < 2 ^ 64" using unsigned_less[of ?sp, where ?'a = nat] by simp
  have room: "8 * i \<le> unat ?sp - 8" by (rule add_le_imp_le_diff) (use Suc.prems in simp)
  obtain m2 where m2: "push_longs i m1 c1 arr = (m2, c\<lparr>stackPointer := ?sp - 8 - 8 * of_nat i\<rparr>)"
    "unat (?sp - 8 - 8 * of_nat i) = unat ?sp - 8 - 8 * i"
    "same_outside (unat ?sp - 8 - 8 * i) (unat ?sp - 8) m1 m2"
    "\<forall>j < i. load_long m2 (?sp - 8 - 8 * of_nat i + 8 * of_nat j) = arr ! j"
    using Suc.IH[of c1 m1] room h(1,2) by auto
  have "load_long m2 (?sp - 8) = arr ! i"
    using load_long_same[OF m2(3), of "?sp - 8"] h(2,4) lt Suc.prems by (simp add: clear_of_def)
  moreover have "same_outside (unat ?sp - 8 * Suc i) (unat ?sp) m m2"
    by (rule same_outside_trans[OF h(3) m2(3)]) auto
  ultimately show ?case using p m2(1,2,4) by (auto simp: less_Suc_eq algebra_simps)
qed

text \<open>The padding and the pointers of an array of \<open>n\<close> entries take a multiple of 16 bytes.\<close>

definition array_size :: "nat \<Rightarrow> nat" where
  "array_size n = 16 * ((n + 1) div 2)"

lemma array_size_split: "array_size n = 8 * n + (if n mod 2 = 1 then 8 else 0)"
  unfolding array_size_def by (cases "n mod 2 = 1") (presburger+)

lemma push_pad_correct:
  assumes "8 \<le> unat (stackPointer c)" "push_pad n m c = (m', c')"
  defines "k \<equiv> (if n mod 2 = 1 then 8 else 0 :: nat)"
  shows "c' = c\<lparr>stackPointer := stackPointer c - of_nat k\<rparr>" "unat (stackPointer c - of_nat k) = unat (stackPointer c) - k"
    "same_outside (unat (stackPointer c) - k) (unat (stackPointer c)) m m'"
    "n mod 2 = 1 \<Longrightarrow> load_long m' (stackPointer c - of_nat k) = 0"
  using assms(2) pushLong_correct[OF assms(1), of m 0] unfolding push_pad_def k_def by (auto split: if_splits)

lemma push_array_correct:
  assumes "8 + array_size n \<le> unat (stackPointer c)" "push_pad n m c = (m1, c1)"
  defines "sp \<equiv> stackPointer c - of_nat (array_size n)"
  shows "\<exists>m'. push_longs n m1 c1 arr = (m', c\<lparr>stackPointer := sp\<rparr>)
    \<and> unat sp = unat (stackPointer c) - array_size n
    \<and> same_outside (unat (stackPointer c) - array_size n) (unat (stackPointer c)) m m'
    \<and> (\<forall>j < n. load_long m' (sp + 8 * of_nat j) = arr ! j)
    \<and> (n mod 2 = 1 \<longrightarrow> load_long m' (sp + 8 * of_nat n) = 0)"
proof -
  let ?k = "if n mod 2 = 1 then 8 else 0 :: nat" and ?s0 = "stackPointer c"
  have e8: "8 \<le> unat ?s0" using assms(1) by linarith
  have sz: "array_size n = 8 * n + ?k" by (rule array_size_split)
  have c1: "c1 = c\<lparr>stackPointer := ?s0 - of_nat ?k\<rparr>" "unat (?s0 - of_nat ?k) = unat ?s0 - ?k"
    "same_outside (unat ?s0 - ?k) (unat ?s0) m m1" "n mod 2 = 1 \<Longrightarrow> load_long m1 (?s0 - of_nat ?k) = 0"
    using push_pad_correct[OF e8 assms(2)] by blast+
  have sp: "?s0 - of_nat ?k - 8 * of_nat n = sp" unfolding sp_def sz by (simp add: algebra_simps)
  have room: "8 * n \<le> unat (stackPointer c1)" unfolding c1(1) using assms(1) sz c1(2) by simp
  obtain m' where m': "push_longs n m1 c1 arr = (m', c\<lparr>stackPointer := sp\<rparr>)" "unat sp = unat ?s0 - ?k - 8 * n"
    "same_outside (unat ?s0 - ?k - 8 * n) (unat ?s0 - ?k) m1 m'" "\<forall>j < n. load_long m' (sp + 8 * of_nat j) = arr ! j"
    using push_longs_correct[OF room, of m1 arr] c1(1,2) sp by auto
  have u: "unat sp = unat ?s0 - array_size n" using m'(2) sz by simp
  have out: "same_outside (unat ?s0 - array_size n) (unat ?s0) m m'"
    by (rule same_outside_trans[OF c1(3) m'(3)]) (use sz in auto)
  have top: "load_long m' (sp + 8 * of_nat n) = 0" if odd: "n mod 2 = 1"
  proof -
    have lt: "unat ?s0 < 2 ^ 64" using unsigned_less[of ?s0, where ?'a = nat] by simp
    have a: "sp + 8 * of_nat n = ?s0 - of_nat ?k" by (simp add: sp[symmetric])
    have "clear_of (unat ?s0 - ?k - 8 * n) (unat ?s0 - ?k) (?s0 - of_nat ?k) 8"
      using c1(2) e8 lt odd by (simp add: clear_of_def)
    then show ?thesis using load_long_same[OF m'(3)] c1(4)[OF odd] unfolding a by metis
  qed
  show ?thesis using m'(1,4) u out top by blast
qed

section \<open>The whole layout\<close>

definition args_size :: "u8 list list \<Rightarrow> u8 list list \<Rightarrow> nat" where
  "args_size as es = strings_size as + strings_size es + array_size (length as) + array_size (length es + 1)"

lemma strings_size_16: "16 dvd strings_size ss"
  by (induction ss) (auto simp: strings_size_def padded_def)

lemma args_size_16: "16 dvd args_size as es"
  using strings_size_16 by (simp add: args_size_def array_size_def)

text \<open>C32: a program starts on a stack that holds its arguments. \<open>storeProgramArgs\<close> copies every
  argument and every environment string below the stack pointer, passes the number of arguments
  and the addresses of two arrays of pointers to the copies in the first three registers, ends
  the environment array with a null pointer (and the argument array, when there is an odd
  number of arguments), keeps the stack pointer aligned to 16 bytes, and changes no memory
  outside the \<open>args_size\<close> bytes below the old stack pointer.\<close>

theorem program_args_layout:
  fixes c :: Context
  assumes "arg_array m lo (unat (stackPointer c)) argv as" "arg_array m lo (unat (stackPointer c)) envp es"
    and "8 \<le> lo" "lo + args_size as es \<le> unat (stackPointer c)" "length (gpRegs c) = 31"
    and "unat (stackPointer c) mod 16 = 0"
  shows "\<exists>m' c'. storeProgramArgs m c argv envp = Some (m', c')
    \<and> gpRegs c' ! 0 = of_nat (length as) \<and> stackPointer c' = gpRegs c' ! 2
    \<and> unat (stackPointer c') = unat (stackPointer c) - args_size as es \<and> unat (stackPointer c') mod 16 = 0
    \<and> same_outside (unat (stackPointer c')) (unat (stackPointer c)) m m'
    \<and> (\<forall>i < length as. cstr m' (load_long m' (gpRegs c' ! 1 + 8 * of_nat i)) (as ! i))
    \<and> (odd (length as) \<longrightarrow> load_long m' (gpRegs c' ! 1 + 8 * of_nat (length as)) = 0)
    \<and> (\<forall>i < length es. cstr m' (load_long m' (gpRegs c' ! 2 + 8 * of_nat i)) (es ! i))
    \<and> load_long m' (gpRegs c' ! 2 + 8 * of_nat (length es)) = 0"
proof -
  let ?s0 = "stackPointer c" and ?a = "strings_size as" and ?e = "strings_size es"
    and ?A = "array_size (length as)" and ?E = "array_size (length es + 1)"
  have lt: "unat ?s0 < 2 ^ 64" using unsigned_less[of ?s0, where ?'a = nat] by simp
  have sz: "lo + (?a + ?e + ?A + ?E) \<le> unat ?s0" using assms(4) by (simp add: args_size_def)
  have fa: "lo + strings_size (take (length as) as) \<le> unat ?s0" and lo0: "0 < lo" using sz assms(3) by auto
  obtain m1 arr where m1: "push_strings (length as) m c argv (replicate (length as) 0)
      = Some (m1, c\<lparr>stackPointer := ?s0 - of_nat ?a\<rparr>, arr)"
    "same_outside (unat ?s0 - ?a) (unat ?s0) m m1" "strings_at m1 (unat ?s0 - ?a) (unat ?s0) arr as (length as)"
    using push_strings_correct[OF assms(1) order_refl _ lo0 fa order_refl, of "replicate (length as) 0"] by auto
  define c1 where "c1 = c\<lparr>stackPointer := ?s0 - of_nat ?a\<rparr>"
  have u1: "unat (stackPointer c1) = unat ?s0 - ?a" unfolding c1_def using sz by (simp add: unat_sub_of_nat)
  have arr_e: "arg_array m1 lo (unat ?s0) envp es"
    by (rule arg_array_same[OF assms(2) same_outside_mono[OF m1(2)]]) (use sz in auto)
  have fe: "lo + strings_size (take (length es) es) \<le> unat (stackPointer c1)" "unat (stackPointer c1) \<le> unat ?s0"
    using u1 sz by auto
  obtain m2 env where m2: "push_strings (length es) m1 c1 envp (replicate (length es + 1) 0)
      = Some (m2, c1\<lparr>stackPointer := stackPointer c1 - of_nat ?e\<rparr>, env)"
    "same_outside (unat ?s0 - ?a - ?e) (unat ?s0 - ?a) m1 m2" "length env = length es + 1"
    "strings_at m2 (unat ?s0 - ?a - ?e) (unat ?s0 - ?a) env es (length es)"
    using push_strings_correct[OF arr_e order_refl _ lo0 _ fe(2), of "replicate (length es + 1) 0"] fe(1) u1 by auto
  define c2 where "c2 = c1\<lparr>stackPointer := stackPointer c1 - of_nat ?e\<rparr>"
  have u2: "unat (stackPointer c2) = unat ?s0 - ?a - ?e" unfolding c2_def using u1 sz by (simp add: unat_sub_of_nat)
  obtain m3 c3 where p3: "push_pad (length as) m2 c2 = (m3, c3)" by (metis surj_pair)
  have r3: "8 + ?A \<le> unat (stackPointer c2)" using u2 sz assms(3) by linarith
  define s4 where "s4 = stackPointer c2 - of_nat ?A"
  obtain m4 where m4: "push_longs (length as) m3 c3 arr = (m4, c2\<lparr>stackPointer := s4\<rparr>)"
    "unat s4 = unat ?s0 - ?a - ?e - ?A" "same_outside (unat ?s0 - ?a - ?e - ?A) (unat ?s0 - ?a - ?e) m2 m4"
    "\<forall>j < length as. load_long m4 (s4 + 8 * of_nat j) = arr ! j"
    "length as mod 2 = 1 \<longrightarrow> load_long m4 (s4 + 8 * of_nat (length as)) = 0"
    using push_array_correct[OF r3 p3, of arr] unfolding s4_def u2 by blast
  define c4 where "c4 = c2\<lparr>stackPointer := s4\<rparr>"
  obtain m5 c5 where p5: "push_pad (length es + 1) m4 c4 = (m5, c5)" by (metis surj_pair)
  have r5: "8 + ?E \<le> unat (stackPointer c4)" unfolding c4_def using m4(2) sz assms(3) by simp
  define s6 where "s6 = s4 - of_nat ?E"
  have s6e: "stackPointer c4 - of_nat ?E = s6" by (simp add: c4_def s6_def)
  have u4: "unat (stackPointer c4) = unat ?s0 - ?a - ?e - ?A" by (simp add: c4_def m4(2))
  obtain m6 where m6: "push_longs (length es + 1) m5 c5 (env[length es := 0]) = (m6, c4\<lparr>stackPointer := s6\<rparr>)"
    "unat s6 = unat ?s0 - ?a - ?e - ?A - ?E" "same_outside (unat ?s0 - ?a - ?e - ?A - ?E) (unat ?s0 - ?a - ?e - ?A) m4 m6"
    "\<forall>j < length es + 1. load_long m6 (s6 + 8 * of_nat j) = env[length es := 0] ! j"
    using push_array_correct[OF r5 p5, of "env[length es := 0]"] unfolding s6e u4 by blast
  define c' where "c' = setProcessArgs (c4\<lparr>stackPointer := s6\<rparr>) (int (length as)) s4 s6"
  have run: "storeProgramArgs m c argv envp = Some (m6, c')"
    using count_args_correct[OF assms(1), of 0] count_args_correct[OF assms(2), of 0] m1(1) m2(1) p3 m4(1) p5 m6(1)
    by (simp add: storeProgramArgs_def c'_def c1_def[symmetric] c2_def[symmetric] c4_def[symmetric])
       (simp add: c4_def)
  have regs: "gpRegs c' ! 0 = of_nat (length as)" "gpRegs c' ! 1 = s4" "gpRegs c' ! 2 = s6" "stackPointer c' = s6"
    using assms(5) by (simp_all add: c'_def setProcessArgs_def c4_def c2_def c1_def)
  have o46: "same_outside (unat s6) (unat ?s0 - ?a - ?e) m2 m6"
    by (rule same_outside_trans[OF m4(3) m6(3)]) (use m6(2) in auto)
  have o26: "same_outside (unat s6) (unat ?s0 - ?a) m1 m6"
    by (rule same_outside_trans[OF m2(2) o46]) (use m6(2) in auto)
  have o6: "same_outside (unat s6) (unat ?s0) m m6"
    by (rule same_outside_trans[OF m1(2) o26]) (use m6(2) in auto)
  have sa: "strings_at m6 (unat ?s0 - ?a) (unat ?s0) arr as (length as)"
    by (rule strings_at_same[OF m1(3) o26]) (use lt in simp)
  have se: "strings_at m6 (unat ?s0 - ?a - ?e) (unat ?s0 - ?a) env es (length es)"
    by (rule strings_at_same[OF m2(4) o46]) (use lt in simp)
  have keep: "load_long m6 (s4 + 8 * of_nat j) = load_long m4 (s4 + 8 * of_nat j)" if "8 * j + 8 \<le> ?A" for j
  proof -
    have b: "unat s4 + ?A \<le> unat ?s0" using m4(2) sz by linarith
    then have "unat (s4 + of_nat (8 * j)) = unat s4 + 8 * j" using lt that by (intro unat_add_of_nat) simp
    then have "clear_of (unat s6) (unat s4) (s4 + 8 * of_nat j) 8"
      using b lt that unfolding clear_of_def by simp
    then show ?thesis using load_long_same[OF m6(3)] m4(2) m6(2) by simp
  qed
  have inA: "8 * j + 8 \<le> ?A" if "j < length as \<or> j = length as \<and> odd (length as)" for j
    using that by (auto simp: array_size_split odd_iff_mod_2_eq_one)
  have args: "\<forall>i < length as. cstr m6 (load_long m6 (s4 + 8 * of_nat i)) (as ! i)"
    using keep inA m4(4) sa unfolding strings_at_def by metis
  have argn: "odd (length as) \<longrightarrow> load_long m6 (s4 + 8 * of_nat (length as)) = 0"
    using keep inA m4(5) by (metis odd_iff_mod_2_eq_one)
  have envs: "\<forall>i < length es. cstr m6 (load_long m6 (s6 + 8 * of_nat i)) (es ! i)"
    using m6(4) se m2(3) unfolding strings_at_def by simp
  have envn: "load_long m6 (s6 + 8 * of_nat (length es)) = 0" using m6(4) m2(3) by simp
  have us6: "unat s6 = unat ?s0 - args_size as es" using m6(2) by (simp add: args_size_def)
  have "unat s6 mod 16 = 0" unfolding us6
    using args_size_16[of as es] assms(6) by (metis dvd_diff_nat mod_eq_0_iff_dvd)
  then show ?thesis using run regs us6 o6 args argn envs envn by (intro exI[of _ m6] exI[of _ c']) simp
qed

text \<open>A memory with the strings \<open>A\<close> and \<open>B\<close>, an array with the first, one with both and an empty one.\<close>

definition sample_args :: memory where
  "sample_args = store_long (store_long (store_long (store_bytes (\<lambda>_. 0) 0x2000 [65, 0, 66])
     0x1000 0x2000) 0x1100 0x2000) 0x1108 0x2002"

definition sample_stack :: Context where
  "sample_stack = Context_init2 0 0x10000"

lemma le_bytes_8: "le_bytes 8 v = map (\<lambda>i. ucast (drop_bit (8 * i) v)) [0, 1, 2, 3, 4, 5, 6, 7]"
  by (simp add: eval_nat_numeral)

lemma load_long_bytes:
  "load_long m a = le_word [m a, m (a + 1), m (a + 2), m (a + 3), m (a + 4), m (a + 5), m (a + 6), m (a + 7)]"
  by (simp add: load_long_def load_bytes_def upt_rec)

lemma sample_args_loads:
  "load_long sample_args 0x1000 = 0x2000" "load_long sample_args 0x1008 = 0" "load_long sample_args 0x1200 = 0"
  "load_bytes sample_args 0x2000 2 = [65, 0]"
  by (simp_all add: sample_args_def store_long_def load_long_bytes le_bytes_8) (simp add: load_bytes_def upt_rec)

lemma sample_stack_at: "unat (stackPointer sample_stack) = 0x10000" "length (gpRegs sample_stack) = 31"
  by (simp_all add: sample_stack_def Context_init2_def Context_init3_def)

lemma sample_args_array:
  "arg_array sample_args 0x8000 (unat (stackPointer sample_stack)) 0x1000 [[65]]"
  "arg_array sample_args 0x8000 (unat (stackPointer sample_stack)) 0x1200 []"
  unfolding sample_stack_at arg_array_def clear_of_def cstr_def by (simp_all add: sample_args_loads numeral_2_eq_2[symmetric])

theorem program_args_layout_witness:
  "\<exists>m' c'. storeProgramArgs sample_args sample_stack 0x1000 0x1200 = Some (m', c')
    \<and> gpRegs c' ! 0 = 1 \<and> unat (stackPointer c') = 0x10000 - args_size [[65]] []
    \<and> cstr m' (load_long m' (gpRegs c' ! 1)) [65] \<and> load_long m' (gpRegs c' ! 1 + 8) = 0
    \<and> load_long m' (gpRegs c' ! 2) = 0"
proof -
  have fit: "0x8000 + args_size [[65]] [] \<le> unat (stackPointer sample_stack)"
    unfolding sample_stack_at by (simp add: args_size_def strings_size_def padded_def array_size_def)
  have "unat (stackPointer sample_stack) mod 16 = 0" unfolding sample_stack_at by simp
  then show ?thesis using program_args_layout[OF sample_args_array _ fit sample_stack_at(2)] sample_stack_at(1) by auto
qed

text \<open>For an even number of arguments the array has no terminating null pointer: the entry
  after the last argument is the first eight bytes of the copied strings.\<close>

theorem program_args_not_terminated:
  "map_option (\<lambda>(m', c'). (gpRegs c' ! 0, load_long m' (gpRegs c' ! 1 + 8 * 2)))
     (storeProgramArgs sample_args sample_stack 0x1100 0x1200) = Some (2, 0x41)"
  by code_simp

end
