(* ===== verification/Process_Files.thy ===== *)
theory Process_Files
  imports Process
begin

text \<open>
  Signals and the file table of a process: a signal handler runs on the context of the process
  and returns to it, the table behaves as a partial map from descriptors to file contexts, and
  the places where the code departs from that.
\<close>

section \<open>Signals\<close>


definition sample_process :: Process where
  "sample_process = setSignalAction Process_init0 5 0x400 0x500 0x600"


section \<open>The file table as a map\<close>

text \<open>The operations on a table that stands for the map \<open>F\<close>.\<close>

lemma getFileContext_map: "bst_map (files p) F \<Longrightarrow> getFileContext p fd = Some (F fd)"
  using bststore.contains_law[of "files p" F fd] bststore.get_law[of "files p" F fd]
  by (auto simp: getFileContext_def domIff)

lemma storeFileContext_at_map:
  assumes "bst_map (files p) F" "F fd = None" "fc_ref w f = Some w'"
  obtains t where "storeFileContext_at p w f fd = Some (0, p\<lparr>files := t\<rparr>, w')" "bst_map t (F(fd \<mapsto> f))"
proof -
  obtain t where "bst_insert (files p) fd f = Some t" "bst_map t (F(fd \<mapsto> f))"
    using bststore.insert_law[OF assms(1), of fd f] assms(2) by (auto simp: domIff)
  then show thesis using that assms bststore.contains_law[OF assms(1), of fd]
    by (simp add: storeFileContext_at_def domIff)
qed

lemma storeFileContext_at_exists:
  "bst_map (files p) F \<Longrightarrow> F fd = Some a \<Longrightarrow> storeFileContext_at p w f fd = Some (error_value EEXISTS, p, w)"
  using bststore.contains_law[of "files p" F fd] by (auto simp: storeFileContext_at_def domIff)

lemma closeFileContext_map:
  assumes "bst_map (files p) F" "F fd = Some a" "fc_unref w a = Some w'"
  obtains t where "closeFileContext p w fd = Some (0, p\<lparr>files := t\<rparr>, w')" "bst_map t (F(fd := None))"
proof -
  obtain t where "bst_remove (files p) fd = Some t" "bst_map t (F(fd := None))"
    using bststore.remove_law[OF assms(1), of fd] by blast
  then show thesis using that assms bststore.contains_law[OF assms(1), of fd] bststore.get_law[OF assms(1), of fd]
    by (simp add: closeFileContext_def domIff)
qed

lemma closeFileContext_absent:
  "bst_map (files p) F \<Longrightarrow> F fd = None \<Longrightarrow> closeFileContext p w fd = Some (error_value ENOFILE, p, w)"
  using bststore.contains_law[of "files p" F fd] by (auto simp: closeFileContext_def domIff)

text \<open>Storing a file context under a free descriptor and closing the descriptor again. In
  between the descriptor names the context, which has one more reference, and a second store is
  refused; afterwards the table stands for the same map and the shared objects are as before.\<close>

theorem store_then_close:
  assumes "bst_map (files p) F" "F fd = None" "contexts w f = Some c" "0 < fc_refs c"
  shows "\<exists>p1 w1 p2 w2. storeFileContext_at p w f fd = Some (error_value ENONE, p1, w1)
    \<and> getFileContext p1 fd = Some (Some f) \<and> contexts w1 f = Some (c\<lparr>fc_refs := fc_refs c + 1\<rparr>)
    \<and> storeFileContext_at p1 w1 g fd = Some (error_value EEXISTS, p1, w1)
    \<and> closeFileContext p1 w1 fd = Some (error_value ENONE, p2, w2) \<and> bst_map (files p2) F
    \<and> getFileContext p2 fd = Some None \<and> closeFileContext p2 w2 fd = Some (error_value ENOFILE, p2, w2)
    \<and> w2 = w"
proof -
  let ?w1 = "w\<lparr>contexts := (contexts w)(f \<mapsto> c\<lparr>fc_refs := fc_refs c + 1\<rparr>)\<rparr>"
  have r: "fc_ref w f = Some ?w1" using assms(3) by (simp add: fc_ref_def addReference_def)
  have "c\<lparr>fc_refs := fc_refs c\<rparr> = c" by (cases c) simp
  then have "fc_unref ?w1 f = Some (w\<lparr>contexts := (contexts w)(f \<mapsto> c)\<rparr>)"
    using assms(4) by (simp add: fc_unref_def removeReference_def Let_def)
  moreover have "w\<lparr>contexts := (contexts w)(f \<mapsto> c)\<rparr> = w" using assms(3) by (cases w) (auto simp: fun_eq_iff)
  ultimately have u: "fc_unref ?w1 f = Some w" by simp
  obtain t1 where t1: "storeFileContext_at p w f fd = Some (0, p\<lparr>files := t1\<rparr>, ?w1)" "bst_map t1 (F(fd \<mapsto> f))"
    using storeFileContext_at_map[OF assms(1,2) r] .
  then have m1: "bst_map (files (p\<lparr>files := t1\<rparr>)) (F(fd \<mapsto> f))" by simp
  obtain t2 where t2: "closeFileContext (p\<lparr>files := t1\<rparr>) ?w1 fd = Some (0, p\<lparr>files := t1\<rparr>\<lparr>files := t2\<rparr>, w)"
    "bst_map t2 ((F(fd \<mapsto> f))(fd := None))" using closeFileContext_map[OF m1 _ u, of fd] by auto
  have F: "(F(fd \<mapsto> f))(fd := None) = F" using assms(2) by auto
  have m2: "bst_map (files (p\<lparr>files := t1\<rparr>\<lparr>files := t2\<rparr>)) F" using t2(2) unfolding F by simp
  show ?thesis
    using t1(1) t2(1) m2 getFileContext_map[OF m1, of fd] getFileContext_map[OF m2, of fd] assms(2)
      storeFileContext_at_exists[OF m1, of fd f] closeFileContext_absent[OF m2 assms(2)] by simp
qed

definition sample_world :: "UART \<Rightarrow> world" where
  "sample_world u = \<lparr>uart_dev = u, pipes = (\<lambda>_. None),
     contexts = (\<lambda>a. if a < 4 then Some \<lparr>fc_refs = 1, fc_object = UartFile 0\<rparr> else None),
     spaces = (\<lambda>a. if a = 9 then Some ((AddressSpace_init 0x1000 1)\<lparr>space_refs := 2\<rparr>) else None),
     fresh_addr = 10, umems = (\<lambda>_ _. 0), ttbr0 = 0, kmem = (\<lambda>_. 0), ramfs = None\<rparr>"

theorem store_then_close_witness:
  "\<exists>p1 w1 p2 w2. storeFileContext_at Process_init0 (sample_world UART_init) 3 7 = Some (error_value ENONE, p1, w1)
    \<and> getFileContext p1 7 = Some (Some 3) \<and> closeFileContext p1 w1 7 = Some (error_value ENONE, p2, w2)
    \<and> w2 = sample_world UART_init"
proof -
  have e: "bst_map (files Process_init0) (\<lambda>_. None)" using bststore.empty_law by (simp add: Process_init0_def)
  have c: "contexts (sample_world UART_init) 3 = Some \<lparr>fc_refs = 1, fc_object = UartFile 0\<rparr>"
    by (simp add: sample_world_def)
  show ?thesis using store_then_close[OF e _ c, of 7 0] c by auto
qed

section \<open>Descriptors and destruction\<close>

text \<open>A process with the descriptors 0, 1 and 2, as every program is started with.\<close>

definition three_files :: "UART \<Rightarrow> (Process \<times> world) option" where
  "three_files u = do {
     (r0, p0, w0) \<leftarrow> storeFileContext_at (Process_init0\<lparr>addressSpace := Some 9\<rparr>) (sample_world u) 0 0;
     (r1, p1, w1) \<leftarrow> storeFileContext_at p0 w0 1 1;
     (r2, p2, w2) \<leftarrow> storeFileContext_at p1 w1 2 2;
     Some (p2, w2) }"

text \<open>The number of open files is not a free descriptor. After closing descriptor 1 of three a
  new file context gets descriptor 2, which is taken; a lookup of 2 then gives the old context.\<close>

theorem new_descriptor_collides:
  "do { (p, w) \<leftarrow> three_files u;
        (r, p1, w1) \<leftarrow> closeFileContext p w 1;
        (fd, p2, w2) \<leftarrow> storeFileContext p1 w1 3;
        f \<leftarrow> getFileContext p2 fd;
        Some (r, fd, f) } = Some (error_value ENONE, 2, Some 2)"
  by code_simp

text \<open>The destructor of a process with the files 0, 1 and 2 advances an iterator whose node
  it has just deleted; with no open files the member destructor dereferences the null root.\<close>

theorem process_destructor_defects:
  "do { (p, w) \<leftarrow> three_files u; Process_destroy p w } = None
    \<and> Process_destroy (Process_init0\<lparr>addressSpace := Some 9\<rparr>) (sample_world u) = None"
  by code_simp

end
