(* ===== verification/Sched_Queue.thy ===== *)
theory Sched_Queue
  imports Cros_Prelude
begin

text \<open>
  The scheduler's queue, \<^verbatim>\<open>src/sched/queue.cpp\<close>: a doubly linked list of heap nodes that hold
  pointers to processes, and the pointer to the running process. Nodes lie in the store
  \<open>qnodes\<close>; \<open>new\<close> takes the next unused address, \<open>delete\<close> removes the address. The type of
  process pointers is a parameter; \<open>remove\<close> reads the process identifier through them.
\<close>

section \<open>State and operations\<close>

record 'p qnode =
  qvalue :: 'p
  qprev :: "nat option"
  qnext :: "nat option"

record 'p queue =
  queue_size :: int
  linked_list_front :: "nat option"
  linked_list_back :: "nat option"
  cur_Process :: "'p option"
  qnodes :: "nat \<Rightarrow> 'p qnode option"
  qfresh :: nat

definition qnode_init :: "'p \<Rightarrow> 'p qnode" where
  "qnode_init v = \<lparr>qvalue = v, qprev = None, qnext = None\<rparr>"

definition queue_init :: "'p queue" where
  "queue_init = \<lparr>queue_size = 0, linked_list_front = None, linked_list_back = None,
     cur_Process = None, qnodes = (\<lambda>_. None), qfresh = 0\<rparr>"

definition queue_empty :: "'p queue \<Rightarrow> bool" where
  "queue_empty q = (if queue_size q = 0 then True else False)"

definition enqueue :: "'p queue \<Rightarrow> 'p \<Rightarrow> 'p queue option" where
  "enqueue q process =
     (let x = qfresh q;
          q1 = q\<lparr>qnodes := (qnodes q)(x := Some (qnode_init process)), qfresh := x + 1\<rparr>
      in do {
        q2 \<leftarrow> (if queue_empty q then Some (q1\<lparr>linked_list_front := Some x\<rparr>)
               else do {
                 last_node \<leftarrow> linked_list_back q1;
                 ln \<leftarrow> qnodes q1 last_node;
                 let s = (qnodes q1)(last_node := Some (ln\<lparr>qnext := Some x\<rparr>));
                 xn \<leftarrow> s x;
                 Some (q1\<lparr>qnodes := s(x := Some (xn\<lparr>qprev := Some last_node\<rparr>))\<rparr>) });
        Some (q2\<lparr>linked_list_back := Some x, queue_size := queue_size q2 + 1\<rparr>) })"

definition dequeue :: "'p queue \<Rightarrow> ('p option \<times> 'p queue) option" where
  "dequeue q =
     (if queue_size q = 0 then Some (None, q)
      else do {
        return_node \<leftarrow> linked_list_front q;
        n \<leftarrow> qnodes q return_node;
        let q1 = q\<lparr>linked_list_front := qnext n\<rparr>;
        let q2 = (if linked_list_back q1 = Some return_node then q1\<lparr>linked_list_back := None\<rparr> else q1);
        Some (Some (qvalue n),
              q2\<lparr>qnodes := (qnodes q2)(return_node := None), queue_size := queue_size q2 - 1\<rparr>) })"

text \<open>The loop of \<open>remove\<close>. It leaves the function without a return statement at the last node,
  which is undefined.\<close>

partial_function (option) remove_from :: "('p \<Rightarrow> pid_t option) \<Rightarrow> 'p queue \<Rightarrow> pid_t \<Rightarrow> nat option
    \<Rightarrow> ('p \<times> 'p queue) option" where
  "remove_from getPid q pid cur_node = do {
     c \<leftarrow> cur_node;
     n \<leftarrow> qnodes q c;
     nxt \<leftarrow> qnext n;
     i \<leftarrow> getPid (qvalue n);
     (if i = pid then do {
        p \<leftarrow> qprev n;
        pn \<leftarrow> qnodes q p;
        let s1 = (qnodes q)(p := Some (pn\<lparr>qnext := Some nxt\<rparr>));
        nn \<leftarrow> s1 nxt;
        let s2 = s1(nxt := Some (nn\<lparr>qprev := Some p\<rparr>));
        Some (qvalue n, q\<lparr>qnodes := s2(c := None)\<rparr>) }
      else remove_from getPid q pid (Some nxt)) }"

definition queue_remove :: "('p \<Rightarrow> pid_t option) \<Rightarrow> 'p queue \<Rightarrow> pid_t \<Rightarrow> ('p \<times> 'p queue) option" where
  "queue_remove getPid q pid = remove_from getPid q pid (linked_list_front q)"

definition queue_peek :: "'p queue \<Rightarrow> 'p option" where
  "queue_peek q = do { a \<leftarrow> linked_list_front q; n \<leftarrow> qnodes q a; Some (qvalue n) }"

definition set_cur_process :: "'p queue \<Rightarrow> 'p option \<Rightarrow> 'p queue" where
  "set_cur_process q p = q\<lparr>cur_Process := p\<rparr>"

definition sched_next :: "'p queue \<Rightarrow> ('p option \<times> 'p queue) option" where
  "sched_next q = do {
     q1 \<leftarrow> (case cur_Process q of Some p \<Rightarrow> enqueue q p | None \<Rightarrow> Some q);
     (if \<not> queue_empty q1 then do {
        (r, q2) \<leftarrow> dequeue q1;
        Some (r, q2\<lparr>cur_Process := r\<rparr>) }
      else Some (None, q1)) }"

declare remove_from.simps [code]

section \<open>The list in the store\<close>

fun qlist :: "(nat \<Rightarrow> 'p qnode option) \<Rightarrow> nat list \<Rightarrow> 'p list \<Rightarrow> bool" where
  "qlist s [] [] = True"
| "qlist s (a # as) (x # xs) = (\<exists>n. s a = Some n \<and> qvalue n = x \<and> qnext n = first_of as \<and> qlist s as xs)"
| "qlist s _ _ = False"

definition last_of :: "'a list \<Rightarrow> 'a option" where
  "last_of xs = (if xs = [] then None else Some (last xs))"

definition queue_rep :: "'p queue \<Rightarrow> 'p list \<Rightarrow> bool" where
  "queue_rep q xs \<longleftrightarrow> (\<exists>as. qlist (qnodes q) as xs \<and> distinct as
     \<and> linked_list_front q = first_of as \<and> linked_list_back q = last_of as
     \<and> (\<forall>a. qnodes q a \<noteq> None \<longleftrightarrow> a \<in> set as) \<and> (\<forall>a \<in> set as. a < qfresh q)
     \<and> queue_size q = int (length xs))"

lemma qlist_length: "qlist s as xs \<Longrightarrow> length as = length xs"
  by (induction s as xs rule: qlist.induct) auto

lemma qlist_cong: "qlist s as xs \<Longrightarrow> (\<And>a. a \<in> set as \<Longrightarrow> s' a = s a) \<Longrightarrow> qlist s' as xs"
  by (induction s as xs rule: qlist.induct) auto

lemma qlist_snoc:
  assumes "qlist s as xs" "as \<noteq> []" "distinct as" "x \<notin> set as"
  shows "\<exists>n. s (last as) = Some n \<and>
    qlist (s(last as := Some (n\<lparr>qnext := Some x\<rparr>), x := Some \<lparr>qvalue = v, qprev = p, qnext = None\<rparr>)) (as @ [x]) (xs @ [v])"
  using assms
proof (induction s as xs rule: qlist.induct)
  case (2 s a as y ys)
  obtain n where n: "s a = Some n" "qvalue n = y" "qnext n = first_of as" "qlist s as ys" using 2(2) by auto
  show ?case
  proof (cases as)
    case Nil
    then have "ys = []" using qlist_length[OF n(4)] by simp
    then show ?thesis using n Nil 2 by auto
  next
    case (Cons b bs)
    have pre: "as \<noteq> []" "distinct as" "x \<notin> set as" using Cons 2(4,5) by auto
    obtain m where m: "s (last as) = Some m"
      "qlist (s(last as := Some (m\<lparr>qnext := Some x\<rparr>), x := Some \<lparr>qvalue = v, qprev = p, qnext = None\<rparr>)) (as @ [x]) (ys @ [v])"
      using 2(1)[OF n(4) pre] by blast
    have "a \<noteq> last as" using 2(4) Cons by (metis distinct.simps(2) last_in_set list.distinct(1))
    moreover have "a \<noteq> x" using 2(5) by auto
    ultimately show ?thesis using n m Cons by (auto simp: fun_upd_def)
  qed
qed auto

lemma enqueue_correct:
  assumes "queue_rep q xs"
  shows "\<exists>q'. enqueue q p = Some q' \<and> queue_rep q' (xs @ [p]) \<and> cur_Process q' = cur_Process q"
proof -
  obtain as where a: "qlist (qnodes q) as xs" "distinct as" "linked_list_front q = first_of as"
    "linked_list_back q = last_of as" "\<And>a. qnodes q a \<noteq> None \<longleftrightarrow> a \<in> set as" "\<forall>a \<in> set as. a < qfresh q"
    "queue_size q = int (length xs)" using assms unfolding queue_rep_def by blast
  have fresh: "qfresh q \<notin> set as" using a(6) by auto
  show ?thesis
  proof (cases as)
    case Nil
    then have xs: "xs = []" using qlist_length[OF a(1)] by simp
    let ?q = "q\<lparr>qnodes := (qnodes q)(qfresh q := Some (qnode_init p)), qfresh := qfresh q + 1,
      linked_list_front := Some (qfresh q), linked_list_back := Some (qfresh q), queue_size := queue_size q + 1\<rparr>"
    have "enqueue q p = Some ?q" using a(7) xs by (simp add: enqueue_def queue_empty_def Let_def)
    moreover have "queue_rep ?q (xs @ [p])"
      unfolding queue_rep_def using a(5,7) xs Nil
      by (intro exI[of _ "[qfresh q]"]) (auto simp: qnode_init_def last_of_def)
    ultimately show ?thesis by auto
  next
    case (Cons b bs)
    then have ne: "as \<noteq> []" "xs \<noteq> []" using qlist_length[OF a(1)] by auto
    let ?l = "last as" and ?x = "qfresh q"
    obtain n where n: "qnodes q ?l = Some n"
      "qlist ((qnodes q)(?l := Some (n\<lparr>qnext := Some ?x\<rparr>), ?x := Some \<lparr>qvalue = p, qprev = Some ?l, qnext = None\<rparr>)) (as @ [?x]) (xs @ [p])"
      using qlist_snoc[OF a(1) ne(1) a(2) fresh] by blast
    have lx: "?l \<noteq> ?x" using fresh ne(1) by (metis last_in_set)
    let ?s = "(qnodes q)(?l := Some (n\<lparr>qnext := Some ?x\<rparr>), ?x := Some \<lparr>qvalue = p, qprev = Some ?l, qnext = None\<rparr>)"
    have se: "(qnodes q)(?x := Some (qnode_init p), ?l := Some (n\<lparr>qnext := Some ?x\<rparr>),
        ?x := Some ((qnode_init p)\<lparr>qprev := Some ?l\<rparr>)) = ?s"
      using lx by (auto simp: qnode_init_def fun_eq_iff)
    have "\<not> queue_empty q" using a(7) ne(2) by (simp add: queue_empty_def)
    then have e: "enqueue q p = Some (q\<lparr>qnodes := ?s, qfresh := ?x + 1, linked_list_back := Some ?x, queue_size := queue_size q + 1\<rparr>)"
      using a(4) ne(1) n(1) lx se by (cases q) (simp add: enqueue_def last_of_def Let_def)
    have dom: "?s c \<noteq> None \<longleftrightarrow> c \<in> set (as @ [?x])" for c using a(5)[of c] n(1) by auto
    have "queue_rep (q\<lparr>qnodes := ?s, qfresh := ?x + 1, linked_list_back := Some ?x, queue_size := queue_size q + 1\<rparr>) (xs @ [p])"
      unfolding queue_rep_def using n(2) a(2,3,6,7) dom fresh ne(1) Cons
      by (intro exI[of _ "as @ [?x]"]) (auto simp: last_of_def)
    then show ?thesis using e by auto
  qed
qed

lemma dequeue_correct:
  assumes "queue_rep q (x # xs)"
  shows "\<exists>q'. dequeue q = Some (Some x, q') \<and> queue_rep q' xs \<and> cur_Process q' = cur_Process q"
proof -
  obtain as where a: "qlist (qnodes q) as (x # xs)" "distinct as" "linked_list_front q = first_of as"
    "linked_list_back q = last_of as" "\<And>a. qnodes q a \<noteq> None \<longleftrightarrow> a \<in> set as" "\<forall>a \<in> set as. a < qfresh q"
    "queue_size q = int (length (x # xs))" using assms unfolding queue_rep_def by blast
  obtain b bs where ab: "as = b # bs" using qlist_length[OF a(1)] by (cases as) auto
  obtain n where n: "qnodes q b = Some n" "qvalue n = x" "qnext n = first_of bs" "qlist (qnodes q) bs xs"
    using a(1) ab by auto
  have l: "qlist ((qnodes q)(b := None)) bs xs" by (rule qlist_cong[OF n(4)]) (use a(2) ab in auto)
  have bk: "(if linked_list_back q = Some b then None else linked_list_back q) = last_of bs"
  proof (cases "bs = []")
    case False
    then have "last bs \<noteq> b" using a(2) ab by (metis distinct.simps(2) last_in_set)
    then show ?thesis using a(4) ab False by (simp add: last_of_def)
  qed (use a(4) ab in \<open>simp add: last_of_def\<close>)
  let ?q = "q\<lparr>linked_list_front := qnext n, linked_list_back := last_of bs, qnodes := (qnodes q)(b := None),
    queue_size := queue_size q - 1\<rparr>"
  have "dequeue q = Some (Some x, ?q)"
    using a(3,7) ab n bk by (cases q) (auto simp: dequeue_def Let_def)
  moreover have "((qnodes q)(b := None)) c \<noteq> None \<longleftrightarrow> c \<in> set bs" for c using a(5)[of c] a(2) ab by auto
  then have "queue_rep ?q xs"
    unfolding queue_rep_def using l a(2,6,7) n(3) ab by (intro exI[of _ bs]) auto
  ultimately show ?thesis by auto
qed

lemma queue_rep_init: "queue_rep queue_init []"
  unfolding queue_rep_def by (intro exI[of _ "[]"]) (simp add: queue_init_def last_of_def)

lemma queue_rep_cur [simp]: "queue_rep (q\<lparr>cur_Process := p\<rparr>) xs = queue_rep q xs"
  by (simp add: queue_rep_def)

lemma queue_rep_size: "queue_rep q xs \<Longrightarrow> queue_size q = int (length xs)"
  by (auto simp: queue_rep_def)

section \<open>The interface of a queue\<close>

locale fifo =
  fixes holds :: "'s \<Rightarrow> 'p list \<Rightarrow> bool" and enq :: "'s \<Rightarrow> 'p \<Rightarrow> 's option"
    and deq :: "'s \<Rightarrow> ('p option \<times> 's) option" and kept :: "'s \<Rightarrow> 'c"
  assumes enq_law: "holds s xs \<Longrightarrow> \<exists>s'. enq s p = Some s' \<and> holds s' (xs @ [p]) \<and> kept s' = kept s"
    and deq_law: "holds s (x # xs) \<Longrightarrow> \<exists>s'. deq s = Some (Some x, s') \<and> holds s' xs \<and> kept s' = kept s"
    and deq_empty: "holds s [] \<Longrightarrow> deq s = Some (None, s)"
begin

lemma requeue:
  assumes "holds s xs"
  shows "\<exists>s' s''. enq s p = Some s' \<and> holds s' (xs @ [p])
    \<and> deq s' = Some (Some (hd (xs @ [p])), s'') \<and> holds s'' (tl (xs @ [p])) \<and> kept s'' = kept s"
proof -
  obtain s' where s': "enq s p = Some s'" "holds s' (xs @ [p])" "kept s' = kept s" using enq_law[OF assms] by blast
  then have "holds s' (hd (xs @ [p]) # tl (xs @ [p]))" by simp
  then obtain s'' where "deq s' = Some (Some (hd (xs @ [p])), s'')" "holds s'' (tl (xs @ [p]))" "kept s'' = kept s'"
    using deq_law by blast
  then show ?thesis using s' by auto
qed

end

interpretation schedfifo: fifo queue_rep enqueue dequeue cur_Process
proof
  show "dequeue q = Some (None, q)" if "queue_rep q []" for q :: "'p queue"
    using queue_rep_size[OF that] by (simp add: dequeue_def)
qed (fact enqueue_correct, fact dequeue_correct)

section \<open>Round robin\<close>

lemma sched_next_correct:
  assumes "queue_rep q xs"
  defines "ys \<equiv> xs @ (case cur_Process q of None \<Rightarrow> [] | Some p \<Rightarrow> [p])"
  shows "\<exists>q'. sched_next q = Some (first_of ys, q') \<and> queue_rep q' (tl ys) \<and> cur_Process q' = first_of ys"
proof (cases "cur_Process q")
  case (Some p)
  obtain q1 q2 where q: "enqueue q p = Some q1" "queue_rep q1 (xs @ [p])"
    "dequeue q1 = Some (Some (hd (xs @ [p])), q2)" "queue_rep q2 (tl (xs @ [p]))"
    using schedfifo.requeue[OF assms(1)] by blast
  have "\<not> queue_empty q1" using queue_rep_size[OF q(2)] by (simp add: queue_empty_def)
  then have "sched_next q = Some (Some (hd (xs @ [p])), q2\<lparr>cur_Process := Some (hd (xs @ [p]))\<rparr>)"
    using Some q(1,3) by (simp add: sched_next_def)
  moreover have y: "ys = xs @ [p]" using Some by (simp add: ys_def)
  moreover have "first_of ys = Some (hd (xs @ [p]))" unfolding y by (cases xs) simp_all
  ultimately show ?thesis using q(4) by simp
next
  case None
  show ?thesis
  proof (cases xs)
    case Nil
    then have "queue_empty q" using queue_rep_size[OF assms(1)] by (simp add: queue_empty_def)
    then show ?thesis using None Nil assms(1) by (simp add: sched_next_def ys_def)
  next
    case (Cons x zs)
    then obtain q2 where "dequeue q = Some (Some x, q2)" "queue_rep q2 zs" 
      using schedfifo.deq_law[of q x zs] assms(1) by auto
    moreover have "\<not> queue_empty q" using queue_rep_size[OF assms(1)] Cons by (simp add: queue_empty_def)
    ultimately show ?thesis using None Cons by (simp add: sched_next_def ys_def)
  qed
qed

text \<open>Switching \<open>n\<close> times.\<close>

primrec switch_times :: "nat \<Rightarrow> 'p queue \<Rightarrow> ('p option list \<times> 'p queue) option" where
  "switch_times 0 q = Some ([], q)"
| "switch_times (Suc n) q = do {
     (r, q1) \<leftarrow> sched_next q;
     (rs, q2) \<leftarrow> switch_times n q1;
     Some (r # rs, q2) }"

lemma switch_times_correct:
  assumes "queue_rep q xs" "cur_Process q = Some p"
  shows "\<exists>q'. switch_times n q = Some (map (\<lambda>i. Some ((xs @ [p]) ! (i mod Suc (length xs)))) [0..<n], q')"
  using assms
proof (induction n arbitrary: q xs p)
  case (Suc n)
  obtain q1 where q1: "sched_next q = Some (first_of (xs @ [p]), q1)" "queue_rep q1 (tl (xs @ [p]))"
    "cur_Process q1 = first_of (xs @ [p])" using sched_next_correct[OF Suc.prems(1)] Suc.prems(2) by auto
  define x where "x = hd (xs @ [p])"
  define ys where "ys = tl (xs @ [p])"
  have x: "xs @ [p] = x # ys" by (simp add: x_def ys_def)
  have len: "length ys = length xs" using arg_cong[OF x, of length] by simp
  obtain q' where q': "switch_times n q1 = Some (map (\<lambda>i. Some ((ys @ [x]) ! (i mod Suc (length ys)))) [0..<n], q')"
    using Suc.IH[of q1 ys x] q1 x by auto
  have rot: "(ys @ [x]) ! (i mod Suc (length xs)) = (x # ys) ! (Suc i mod Suc (length xs))" for i
  proof -
    have "i mod Suc (length xs) < Suc (length xs)" by simp
    then consider "i mod Suc (length xs) < length xs" | "i mod Suc (length xs) = length xs" by linarith
    then show ?thesis by cases (use len in \<open>simp_all add: mod_Suc nth_append\<close>)
  qed
  have up: "[0..<Suc n] = 0 # map Suc [0..<n]" by (simp only: upt_conv_Cons map_Suc_upt zero_less_Suc)
  show ?case using q1(1) q' unfolding up x by (simp add: len rot)
qed simp

section \<open>Properties\<close>

text \<open>C22: the scheduler is round robin. With \<open>xs\<close> waiting and \<open>p\<close> running, the \<open>i\<close>-th of any number of
  switches runs element \<open>i mod (length xs + 1)\<close> of the cycle \<open>xs @ [p]\<close>; every process runs again
  after at most \<open>length xs\<close> others, and no switch touches freed memory.\<close>

theorem scheduler_round_robin:
  assumes "queue_rep q xs" and "cur_Process q = Some p"
  shows "\<exists>q'. switch_times n q = Some (map (\<lambda>i. Some ((xs @ [p]) ! (i mod Suc (length xs)))) [0..<n], q')"
  using switch_times_correct[OF assms] .

theorem scheduler_round_robin_witness:
  "\<exists>q'. switch_times 5 ((queue_init :: nat queue)\<lparr>cur_Process := Some 7\<rparr>)
    = Some (map (\<lambda>i. Some (([] @ [7]) ! (i mod Suc (length ([] :: nat list))))) [0..<5], q')"
  by (rule scheduler_round_robin) (simp_all add: queue_rep_init)

text \<open>\<open>remove\<close> works only in the middle of the queue and even there loses count. On an empty
  queue and for the process at the front it dereferences a null pointer, for the process at
  the back it leaves the function without a value, and after removing from the middle the
  size is one too large, so that a later \<open>dequeue\<close> of the emptied queue dereferences null.\<close>

theorem queue_remove_defects:
  "(let q0 = (queue_init :: pid_t queue) in
    queue_remove Some q0 1 = None
    \<and> (case Option.bind (enqueue q0 1) (\<lambda>q. enqueue q 2) of None \<Rightarrow> False
       | Some q2 \<Rightarrow> queue_remove Some q2 1 = None \<and> queue_remove Some q2 2 = None
         \<and> (case Option.bind (enqueue q2 3) (\<lambda>q3. queue_remove Some q3 2) of None \<Rightarrow> False
            | Some (p, r) \<Rightarrow> p = 2 \<and> queue_size r = 3
              \<and> do { (a, r1) \<leftarrow> dequeue r; (b, r2) \<leftarrow> dequeue r1; Some (a, b, map_option fst (dequeue r2)) }
                  = Some (Some 1, Some 3, None))))"
  by code_simp

end
