(* ===== verification/Log.thy ===== *)
theory Log
  imports Uart
begin

text \<open>
  The kernel log, \<^verbatim>\<open>src/util/log.cpp\<close>, and the output routines that \<^verbatim>\<open>src/aarch64/bootstrap.cpp\<close>
  has before the kernel runs. A C string is the list of its bytes from the pointer on, with the
  terminating zero; reading behind the end of the list is the value \<open>None\<close>. The variable arguments
  are the list of the argument slots; a slot that is read at another type than it was passed, or
  missing, is \<open>None\<close> too. The only character stream of the kernel is the UART.
\<close>

section \<open>Numbers\<close>

definition digit_char :: "u64 \<Rightarrow> u8" where
  "digit_char d = (if d < 10 then 0x30 + ucast d else 0x61 + ucast (d - 10))"

text \<open>The loop fills the buffer of 65 bytes downwards; \<open>room\<close> is the index of \<open>s\<close> in it and \<open>cs\<close> the
  string that is there so far.\<close>

primrec itoa_loop :: "nat \<Rightarrow> u64 \<Rightarrow> u64 \<Rightarrow> u32 \<Rightarrow> u32 \<Rightarrow> u8 list \<Rightarrow> u8 list option" where
  "itoa_loop 0 n base width count cs = None"
| "itoa_loop (Suc room) n base width count cs =
     (let cs' = digit_char (n mod base) # cs; n' = n div base; count' = count + 1 in
      if count' < width \<or> n' \<noteq> 0 then itoa_loop room n' base width count' cs' else Some cs')"

text \<open>The result \<open>Some None\<close> is the null pointer.\<close>

definition itoa :: "u64 \<Rightarrow> u32 \<Rightarrow> u32 \<Rightarrow> u8 list option option" where
  "itoa n base width =
     (if base < 2 \<or> base > 16 then Some None
      else map_option Some (itoa_loop 64 n (ucast base) width 0 [0]))"

section \<open>Formatted output\<close>

datatype slot = Word u64 | Str "u8 list"

fun va_long :: "slot list \<Rightarrow> (u64 \<times> slot list) option" where
  "va_long (Word w # args) = Some (w, args)"
| "va_long args = None"

fun va_str :: "slot list \<Rightarrow> (u8 list \<times> slot list) option" where
  "va_str (Str s # args) = Some (s, args)"
| "va_str args = None"

definition va_int :: "slot list \<Rightarrow> (u32 \<times> slot list) option" where
  "va_int args = do { (w, args') \<leftarrow> va_long args; Some (ucast w, args') }"

text \<open>Output of a number; a null pointer would be read.\<close>

definition put_number :: "UART \<Rightarrow> u64 \<Rightarrow> u32 \<Rightarrow> u64 \<Rightarrow> UART option" where
  "put_number u n base width = do {
     r \<leftarrow> itoa n base (ucast width);
     s \<leftarrow> r;
     uart_puts u s }"

text \<open>The signed conversion: the sign, and the value negated in an \<open>int\<close>.\<close>

definition put_signed :: "UART \<Rightarrow> u32 \<Rightarrow> u64 \<Rightarrow> UART option" where
  "put_signed u n width =
     (if sint n < 0 then put_number (uart_putc u 0x2D) (ucast (- n)) 10 width
      else put_number u (ucast n) 10 width)"

fun read_width :: "u64 \<Rightarrow> u8 list \<Rightarrow> u64 \<times> u8 list" where
  "read_width width [] = (width, [])"
| "read_width width (c # cs) =
     (if 0x30 \<le> c \<and> c \<le> 0x39 then read_width (width * 10 + ucast c - 0x30) cs else (width, c # cs))"

definition skip_padding :: "u8 list \<Rightarrow> u8 list" where
  "skip_padding cs = (case cs of c # r \<Rightarrow> if c = 0x30 then r else cs | [] \<Rightarrow> [])"

definition format_arg :: "UART \<Rightarrow> u8 \<Rightarrow> u64 \<Rightarrow> slot list \<Rightarrow> (UART \<times> slot list) option" where
  "format_arg u d width args =
     (if d = 0x69 then do { (n, args') \<leftarrow> va_int args; u' \<leftarrow> put_signed u n width; Some (u', args') }
      else if d = 0x75 then do { (n, args') \<leftarrow> va_long args; u' \<leftarrow> put_number u n 10 width; Some (u', args') }
      else if d = 0x6F then do { (n, args') \<leftarrow> va_long args; u' \<leftarrow> put_number u n 8 width; Some (u', args') }
      else if d = 0x78 then do { (n, args') \<leftarrow> va_long args; u' \<leftarrow> put_number u n 16 width; Some (u', args') }
      else if d = 0x73 then do { (s, args') \<leftarrow> va_str args; u' \<leftarrow> uart_puts u s; Some (u', args') }
      else if d = 0x63 then do { (n, args') \<leftarrow> va_int args; Some (uart_putc u (ucast n), args') }
      else if d = 0x25 then Some (uart_putc u 0x25, args)
      else Some (u, args))"

lemma read_width_length: "length (snd (read_width w cs)) \<le> length cs"
  by (induction w cs rule: read_width.induct) auto

lemma skip_padding_length: "length (skip_padding cs) \<le> length cs"
  by (simp add: skip_padding_def split: list.split)

lemma spec_shorter: "(width, d # cs') = read_width w (skip_padding cs) \<Longrightarrow> length cs' < Suc (length cs)"
  using read_width_length[of w "skip_padding cs"] skip_padding_length[of cs]
  by (metis Suc_le_lessD length_Cons less_Suc_eq_le order_trans snd_conv nat_less_le le_SucI)

text \<open>The main loop. A format character, whatever it is, is skipped after the conversion, the
  terminating zero behind a final percent sign included.\<close>

function vprintf_loop :: "UART \<Rightarrow> u8 list \<Rightarrow> slot list \<Rightarrow> (UART \<times> slot list) option" where
  "vprintf_loop u [] args = None"
| "vprintf_loop u (c # cs) args =
     (if c = 0 then Some (u, args)
      else if c = 0x25 then
        (case read_width 0 (skip_padding cs) of
           (width, []) \<Rightarrow> None
         | (width, d # cs') \<Rightarrow> do { (u', args') \<leftarrow> format_arg u d width args; vprintf_loop u' cs' args' })
      else vprintf_loop (if c = 0x0A then uart_putc (uart_putc u c) 0x0D else uart_putc u c) cs args)"
  by pat_completeness auto
termination
  by (relation "measure (\<lambda>(u, cs, args). length cs)") (auto dest: spec_shorter)

text \<open>The log stream is the UART or null before \<open>logInit\<close>. The value that \<open>vprintf\<close> fails to return
  is not used by its callers.\<close>

definition logInit :: "UART \<Rightarrow> UART option" where "logInit u = Some u"

definition vprintf :: "UART option \<Rightarrow> u8 list \<Rightarrow> slot list \<Rightarrow> UART option option" where
  "vprintf stream format valist =
     (case stream of None \<Rightarrow> Some None
      | Some u \<Rightarrow> do { (u', rest) \<leftarrow> vprintf_loop u format valist; Some (Some u') })"

definition printf :: "UART option \<Rightarrow> u8 list \<Rightarrow> slot list \<Rightarrow> UART option option" where
  "printf stream format args = (if stream = None then Some None else vprintf stream format args)"

definition getLogStream :: "UART option \<Rightarrow> UART option" where "getLogStream stream = stream"

section \<open>Log messages\<close>

datatype LogLevel = DEBUG | INFO | WARNING | ERROR | PANIC

definition c_literal :: "string \<Rightarrow> u8 list" where "c_literal s = map (\<lambda>c. of_nat (of_char c)) s @ [0]"
definition escape :: "string \<Rightarrow> u8 list" where "escape s = 0x1B # c_literal s"

definition FG_BLUE :: "u8 list" where "FG_BLUE = escape ''[34m''"
definition FG_YELLOW :: "u8 list" where "FG_YELLOW = escape ''[33m''"
definition FG_RED :: "u8 list" where "FG_RED = escape ''[31m''"
definition BOLD_RED :: "u8 list" where "BOLD_RED = escape ''[1;31m''"
definition FG_FAINT :: "u8 list" where "FG_FAINT = escape ''[1;2m''"
definition MODE_RESET :: "u8 list" where "MODE_RESET = escape ''[0m''"

definition log_lines :: "UART option \<Rightarrow> u8 list \<Rightarrow> slot list \<Rightarrow> u8 list \<Rightarrow> slot list \<Rightarrow> u8 list \<Rightarrow> slot list
    \<Rightarrow> UART option option" where
  "log_lines stream before bargs fmt valist after aargs = do {
     s1 \<leftarrow> printf stream before bargs;
     s2 \<leftarrow> vprintf s1 fmt valist;
     printf s2 after aargs }"

definition kernelLog :: "UART option \<Rightarrow> LogLevel \<Rightarrow> u8 list \<Rightarrow> slot list \<Rightarrow> UART option option" where
  "kernelLog stream level fmt valist =
     (case level of
        DEBUG \<Rightarrow> log_lines stream (c_literal ''%s[Debug]: '') [Str FG_FAINT] fmt valist [0x25, 0x73, 13, 10, 0] [Str MODE_RESET]
      | INFO \<Rightarrow> log_lines stream (c_literal ''[%sInfo%s]: '') [Str FG_BLUE, Str MODE_RESET] fmt valist [13, 10, 0] []
      | WARNING \<Rightarrow> log_lines stream (c_literal ''[%sWarning%s]: '') [Str FG_YELLOW, Str MODE_RESET] fmt valist [13, 10, 0] []
      | ERROR \<Rightarrow> log_lines stream (c_literal ''[%sError%s]: '') [Str FG_RED, Str MODE_RESET] fmt valist [13, 10, 0] []
      | PANIC \<Rightarrow> log_lines stream (c_literal ''[%sPANIC%s]: '') [Str BOLD_RED, Str MODE_RESET] fmt valist [13, 10, 0] [])"

section \<open>Output during the bootstrap\<close>

text \<open>The bootstrap code has its own copy of these routines, with the same \<open>itoa\<close>: it reads unsigned numbers
  as \<open>unsigned int\<close>, does not look for a null stream and adds no carriage returns.\<close>

definition boot_format_arg :: "UART \<Rightarrow> u8 \<Rightarrow> u64 \<Rightarrow> slot list \<Rightarrow> (UART \<times> slot list) option" where
  "boot_format_arg u d width args =
     (if d = 0x69 then do { (n, args') \<leftarrow> va_int args; u' \<leftarrow> put_signed u n width; Some (u', args') }
      else if d = 0x75 then do { (n, args') \<leftarrow> va_int args; u' \<leftarrow> put_number u (ucast n) 10 width; Some (u', args') }
      else if d = 0x6F then do { (n, args') \<leftarrow> va_int args; u' \<leftarrow> put_number u (ucast n) 8 width; Some (u', args') }
      else if d = 0x78 then do { (n, args') \<leftarrow> va_long args; u' \<leftarrow> put_number u n 16 width; Some (u', args') }
      else if d = 0x73 then do { (s, args') \<leftarrow> va_str args; u' \<leftarrow> uart_puts u s; Some (u', args') }
      else if d = 0x63 then do { (n, args') \<leftarrow> va_int args; Some (uart_putc u (ucast n), args') }
      else if d = 0x25 then Some (uart_putc u 0x25, args)
      else Some (u, args))"

function boot_vprintf :: "UART \<Rightarrow> u8 list \<Rightarrow> slot list \<Rightarrow> (UART \<times> slot list) option" where
  "boot_vprintf u [] args = None"
| "boot_vprintf u (c # cs) args =
     (if c = 0 then Some (u, args)
      else if c = 0x25 then
        (case read_width 0 (skip_padding cs) of
           (width, []) \<Rightarrow> None
         | (width, d # cs') \<Rightarrow> do { (u', args') \<leftarrow> boot_format_arg u d width args; boot_vprintf u' cs' args' })
      else boot_vprintf (uart_putc u c) cs args)"
  by pat_completeness auto
termination
  by (relation "measure (\<lambda>(u, cs, args). length cs)") (auto dest: spec_shorter)

definition boot_printf :: "UART \<Rightarrow> u8 list \<Rightarrow> slot list \<Rightarrow> UART option" where
  "boot_printf u format args = do { (u', rest) \<leftarrow> boot_vprintf u format args; Some u' }"

definition get_time :: "u32 \<Rightarrow> u32 \<Rightarrow> u64" where
  "get_time chi clo = push_bit 32 (ucast chi) + ucast clo"

definition boot_log :: "UART \<Rightarrow> u64 \<Rightarrow> u8 list \<Rightarrow> slot list \<Rightarrow> UART option" where
  "boot_log u t fmt valist = do {
     u1 \<leftarrow> boot_printf u (c_literal ''[bootstrap][%i:%03i:%03i]: '')
            [Word (t div 1000000), Word ((t div 1000) mod 1000), Word (t mod 1000)];
     (u2, rest) \<leftarrow> boot_vprintf u1 fmt valist;
     uart_puts u2 [13, 10, 0] }"

section \<open>Lemmas\<close>

definition number_of :: "nat \<Rightarrow> u64 list \<Rightarrow> nat" where
  "number_of base ds = foldl (\<lambda>v d. v * base + unat d) 0 ds"

lemma number_of_snoc: "number_of base (ds @ [d]) = number_of base ds * base + unat d"
  by (simp add: number_of_def)

lemma itoa_loop_digits:
  assumes "unat n < unat base ^ room" "0 < room" "unat width \<le> unat count + room" "unat count + room < 2 ^ 32" "0 < base"
  shows "\<exists>ds. itoa_loop room n base width count cs = Some (map digit_char ds @ cs)
    \<and> (\<forall>d \<in> set ds. d < base) \<and> number_of (unat base) ds = unat n
    \<and> max 1 (unat width - unat count) \<le> length ds \<and> length ds \<le> room
    \<and> (max 1 (unat width - unat count) < length ds \<longrightarrow> hd ds \<noteq> 0)"
  using assms
proof (induction room arbitrary: n count cs)
  case (Suc room)
  let ?n = "n div base" and ?c = "count + 1" and ?d = "n mod base"
  have b: "0 < unat base" using Suc.prems(5) by (simp add: unat_gt_0 word_gt_0)
  have c: "unat ?c = unat count + 1" using Suc.prems(2,4) by (subst unat_add_no_wrap) simp_all
  have d: "?d < base" "unat ?d = unat n mod unat base" using b by (simp_all add: word_less_nat_alt unat_mod)
  have n': "unat ?n = unat n div unat base" "unat ?n < unat base ^ room"
    using Suc.prems(1) b by (simp_all add: unat_div less_mult_imp_div_less mult.commute)
  have go: "?c < width \<longleftrightarrow> unat count + 1 < unat width" by (simp add: word_less_nat_alt c)
  show ?case
  proof (cases "?c < width \<or> ?n \<noteq> 0")
    case True
    have "0 < room"
    proof (rule ccontr)
      assume "\<not> 0 < room"
      then have "unat ?n = 0" "unat width \<le> unat count + 1" using n'(2) Suc.prems(3) by simp_all
      then show False using True go by (simp add: unat_eq_zero)
    qed
    then obtain ds where ds: "itoa_loop room ?n base width ?c (digit_char ?d # cs) = Some (map digit_char ds @ digit_char ?d # cs)"
      "\<forall>d \<in> set ds. d < base" "number_of (unat base) ds = unat ?n"
      "max 1 (unat width - unat ?c) \<le> length ds" "length ds \<le> room" "max 1 (unat width - unat ?c) < length ds \<longrightarrow> hd ds \<noteq> 0"
      using Suc.IH[OF n'(2) _ _ _ Suc.prems(5), of ?c "digit_char ?d # cs"] Suc.prems(3,4) c by auto
    have ne: "ds \<noteq> []" using ds(4) by auto
    have "hd ds \<noteq> 0" if l: "max 1 (unat width - unat count) < length ds + 1"
    proof (cases "max 1 (unat width - unat ?c) < length ds")
      case False
      then have "length ds = 1" "\<not> ?c < width" using l ds(4) c go by auto
      then show ?thesis using True ds(3) by (cases ds) (auto simp: number_of_def unat_eq_zero)
    qed (use ds(6) in blast)
    then show ?thesis using True ds d n' c ne
      by (intro exI[of _ "ds @ [?d]"]) (auto simp: Let_def number_of_snoc)
  next
    case False
    then have "unat n div unat base = 0" using n'(1) by simp
    then have "unat n < unat base" using b by (simp add: div_eq_0_iff)
    then show ?thesis using False d go by (intro exI[of _ "[?d]"]) (auto simp: Let_def number_of_def max_def)
  qed
qed simp

lemma itoa_digits:
  assumes "2 \<le> base" "base \<le> 16" "width \<le> 64"
  shows "\<exists>ds. itoa n base width = Some (Some (map digit_char ds @ [0]))
    \<and> (\<forall>d \<in> set ds. d < ucast base) \<and> number_of (unat base) ds = unat n
    \<and> max 1 (unat width) \<le> length ds \<and> (max 1 (unat width) < length ds \<longrightarrow> hd ds \<noteq> 0)"
proof -
  have b: "unat (ucast base :: u64) = unat base" 
  proof -
    have "unat base < 2 ^ 32" using unsigned_less[of base] by simp
    then show ?thesis by (simp add: unsigned_ucast_eq take_bit_nat_eq_self_iff)
  qed
  have b2: "2 \<le> unat base" using assms(1) by (simp add: word_le_nat_alt)
  have "unat n < 2 ^ 64" using unsigned_less[of n] by simp
  also have "(2::nat) ^ 64 \<le> unat base ^ 64" using b2 by (rule power_mono) simp
  finally have n: "unat n < unat (ucast base :: u64) ^ 64" using b by simp
  have w: "unat width \<le> 64" using assms(3) by (simp add: word_le_nat_alt)
  have z: "0 < (ucast base :: u64)" using b b2 by (simp add: word_less_nat_alt)
  show ?thesis using itoa_loop_digits[OF n _ _ _ z, of width 0 "[0]"] w assms(1,2) b
    by (auto simp: itoa_def)
qed



text \<open>A format that ends with a percent sign is read behind its end, and one with a conversion for
  which there is no argument reads an argument that was not passed. \<open>printk\<close> passes the string of the
  user as the format.\<close>

lemma printf_past_end: "printf (Some u) [0x25, 0] args = None"
  by (simp add: printf_def vprintf_def skip_padding_def format_arg_def)

lemma printf_user_format: "printf (Some u) (c_literal ''%s'') [] = None"
  by (simp add: printf_def vprintf_def skip_padding_def format_arg_def c_literal_def)

text \<open>Text without conversions is put out with a carriage return behind every line feed.\<close>

lemma vprintf_text:
  "\<forall>c \<in> set t. c \<noteq> 0 \<and> c \<noteq> 0x25 \<Longrightarrow>
   vprintf_loop u (t @ cs) args = vprintf_loop (uart_write_loop u t) cs args"
  by (induction t arbitrary: u) auto

section \<open>Formats that match their arguments\<close>

text \<open>A format matches a list of arguments when every conversion finds an argument of its kind, strings are
  terminated, no width is above 64 and the format ends with a zero that is not part of a conversion.\<close>

definition is_number :: "u8 \<Rightarrow> bool" where "is_number d \<longleftrightarrow> d \<in> {0x69, 0x75, 0x6F, 0x78, 0x63}"

function format_matches :: "u8 list \<Rightarrow> slot list \<Rightarrow> bool" where
  "format_matches [] args = False"
| "format_matches (c # cs) args =
     (if c = 0 then True
      else if c = 0x25 then
        (case read_width 0 (skip_padding cs) of
           (width, []) \<Rightarrow> False
         | (width, d # cs') \<Rightarrow> width \<le> 64 \<and>
             (if is_number d then (case args of Word w # args' \<Rightarrow> format_matches cs' args' | _ \<Rightarrow> False)
              else if d = 0x73 then (case args of Str t # args' \<Rightarrow> 0 \<in> set t \<and> format_matches cs' args' | _ \<Rightarrow> False)
              else format_matches cs' args))
      else format_matches cs args)"
  by pat_completeness auto
termination
  by (relation "measure (\<lambda>(cs, args). length cs)") (auto dest: spec_shorter)

lemma uart_puts_only_tx: "0 \<in> set t \<Longrightarrow> \<exists>b. uart_puts u t = Some (u\<lparr>tx := tx u @ b\<rparr>)"
proof (induction t arbitrary: u)
  case (Cons c t)
  show ?case
  proof (cases "c = 0")
    case True
    then show ?thesis by (intro exI[of _ "[]"]) simp
  next
    case False
    then obtain b where "uart_puts (uart_putc u c) t = Some ((uart_putc u c)\<lparr>tx := tx (uart_putc u c) @ b\<rparr>)" using Cons by auto
    then show ?thesis using False by (intro exI[of _ "c # b"]) (simp add: uart_putc_def)
  qed
qed simp

lemma put_number_only_tx:
  assumes "2 \<le> base" "base \<le> 16" "width \<le> 64"
  shows "\<exists>b. put_number u n base width = Some (u\<lparr>tx := tx u @ b\<rparr>)"
proof -
  have "ucast width \<le> (64 :: u32)" using assms(3) order_trans[OF take_bit_nat_less_eq_self]
    by (simp add: word_le_nat_alt unsigned_ucast_eq)
  then obtain ds where "itoa n base (ucast width) = Some (Some (map digit_char ds @ [0]))"
    using itoa_digits[OF assms(1,2)] by blast
  then show ?thesis using uart_puts_only_tx[of "map digit_char ds @ [0]" u] by (auto simp: put_number_def)
qed

lemma put_signed_only_tx:
  assumes "width \<le> 64"
  shows "\<exists>b. put_signed u n width = Some (u\<lparr>tx := tx u @ b\<rparr>)"
proof (cases "sint n < 0")
  case True
  obtain b where "put_number (uart_putc u 0x2D) (ucast (- n)) 10 width = Some ((uart_putc u 0x2D)\<lparr>tx := tx (uart_putc u 0x2D) @ b\<rparr>)"
    using put_number_only_tx[OF _ _ assms, of 10] by fastforce
  then show ?thesis using True by (intro exI[of _ "0x2D # b"]) (simp add: put_signed_def uart_putc_def)
qed (use put_number_only_tx[OF _ _ assms, of 10 u "ucast n"] in \<open>simp add: put_signed_def\<close>)

lemma format_number_only_tx:
  assumes "is_number d" "width \<le> 64"
  shows "\<exists>b. format_arg u d width (Word w # args) = Some (u\<lparr>tx := tx u @ b\<rparr>, args)"
proof -
  have n: "\<exists>b. put_number u n base width = Some (u\<lparr>tx := tx u @ b\<rparr>)" if "base \<in> {8, 10, 16}" for n base
    using put_number_only_tx[OF _ _ assms(2), of base] that by auto
  have i: "\<exists>b. put_signed u (ucast w) width = Some (u\<lparr>tx := tx u @ b\<rparr>)" by (rule put_signed_only_tx[OF assms(2)])
  have "d = 0x69 \<or> d = 0x75 \<or> d = 0x6F \<or> d = 0x78 \<or> d = 0x63" using assms(1) by (simp add: is_number_def)
  then show ?thesis using n[of 10 w] n[of 8 w] n[of 16 w] i
    by (elim disjE) (auto simp: format_arg_def va_int_def uart_putc_def)
qed

lemma format_text_only_tx:
  assumes "0 \<in> set t"
  shows "\<exists>b. format_arg u 0x73 width (Str t # args) = Some (u\<lparr>tx := tx u @ b\<rparr>, args)"
  using uart_puts_only_tx[OF assms, of u] by (auto simp: format_arg_def)

lemma format_other_only_tx:
  assumes "\<not> is_number d" "d \<noteq> 0x73"
  shows "\<exists>b. format_arg u d width args = Some (u\<lparr>tx := tx u @ b\<rparr>, args)"
proof (cases "d = 0x25")
  case False
  then show ?thesis using assms by (intro exI[of _ "[]"]) (simp add: format_arg_def is_number_def)
next
  case True
  then show ?thesis by (intro exI[of _ "[0x25]"]) (simp add: format_arg_def uart_putc_def)
qed

lemma format_arg_only_tx:
  assumes "format_matches (0x25 # cs) args" "read_width 0 (skip_padding cs) = (width, d # cs')"
  shows "\<exists>b args'. format_arg u d width args = Some (u\<lparr>tx := tx u @ b\<rparr>, args') \<and> format_matches cs' args'"
proof -
  have m: "width \<le> 64 \<and>
             (if is_number d then (case args of Word w # args' \<Rightarrow> format_matches cs' args' | _ \<Rightarrow> False)
              else if d = 0x73 then (case args of Str t # args' \<Rightarrow> 0 \<in> set t \<and> format_matches cs' args' | _ \<Rightarrow> False)
              else format_matches cs' args)"
    using assms by simp
  consider "is_number d" | "\<not> is_number d" "d = 0x73" | "\<not> is_number d" "d \<noteq> 0x73" by blast
  then show ?thesis
  proof cases
    case 1
    then obtain w args' where "args = Word w # args'" "format_matches cs' args'"
      using m by (auto split: list.splits slot.splits)
    then show ?thesis using format_number_only_tx[OF 1, of width u w args'] m by blast
  next
    case 2
    then obtain t args' where "args = Str t # args'" "format_matches cs' args'" "0 \<in> set t"
      using m by (auto split: list.splits slot.splits)
    then show ?thesis using format_text_only_tx[of t u width args'] 2 by blast
  next
    case 3
    then show ?thesis using format_other_only_tx[OF 3, of u width args] m by auto
  qed
qed

lemma vprintf_loop_only_tx:
  "format_matches cs args \<Longrightarrow> \<exists>b rest. vprintf_loop u cs args = Some (u\<lparr>tx := tx u @ b\<rparr>, rest)"
proof (induction u cs args rule: vprintf_loop.induct)
  case (2 u c cs args)
  show ?case
  proof (cases "c = 0x25")
    case True
    obtain width d cs' where r: "read_width 0 (skip_padding cs) = (width, d # cs')"
      using 2(3) True by (cases "read_width 0 (skip_padding cs)") (auto split: list.splits)
    have "format_matches (0x25 # cs) args" using 2(3) True by simp
    from format_arg_only_tx[OF this r, of u] obtain b args' where
      f: "format_arg u d width args = Some (u\<lparr>tx := tx u @ b\<rparr>, args')" "format_matches cs' args'" by blast
    obtain b2 rest where "vprintf_loop (u\<lparr>tx := tx u @ b\<rparr>) cs' args' = Some (u\<lparr>tx := tx u @ b, tx := (tx u @ b) @ b2\<rparr>, rest)"
      using 2(1)[OF _ True r[symmetric] refl f(1) refl f(2)] True by auto
    then show ?thesis using True r f(1) by (intro exI[of _ "b @ b2"] exI[of _ rest]) simp
  next
    case False
    show ?thesis
    proof (cases "c = 0")
      case True
      then show ?thesis by (intro exI[of _ "[]"] exI[of _ args]) simp
    next
      case nz: False
      let ?u = "if c = 0x0A then uart_putc (uart_putc u c) 0x0D else uart_putc u c"
      obtain b2 rest where "vprintf_loop ?u cs args = Some (?u\<lparr>tx := tx ?u @ b2\<rparr>, rest)"
        using 2(2)[OF nz False] 2(3) nz False by auto
      then show ?thesis using False nz
        by (intro exI[of _ "(if c = 0x0A then [c, 0x0D] else [c]) @ b2"] exI[of _ rest]) (simp add: uart_putc_def)
    qed
  qed
qed simp

text \<open>C37: Output with a format that matches its arguments always returns, reads nothing beyond the format and the arguments, and
  only adds to what the device sends.\<close>

theorem printf_matching_format:
  assumes "format_matches format args"
  shows "\<exists>b. printf (Some u) format args = Some (Some (u\<lparr>tx := tx u @ b\<rparr>))"
  using vprintf_loop_only_tx[OF assms, of u] by (auto simp: printf_def vprintf_def)

theorem printf_matching_format_witness:
  "\<exists>b. printf (Some UART_init) (c_literal ''fd %i of %s'') [Word 7, Str (c_literal ''init'')] = Some (Some (UART_init\<lparr>tx := tx UART_init @ b\<rparr>))"
proof -
  have "format_matches (c_literal ''fd %i of %s'') [Word 7, Str (c_literal ''init'')]" by code_simp
  then show ?thesis by (rule printf_matching_format)
qed

lemma log_lines_only_tx:
  assumes "format_matches before bargs" "format_matches fmt args" "format_matches after aargs"
  shows "\<exists>b. log_lines (Some u) before bargs fmt args after aargs = Some (Some (u\<lparr>tx := tx u @ b\<rparr>))"
proof -
  obtain b1 r1 where 1: "vprintf_loop u before bargs = Some (u\<lparr>tx := tx u @ b1\<rparr>, r1)"
    using vprintf_loop_only_tx[OF assms(1)] by blast
  obtain b2 r2 where 2: "vprintf_loop (u\<lparr>tx := tx u @ b1\<rparr>) fmt args = Some (u\<lparr>tx := tx u @ b1 @ b2\<rparr>, r2)"
    using vprintf_loop_only_tx[OF assms(2), of "u\<lparr>tx := tx u @ b1\<rparr>"] by auto
  obtain b3 r3 where "vprintf_loop (u\<lparr>tx := tx u @ b1 @ b2\<rparr>) after aargs = Some (u\<lparr>tx := tx u @ b1 @ b2 @ b3\<rparr>, r3)"
    using vprintf_loop_only_tx[OF assms(3), of "u\<lparr>tx := tx u @ b1 @ b2\<rparr>"] by auto
  then show ?thesis using 1 2 by (auto simp: log_lines_def printf_def vprintf_def)
qed

lemma kernelLog_only_tx:
  assumes "format_matches fmt args"
  shows "\<exists>b. kernelLog (Some u) level fmt args = Some (Some (u\<lparr>tx := tx u @ b\<rparr>))"
proof -
  have e: "0 \<in> set (escape t)" for t by (simp add: escape_def c_literal_def)
  have m: "format_matches (c_literal ''%s[Debug]: '') [Str (escape t)]" "format_matches [0x25, 0x73, 13, 10, 0] [Str (escape t)]"
    "format_matches (c_literal ''[%sInfo%s]: '') [Str (escape t), Str (escape t')]"
    "format_matches (c_literal ''[%sWarning%s]: '') [Str (escape t), Str (escape t')]"
    "format_matches (c_literal ''[%sError%s]: '') [Str (escape t), Str (escape t')]"
    "format_matches (c_literal ''[%sPANIC%s]: '') [Str (escape t), Str (escape t')]"
    "format_matches [13, 10, 0] []" for t t'
    using e by (simp_all add: c_literal_def skip_padding_def is_number_def)
  show ?thesis by (cases level)
    (simp_all only: kernelLog_def FG_BLUE_def FG_YELLOW_def FG_RED_def BOLD_RED_def FG_FAINT_def MODE_RESET_def LogLevel.case
       log_lines_only_tx[OF _ assms] m)
qed

end
