(* ===== verification/Kernel.thy ===== *)
theory Kernel
  imports Process_Files Sched_Queue Log
begin

text \<open>
  The kernel object and its system calls, \<^verbatim>\<open>src/kernel.cpp\<close>. The process table is a search tree of
  processes by pid; a pointer to a process is the address of its tree node, and the scheduler
  queues such pointers. Every handler maps the kernel to the kernel after the call; a null or
  dangling pointer is the value \<open>None\<close>. The log goes to the UART. The handlers that need the file system, the
  loader, the heap or the page tables, and the table of all handlers, are in the theory \<open>System\<close>.
\<close>

section \<open>State\<close>

record Kernel =
  scheduler :: "nat queue"
  processTable :: "(pid_t, Process) binary_search_tree"
  currPid :: pid_t
  kworld :: world

definition Kernel_init :: "world \<Rightarrow> Kernel" where
  "Kernel_init w = \<lparr>scheduler = queue_init, processTable = bst_init, currPid = 1, kworld = w\<rparr>"

definition nextPid :: "Kernel \<Rightarrow> pid_t \<times> Kernel" where
  "nextPid k = (currPid k, k\<lparr>currPid := currPid k + 1\<rparr>)"

text \<open>The process behind a pointer, and the update of it.\<close>

definition proc_at :: "Kernel \<Rightarrow> nat \<Rightarrow> Process option" where
  "proc_at k a = map_option value (nodes (processTable k) a)"

definition set_proc :: "Kernel \<Rightarrow> nat \<Rightarrow> Process \<Rightarrow> Kernel option" where
  "set_proc k a p = do { t \<leftarrow> upd (processTable k) a (\<lambda>n. n\<lparr>value := p\<rparr>); Some (k\<lparr>processTable := t\<rparr>) }"

text \<open>\<open>&processTable.get(pid)\<close>: like \<open>get\<close>, the root when the key is absent.\<close>

definition table_addr :: "Kernel \<Rightarrow> pid_t \<Rightarrow> nat option" where
  "table_addr k pid = do {
     s \<leftarrow> search_rec (processTable k) pid;
     (case s of
        None \<Rightarrow> root (processTable k)
      | Some a \<Rightarrow> do {
          n \<leftarrow> nodes (processTable k) a;
          (if key n \<noteq> pid then root (processTable k) else Some a) }) }"

definition getActiveProcess :: "Kernel \<Rightarrow> nat option" where
  "getActiveProcess k = cur_Process (scheduler k)"

definition active :: "Kernel \<Rightarrow> (nat \<times> Process) option" where
  "active k = do { a \<leftarrow> getActiveProcess k; p \<leftarrow> proc_at k a; Some (a, p) }"

definition klog :: "Kernel \<Rightarrow> LogLevel \<Rightarrow> string \<Rightarrow> slot list \<Rightarrow> Kernel option" where
  "klog k level fmt args = do {
     r \<leftarrow> kernelLog (Some (uart_dev (kworld k))) level (c_literal fmt) args;
     u \<leftarrow> r;
     Some (k\<lparr>kworld := (kworld k)\<lparr>uart_dev := u\<rparr>\<rparr>) }"

section \<open>Scheduling\<close>

definition switchTask :: "Kernel \<Rightarrow> Kernel option" where
  "switchTask k = do {
     (r, q) \<leftarrow> sched_next (scheduler k);
     let k' = k\<lparr>scheduler := q\<rparr>;
     (a, p) \<leftarrow> active k';
     w \<leftarrow> loadAddressSpace (kworld k') (addressSpace p);
     Some (k'\<lparr>kworld := w\<rparr>) }"

definition setCallerReturn :: "Kernel \<Rightarrow> u64 \<Rightarrow> Kernel option" where
  "setCallerReturn k v = do {
     (a, p) \<leftarrow> active k;
     set_proc k a (p\<lparr>proc_ctx := setReturnValue (proc_ctx p) v\<rparr>) }"

text \<open>Inserting a process copies it into the new node.\<close>

definition addProcess :: "Kernel \<Rightarrow> Process \<Rightarrow> Kernel option" where
  "addProcess k p = do {
     (c, w) \<leftarrow> Process_copy p (kworld k);
     t \<leftarrow> bst_insert (processTable k) (proc_pid p) c;
     let k1 = k\<lparr>processTable := t, kworld := w\<rparr>;
     (if proc_state p = ACTIVE
      then do {
        a \<leftarrow> table_addr k1 (proc_pid p);
        q \<leftarrow> enqueue (scheduler k1) a;
        Some (k1\<lparr>scheduler := q\<rparr>) }
      else Some k1) }"

definition sleepActiveProcess :: "Kernel \<Rightarrow> Kernel" where
  "sleepActiveProcess k = k\<lparr>scheduler := set_cur_process (scheduler k) None\<rparr>"

text \<open>Removing a process from the table. A node with a successor takes over the process of its
  successor by assignment, and so on along the chain of successors; the last node is deleted
  with its process. The tree itself changes as \<open>bst_remove\<close> says.\<close>

partial_function (option) succ_chain :: "('k, 'v) binary_search_tree \<Rightarrow> nat \<Rightarrow> nat list option" where
  "succ_chain t c = do {
     s \<leftarrow> successor t c;
     (case s of
        None \<Rightarrow> Some [c]
      | Some s' \<Rightarrow> do { r \<leftarrow> succ_chain t s'; Some (c # r) }) }"

declare succ_chain.simps [code]

fun assign_chain :: "Kernel \<Rightarrow> world \<Rightarrow> nat list \<Rightarrow> ((nat \<times> Process) list \<times> world) option" where
  "assign_chain k w [] = Some ([], w)"
| "assign_chain k w [c] = do {
     p \<leftarrow> proc_at k c;
     w' \<leftarrow> Process_destroy p w;
     Some ([], w') }"
| "assign_chain k w (c # s # r) = do {
     p \<leftarrow> proc_at k c;
     q \<leftarrow> proc_at k s;
     (p', w1) \<leftarrow> Process_assign p q w;
     (vs, w2) \<leftarrow> assign_chain k w1 (s # r);
     Some ((c, p') # vs, w2) }"

fun set_procs :: "Kernel \<Rightarrow> (nat \<times> Process) list \<Rightarrow> Kernel option" where
  "set_procs k [] = Some k"
| "set_procs k ((a, p) # vs) = do { k' \<leftarrow> set_proc k a p; set_procs k' vs }"

definition processTable_remove :: "Kernel \<Rightarrow> pid_t \<Rightarrow> Kernel option" where
  "processTable_remove k pid = do {
     b \<leftarrow> bst_contains (processTable k) pid;
     t \<leftarrow> bst_remove (processTable k) pid;
     (if \<not> b then Some (k\<lparr>processTable := t\<rparr>)
      else do {
        a \<leftarrow> table_addr k pid;
        ch \<leftarrow> succ_chain (processTable k) a;
        (vs, w) \<leftarrow> assign_chain k (kworld k) ch;
        set_procs (k\<lparr>processTable := t, kworld := w\<rparr>) vs }) }"

definition deleteActiveProcess :: "Kernel \<Rightarrow> Kernel option" where
  "deleteActiveProcess k = do {
     (a, p) \<leftarrow> active k;
     k' \<leftarrow> processTable_remove k (proc_pid p);
     Some (k'\<lparr>scheduler := set_cur_process (scheduler k') None\<rparr>) }"

section \<open>Signals\<close>

definition raiseSignal :: "Kernel \<Rightarrow> pid_t \<Rightarrow> int \<Rightarrow> (int \<times> Kernel) option" where
  "raiseSignal k pid signal = do {
     b \<leftarrow> bst_contains (processTable k) pid;
     (if \<not> b then do {
        k' \<leftarrow> klog k WARNING ''Attempt to raise signal %i on non-existent pid %i'' [Word (word_of_int signal), Word (ucast pid)];
        Some (- 1, k') }
      else do {
        a \<leftarrow> table_addr k pid;
        p \<leftarrow> proc_at k a;
        (if proc_state p \<noteq> ACTIVE \<and> proc_state p \<noteq> SIGWAIT then do {
           k' \<leftarrow> klog k WARNING ''Process %i cannot acccept signal: invalid state.'' [Word (ucast pid)];
           Some (- 1, k') }
         else do {
           let schedule = (proc_state p = SIGWAIT);
           let (status, p') = signalTrigger p signal;
           k0 \<leftarrow> set_proc k a p';
           (if status > 0 then do {
              k1 \<leftarrow> klog k0 DEBUG ''Killing process %i due to signal.'' [Word (ucast pid)];
              k2 \<leftarrow> (if proc_state p' = ACTIVE then do {
                       (r, q) \<leftarrow> queue_remove (\<lambda>x. map_option proc_pid (proc_at k1 x)) (scheduler k1) pid;
                       let k3 = k1\<lparr>scheduler := q\<rparr>;
                       (c, cp) \<leftarrow> active k3;
                       (if proc_pid cp = pid
                        then switchTask (k3\<lparr>scheduler := set_cur_process (scheduler k3) None\<rparr>)
                        else Some k3) }
                     else Some k1);
              k4 \<leftarrow> processTable_remove k2 pid;
              Some (status, k4) }
            else if status = 0 \<and> schedule then do {
              q \<leftarrow> enqueue (scheduler k0) a;
              Some (status, k0\<lparr>scheduler := q\<rparr>) }
            else Some (status, k0)) }) }) }"

section \<open>System calls\<close>

definition ret_error :: "error_t \<Rightarrow> u64" where "ret_error e = word_of_int (error_value e)"

text \<open>A file operation of the active process, with the status it returns.\<close>

definition with_active :: "Kernel \<Rightarrow> (Process \<Rightarrow> world \<Rightarrow> ('r \<times> Process \<times> world) option) \<Rightarrow> ('r \<times> Kernel) option" where
  "with_active k f = do {
     (a, p) \<leftarrow> active k;
     (r, p', w) \<leftarrow> f p (kworld k);
     k' \<leftarrow> set_proc (k\<lparr>kworld := w\<rparr>) a p';
     Some (r, k') }"

text \<open>\<open>base\<close> is the kernel stack that \<open>rmalloc\<close> returns in \<open>clone\<close>.\<close>

definition syscall_clone :: "Kernel \<Rightarrow> u64 \<Rightarrow> u64 \<Rightarrow> u64 \<Rightarrow> u64 \<Rightarrow> int \<Rightarrow> Kernel option" where
  "syscall_clone k base fn stack userdata flags = do {
     (a, p) \<leftarrow> active k;
     let (pid, k1) = nextPid k;
     (np, w) \<leftarrow> Process_clone p (kworld k1) base pid fn stack userdata;
     newProcess \<leftarrow> np;
     k2 \<leftarrow> addProcess (k1\<lparr>kworld := w\<rparr>) newProcess;
     setCallerReturn k2 (ret_error ENONE) }"

definition syscall_terminate :: "Kernel \<Rightarrow> Kernel option" where
  "syscall_terminate k = do {
     (a, p) \<leftarrow> active k;
     (r, k1) \<leftarrow> raiseSignal k (proc_parent p) 17;
     k2 \<leftarrow> deleteActiveProcess k1;
     switchTask k2 }"

definition syscall_yield :: "Kernel \<Rightarrow> Kernel option" where
  "syscall_yield k = do { k' \<leftarrow> setCallerReturn k (ret_error ENONE); switchTask k' }"

definition syscall_sigraise :: "Kernel \<Rightarrow> pid_t \<Rightarrow> int \<Rightarrow> Kernel option" where
  "syscall_sigraise k pid signal = do {
     (status, k') \<leftarrow> raiseSignal k pid signal;
     (if status \<le> 0 then setCallerReturn k' (word_of_int status) else Some k') }"

definition syscall_sigret :: "Kernel \<Rightarrow> Kernel option" where
  "syscall_sigret k = do {
     (a, p) \<leftarrow> active k;
     p' \<leftarrow> signalReturn p;
     set_proc k a p' }"

definition syscall_sigwait :: "Kernel \<Rightarrow> Kernel option" where
  "syscall_sigwait k = do {
     (a, p) \<leftarrow> active k;
     k' \<leftarrow> set_proc k a (setState p SIGWAIT);
     switchTask (sleepActiveProcess k') }"

definition syscall_sigaction :: "Kernel \<Rightarrow> int \<Rightarrow> u64 \<Rightarrow> u64 \<Rightarrow> u64 \<Rightarrow> Kernel option" where
  "syscall_sigaction k signal handler trampoline userdata = do {
     (a, p) \<leftarrow> active k;
     k' \<leftarrow> set_proc k a (setSignalAction p signal handler trampoline userdata);
     setCallerReturn k' (ret_error ENONE) }"

definition syscall_close :: "Kernel \<Rightarrow> int \<Rightarrow> Kernel option" where
  "syscall_close k fd = do {
     (r, k') \<leftarrow> with_active k (\<lambda>p w. closeFileContext p w fd);
     setCallerReturn k' (word_of_int r) }"

definition syscall_create :: "Kernel \<Rightarrow> u64 \<Rightarrow> int \<Rightarrow> Kernel option" where
  "syscall_create k path flags = setCallerReturn k (ret_error ENOSYS)"

definition syscall_unlink :: "Kernel \<Rightarrow> int \<Rightarrow> Kernel option" where
  "syscall_unlink k fd = setCallerReturn k (ret_error ENOSYS)"

text \<open>The size is converted to \<open>int\<close> by the call of \<open>read\<close> and \<open>write\<close>.\<close>

definition int_of_size :: "u64 \<Rightarrow> int" where
  "int_of_size sz = sint (ucast sz :: u32)"

definition syscall_read :: "Kernel \<Rightarrow> int \<Rightarrow> u64 \<Rightarrow> u64 \<Rightarrow> Kernel option" where
  "syscall_read k fd buf sz = do {
     (a, p) \<leftarrow> active k;
     fc \<leftarrow> getFileContext p fd;
     (case fc of
        None \<Rightarrow> setCallerReturn k (ret_error ENOFILE)
      | Some f \<Rightarrow> do {
          (count, w) \<leftarrow> fc_read (kworld k) f buf (int_of_size sz);
          setCallerReturn (k\<lparr>kworld := w\<rparr>) (word_of_int count) }) }"

definition syscall_write :: "Kernel \<Rightarrow> int \<Rightarrow> u64 \<Rightarrow> u64 \<Rightarrow> Kernel option" where
  "syscall_write k fd buf sz = do {
     (a, p) \<leftarrow> active k;
     fc \<leftarrow> getFileContext p fd;
     (case fc of
        None \<Rightarrow> do {
          k' \<leftarrow> klog k WARNING ''Failed to write on fd %i'' [Word (word_of_int fd)];
          setCallerReturn k' (ret_error ENOFILE) }
      | Some f \<Rightarrow> do {
          (count, w) \<leftarrow> fc_write (kworld k) f buf (int_of_size sz);
          setCallerReturn (k\<lparr>kworld := w\<rparr>) (word_of_int count) }) }"

definition syscall_fddup :: "Kernel \<Rightarrow> int \<Rightarrow> int \<Rightarrow> Kernel option" where
  "syscall_fddup k oldfd newfd = do {
     (a, p) \<leftarrow> active k;
     fco \<leftarrow> getFileContext p oldfd;
     (case fco of
        None \<Rightarrow> setCallerReturn k (ret_error ENOFILE)
      | Some fc \<Rightarrow> do {
          g \<leftarrow> getFileContext p newfd;
          (r, k1) \<leftarrow> (if g \<noteq> None then with_active k (\<lambda>p w. closeFileContext p w newfd) else Some (0, k));
          (if r \<noteq> 0 then do {
             k' \<leftarrow> klog k1 ERROR ''fddup() failed to close newfd=%i'' [Word (word_of_int newfd)];
             setCallerReturn k' (ret_error EUNKNOWN) }
           else do {
             (s, k2) \<leftarrow> with_active k1 (\<lambda>p w. storeFileContext_at p w fc newfd);
             (if s \<noteq> error_value ENONE then do {
                k' \<leftarrow> klog k2 ERROR ''fddup() failed to store newfd=%i'' [Word (word_of_int newfd)];
                setCallerReturn k' (ret_error EUNKNOWN) }
              else setCallerReturn k2 (ret_error ENONE)) }) }) }"

text \<open>\<open>mem\<close> is the memory of the new pipe. The allocations succeed, as everywhere in the model.\<close>

definition store_int :: "world \<Rightarrow> u64 \<Rightarrow> int \<Rightarrow> world" where
  "store_int w a v = store_umem w (store_bytes (umem w) a (le_bytes 4 (word_of_int v :: u32)))"

definition syscall_create_pipe :: "Kernel \<Rightarrow> u8 list \<Rightarrow> u64 \<Rightarrow> Kernel option" where
  "syscall_create_pipe k mem pipefd = do {
     let (pipe, w1) = new_pipe (kworld k) mem;
     (reader, w2) \<leftarrow> createReader w1 pipe;
     (writer, w3) \<leftarrow> createWriter w2 pipe;
     (fd0, k1) \<leftarrow> with_active (k\<lparr>kworld := w3\<rparr>) (\<lambda>p w. storeFileContext p w reader);
     (fd1, k2) \<leftarrow> with_active (k1\<lparr>kworld := store_int (kworld k1) pipefd fd0\<rparr>) (\<lambda>p w. storeFileContext p w writer);
     setCallerReturn (k2\<lparr>kworld := store_int (kworld k2) (pipefd + 4) fd1\<rparr>) (ret_error ENONE) }"

end
