(* ===== verification/Kernel_Sched.thy ===== *)
theory Kernel_Sched
  imports Kernel
begin

text \<open>
  Scheduling and signals through the system calls: which process runs after a call, what the
  call returns to its caller, and the states in which a call leaves the kernel inconsistent.
\<close>

section \<open>Processes behind pointers\<close>

lemma proc_at_set:
  assumes "proc_at k a = Some p"
  obtains k' where "set_proc k a q = Some k'" "\<forall>b. proc_at k' b = (if b = a then Some q else proc_at k b)"
    "scheduler k' = scheduler k" "kworld k' = kworld k" "currPid k' = currPid k"
proof -
  obtain n where n: "nodes (processTable k) a = Some n" using assms by (auto simp: proc_at_def)
  let ?k = "k\<lparr>processTable := (processTable k)\<lparr>nodes := (nodes (processTable k))(a := Some (n\<lparr>value := q\<rparr>))\<rparr>\<rparr>"
  show thesis by (rule that[of ?k]) (use n in \<open>simp_all add: set_proc_def upd_def proc_at_def\<close>)
qed

lemma proc_at_other [simp]:
  "proc_at (k\<lparr>scheduler := q\<rparr>) a = proc_at k a" "proc_at (k\<lparr>kworld := w\<rparr>) a = proc_at k a"
  "proc_at (k\<lparr>currPid := i\<rparr>) a = proc_at k a"
  by (simp_all add: proc_at_def)

lemma active_simp: "cur_Process (scheduler k) = Some a \<Longrightarrow> proc_at k a = Some p \<Longrightarrow> active k = Some (a, p)"
  by (simp add: active_def getActiveProcess_def)

lemma setCallerReturn_correct:
  assumes "cur_Process (scheduler k) = Some a" "proc_at k a = Some p"
  obtains k' where "setCallerReturn k v = Some k'"
    "\<forall>b. proc_at k' b = (if b = a then Some (p\<lparr>proc_ctx := setReturnValue (proc_ctx p) v\<rparr>) else proc_at k b)"
    "scheduler k' = scheduler k" "kworld k' = kworld k" "currPid k' = currPid k"
proof -
  obtain k' where k': "set_proc k a (p\<lparr>proc_ctx := setReturnValue (proc_ctx p) v\<rparr>) = Some k'"
    "\<forall>b. proc_at k' b = (if b = a then Some (p\<lparr>proc_ctx := setReturnValue (proc_ctx p) v\<rparr>) else proc_at k b)"
    "scheduler k' = scheduler k" "kworld k' = kworld k" "currPid k' = currPid k"
    using proc_at_set[OF assms(2), of "p\<lparr>proc_ctx := setReturnValue (proc_ctx p) v\<rparr>"] .
  then show thesis using active_simp[OF assms] by (intro that[of k']) (simp_all add: setCallerReturn_def)
qed

text \<open>A process that can be switched to.\<close>

definition loadable :: "Kernel \<Rightarrow> nat \<Rightarrow> bool" where
  "loadable k a \<longleftrightarrow> (\<exists>p s. proc_at k a = Some p \<and> addressSpace p = Some s \<and> spaces (kworld k) s \<noteq> None)"

definition ttbr_of :: "Kernel \<Rightarrow> nat \<Rightarrow> u64" where
  "ttbr_of k a = (case proc_at k a of Some p \<Rightarrow> (case addressSpace p of Some s \<Rightarrow> (case spaces (kworld k) s of
     Some sp \<Rightarrow> topLevelTable sp OR push_bit 48 (word_of_int (space_id sp)) | None \<Rightarrow> 0) | None \<Rightarrow> 0) | None \<Rightarrow> 0)"

lemma switchTask_correct:
  assumes "queue_rep (scheduler k) xs" "xs @ (case cur_Process (scheduler k) of None \<Rightarrow> [] | Some c \<Rightarrow> [c]) = y # ys"
    and "loadable k y"
  shows "\<exists>q. switchTask k = Some (k\<lparr>scheduler := q, kworld := (kworld k)\<lparr>ttbr0 := ttbr_of k y\<rparr>\<rparr>)
    \<and> queue_rep q ys \<and> cur_Process q = Some y"
proof -
  obtain q where q: "sched_next (scheduler k) = Some (Some y, q)" "queue_rep q ys" "cur_Process q = Some y"
    using sched_next_correct[OF assms(1)] unfolding assms(2) by auto
  obtain p s sp where p: "proc_at k y = Some p" "addressSpace p = Some s" "spaces (kworld k) s = Some sp"
    using assms(3) by (auto simp: loadable_def)
  have "active (k\<lparr>scheduler := q\<rparr>) = Some (y, p)" using q(3) p(1) by (simp add: active_def getActiveProcess_def)
  then show ?thesis using q p by (intro exI[of _ q]) (simp add: switchTask_def loadAddressSpace_def ttbr_of_def)
qed

text \<open>Switching after the running process was changed, in anything but its address space.\<close>

lemma switch_after_update:
  assumes "queue_rep (scheduler k) xs" "cur_Process (scheduler k) = Some c" "proc_at k c = Some p"
    and "\<forall>a \<in> set (c # xs). loadable k a"
    and k1: "scheduler k1 = scheduler k" "kworld k1 = kworld k" "\<forall>b. proc_at k1 b = (if b = c then Some p' else proc_at k b)"
    and "addressSpace p' = addressSpace p"
  shows "\<exists>q. switchTask k1 = Some (k1\<lparr>scheduler := q, kworld := (kworld k1)\<lparr>ttbr0 := ttbr_of k (hd (xs @ [c]))\<rparr>\<rparr>)
    \<and> queue_rep q (tl (xs @ [c])) \<and> cur_Process q = Some (hd (xs @ [c]))"
proof -
  define y where "y = hd (xs @ [c])"
  define ys where "ys = tl (xs @ [c])"
  have y: "xs @ [c] = y # ys" by (simp add: y_def ys_def)
  have "y \<in> set (c # xs)" using arg_cong[OF y, of set] by auto
  then have l: "loadable k y" using assms(4) by blast
  have "loadable k1 y" "ttbr_of k1 y = ttbr_of k y"
    using l assms(3,8) k1(2) k1(3)[rule_format, of y] by (auto simp: loadable_def ttbr_of_def split: if_splits)
  moreover have "xs @ (case cur_Process (scheduler k1) of None \<Rightarrow> [] | Some c \<Rightarrow> [c]) = y # ys"
    using assms(2) k1(1) y by simp
  ultimately show ?thesis using switchTask_correct[of k1 xs y ys] assms(1) k1(1) unfolding y_def ys_def by auto
qed

text \<open>C34: \<open>yield\<close>. The caller's call returns 0, the first waiting process runs next with its address
  space loaded, and the caller is the last of the queue; with nobody waiting it goes on itself.
  No other process changes.\<close>

theorem yield_switches:
  assumes "queue_rep (scheduler k) xs" "cur_Process (scheduler k) = Some c" "proc_at k c = Some p"
    and "\<forall>a \<in> set (c # xs). loadable k a"
  shows "\<exists>k'. syscall_yield k = Some k' \<and> queue_rep (scheduler k') (tl (xs @ [c]))
    \<and> cur_Process (scheduler k') = Some (hd (xs @ [c])) \<and> ttbr0 (kworld k') = ttbr_of k (hd (xs @ [c]))
    \<and> proc_at k' c = Some (p\<lparr>proc_ctx := setReturnValue (proc_ctx p) 0\<rparr>)
    \<and> (\<forall>a. a \<noteq> c \<longrightarrow> proc_at k' a = proc_at k a)"
proof -
  obtain k1 where k1: "setCallerReturn k 0 = Some k1" "scheduler k1 = scheduler k" "kworld k1 = kworld k"
    "\<forall>b. proc_at k1 b = (if b = c then Some (p\<lparr>proc_ctx := setReturnValue (proc_ctx p) 0\<rparr>) else proc_at k b)"
    using setCallerReturn_correct[OF assms(2,3), of 0] by metis
  obtain q where q: "switchTask k1 = Some (k1\<lparr>scheduler := q, kworld := (kworld k1)\<lparr>ttbr0 := ttbr_of k (hd (xs @ [c]))\<rparr>\<rparr>)"
    "queue_rep q (tl (xs @ [c]))" "cur_Process q = Some (hd (xs @ [c]))"
    using switch_after_update[OF assms k1(2-4)] by auto
  have "proc_at (k1\<lparr>scheduler := q, kworld := (kworld k1)\<lparr>ttbr0 := ttbr_of k (hd (xs @ [c]))\<rparr>\<rparr>) b = proc_at k1 b" for b
    by (simp add: proc_at_def)
  then show ?thesis using q k1(1,4) by (simp add: syscall_yield_def ret_error_def)
qed

text \<open>Two processes, the first running and the second waiting.\<close>

definition sample_proc :: "pid_t \<Rightarrow> Process" where
  "sample_proc i = Process_init0\<lparr>proc_pid := i, addressSpace := Some 9\<rparr>"

definition two_processes :: "UART \<Rightarrow> Kernel" where
  "two_processes u = \<lparr>scheduler = (the (enqueue queue_init 1))\<lparr>cur_Process := Some 0\<rparr>,
     processTable = the (do { t \<leftarrow> bst_insert bst_init 1 (sample_proc 1); bst_insert t 2 (sample_proc 2) }),
     currPid = 3, kworld = sample_world u\<rparr>"

lemma two_processes_sched:
  "queue_rep (scheduler (two_processes u)) [1]" "cur_Process (scheduler (two_processes u)) = Some 0"
  using schedfifo.enq_law[OF queue_rep_init, of "1 :: nat"] by (auto simp: two_processes_def)

lemma two_processes_procs:
  "map_option addressSpace (proc_at (two_processes u) 0) = Some (Some 9)"
  "map_option addressSpace (proc_at (two_processes u) 1) = Some (Some 9)"
  "map_option topLevelTable (spaces (kworld (two_processes u)) 9) = Some 0x1000"
  by code_simp+

theorem yield_switches_witness:
  "\<exists>k'. syscall_yield (two_processes UART_init) = Some k' \<and> cur_Process (scheduler k') = Some 1
    \<and> queue_rep (scheduler k') [0]"
proof -
  let ?k = "two_processes UART_init"
  obtain p where p: "proc_at ?k 0 = Some p" using two_processes_procs(1)[of UART_init] by auto
  have "\<forall>a \<in> set [0, 1]. loadable ?k a"
    using two_processes_procs[of UART_init] by (auto simp: loadable_def)
  then show ?thesis using yield_switches[OF two_processes_sched p] by auto
qed

section \<open>Signals\<close>

lemma table_addr_found:
  assumes "bst_contains (processTable k) pid = Some True"
  shows "\<exists>a p. table_addr k pid = Some a \<and> proc_at k a = Some p"
proof -
  obtain a n where "search_rec (processTable k) pid = Some (Some a)" "nodes (processTable k) a = Some n" "key n = pid"
    using assms by (auto simp: bst_contains_def bind_eq_Some_conv split: option.splits)
  then show ?thesis by (simp add: table_addr_def proc_at_def)
qed

lemma klog_only_tx:
  assumes "format_matches (c_literal fmt) args"
  shows "\<exists>b. klog k level fmt args = Some (k\<lparr>kworld := (kworld k)\<lparr>uart_dev := (uart_dev (kworld k))\<lparr>tx := tx (uart_dev (kworld k)) @ b\<rparr>\<rparr>\<rparr>)"
  using kernelLog_only_tx[OF assms, of "uart_dev (kworld k)" level] by (auto simp: klog_def)

text \<open>C35: raising a signal on a process that is active or waiting, unless its action is to kill.
  The process gets the context of the handler call, or keeps its own when it has no handler; a
  waiting process is put at the end of the queue. Nothing else changes. On a pid that does not
  exist and on a process that runs a handler the call fails and only writes to the log.\<close>

theorem raise_signal_delivers:
  assumes "bst_contains (processTable k) pid = Some True" "table_addr k pid = Some a" "proc_at k a = Some p"
    and "queue_rep (scheduler k) xs" "signalTrigger p sig = (st, p')" "st \<le> 0"
  shows "if proc_state p = SIGNAL
      then \<exists>b. raiseSignal k pid sig = Some (- 1, k\<lparr>kworld := (kworld k)\<lparr>uart_dev := (uart_dev (kworld k))\<lparr>tx := tx (uart_dev (kworld k)) @ b\<rparr>\<rparr>\<rparr>)
    else \<exists>k'. raiseSignal k pid sig = Some (st, k')
      \<and> (\<forall>b. proc_at k' b = (if b = a then Some p' else proc_at k b)) \<and> kworld k' = kworld k
      \<and> queue_rep (scheduler k') (xs @ (if proc_state p = SIGWAIT \<and> st = 0 then [a] else []))
      \<and> cur_Process (scheduler k') = cur_Process (scheduler k)"
proof (cases "proc_state p = SIGNAL")
  case True
  have "format_matches (c_literal ''Process %i cannot acccept signal: invalid state.'') [Word (ucast pid)]"
    by (simp add: c_literal_def skip_padding_def is_number_def)
  from klog_only_tx[OF this, of k WARNING] show ?thesis using assms True by (auto simp: raiseSignal_def)
next
  case False
  obtain k1 where k1: "set_proc k a p' = Some k1" "\<forall>b. proc_at k1 b = (if b = a then Some p' else proc_at k b)"
    "scheduler k1 = scheduler k" "kworld k1 = kworld k" using proc_at_set[OF assms(3)] by metis
  obtain q where q: "enqueue (scheduler k) a = Some q" "queue_rep q (xs @ [a])"
    "cur_Process q = cur_Process (scheduler k)" using schedfifo.enq_law[OF assms(4), of a] by blast
  have st: "proc_state p = ACTIVE \<or> proc_state p = SIGWAIT" using False by (cases "proc_state p") auto
  then have "raiseSignal k pid sig = Some (st, if proc_state p = SIGWAIT \<and> st = 0 then k1\<lparr>scheduler := q\<rparr> else k1)"
    using assms k1(1,3) q(1) by (auto simp: raiseSignal_def Let_def)
  then show ?thesis using False k1(2,3,4) q(2,3) assms(4) by auto
qed

theorem raise_signal_delivers_witness:
  "\<exists>k'. raiseSignal (two_processes UART_init) 2 5 = Some (0, k') \<and> queue_rep (scheduler k') [1]"
proof -
  let ?k = "two_processes UART_init"
  have c: "bst_contains (processTable ?k) 2 = Some True" "table_addr ?k 2 = Some 1"
    "map_option (\<lambda>p. (proc_state p, fst (signalTrigger p 5))) (proc_at ?k 1) = Some (ACTIVE, 0)"
    by (simp_all only: two_processes_def Kernel.simps) code_simp+
  obtain p where p: "proc_at ?k 1 = Some p" "proc_state p = ACTIVE" "fst (signalTrigger p 5) = 0" using c(3) by auto
  then have "signalTrigger p 5 = (0, snd (signalTrigger p 5))" by (metis prod.collapse)
  then show ?thesis using raise_signal_delivers[OF c(1,2) p(1) two_processes_sched(1) _ order_refl] p(2) by fastforce
qed

lemma set_proc_same: "proc_at k a = Some p \<Longrightarrow> set_proc k a p = Some k"
  by (cases k; cases "processTable k") (auto simp: set_proc_def upd_def proc_at_def fun_upd_idem)

lemma raise_unhandled:
  assumes "bst_contains (processTable k) pid = Some True" "table_addr k pid = Some a" "proc_at k a = Some p"
    and "queue_rep (scheduler k) xs" "proc_state p = SIGWAIT" "signalTrigger p sig = (0, p)"
  obtains q where "raiseSignal k pid sig = Some (0, k\<lparr>scheduler := q\<rparr>)" "queue_rep q (xs @ [a])"
  using that assms schedfifo.enq_law[OF assms(4), of a] set_proc_same[OF assms(3)]
  by (auto simp: raiseSignal_def Let_def)

text \<open>A waiting process that has no handler for a signal is queued again by every such signal
  and stays marked as waiting: after two signals it is in the queue twice.\<close>

theorem waiting_process_queued_twice:
  assumes "bst_contains (processTable k) pid = Some True" "table_addr k pid = Some a" "proc_at k a = Some p"
    and "queue_rep (scheduler k) xs" "proc_state p = SIGWAIT" "0 \<le> sig" "sig < 64"
    and "sig_type (signalHandlers p ! nat sig) = NONE"
  shows "\<exists>k1 k2. raiseSignal k pid sig = Some (0, k1) \<and> raiseSignal k1 pid sig = Some (0, k2)
    \<and> proc_at k2 a = Some p \<and> queue_rep (scheduler k2) (xs @ [a, a])"
proof -
  have t: "signalTrigger p sig = (0, p)" using assms(6-8) by (simp add: signalTrigger_def Let_def)
  obtain q1 where q1: "raiseSignal k pid sig = Some (0, k\<lparr>scheduler := q1\<rparr>)" "queue_rep q1 (xs @ [a])"
    using raise_unhandled[OF assms(1-5) t] .
  let ?k1 = "k\<lparr>scheduler := q1\<rparr>"
  have "processTable ?k1 = processTable k" by simp
  then have ta: "table_addr ?k1 pid = table_addr k pid" unfolding table_addr_def by metis
  have h: "bst_contains (processTable ?k1) pid = Some True" "table_addr ?k1 pid = Some a" "proc_at ?k1 a = Some p"
    "queue_rep (scheduler ?k1) (xs @ [a])" using assms(1-3) q1(2) ta by simp_all
  obtain q2 where "raiseSignal ?k1 pid sig = Some (0, ?k1\<lparr>scheduler := q2\<rparr>)" "queue_rep q2 ((xs @ [a]) @ [a])"
    using raise_unhandled[OF h assms(5) t] .
  then show ?thesis using q1(1) assms(3) by auto
qed

definition waiting_kernel :: "UART \<Rightarrow> Kernel" where
  "waiting_kernel u = \<lparr>scheduler = queue_init\<lparr>cur_Process := Some 0\<rparr>,
     processTable = the (do { t \<leftarrow> bst_insert bst_init 1 (sample_proc 1);
                              bst_insert t 2 ((sample_proc 2)\<lparr>proc_state := SIGWAIT\<rparr>) }),
     currPid = 3, kworld = sample_world u\<rparr>"

theorem waiting_process_queued_twice_witness:
  "\<exists>k1 k2. raiseSignal (waiting_kernel UART_init) 2 3 = Some (0, k1) \<and> raiseSignal k1 2 3 = Some (0, k2)
    \<and> queue_rep (scheduler k2) [1, 1]"
proof -
  let ?k = "waiting_kernel UART_init"
  have c: "bst_contains (processTable ?k) 2 = Some True" "table_addr ?k 2 = Some 1"
    "map_option (\<lambda>p. (proc_state p, sig_type (signalHandlers p ! nat 3))) (proc_at ?k 1) = Some (SIGWAIT, NONE)"
    by (simp_all only: waiting_kernel_def Kernel.simps) code_simp+
  obtain p where p: "proc_at ?k 1 = Some p" "proc_state p = SIGWAIT" "sig_type (signalHandlers p ! nat 3) = NONE"
    using c(3) by auto
  have q: "queue_rep (scheduler ?k) []" using queue_rep_init by (simp add: waiting_kernel_def)
  show ?thesis using waiting_process_queued_twice[OF c(1,2) p(1) q p(2) _ _ p(3)] by auto
qed

section \<open>Calls that leave the kernel with dangling pointers\<close>

text \<open>The two processes again, each with two file contexts as its descriptors 0 and 1.\<close>

definition with_files :: "Process \<Rightarrow> nat \<Rightarrow> nat \<Rightarrow> Process" where
  "with_files p f g = p\<lparr>files := the (do { t \<leftarrow> bst_insert bst_init 0 f; bst_insert t 1 g })\<rparr>"

definition two_with_files :: "UART \<Rightarrow> Kernel" where
  "two_with_files u = (two_processes u)\<lparr>processTable :=
     the (do { t \<leftarrow> bst_insert bst_init 1 (with_files (sample_proc 1) 0 1);
               bst_insert t 2 (with_files (sample_proc 2) 2 3) })\<rparr>"

text \<open>Duplicating a descriptor onto itself closes the only reference to the file context and
  then stores the deleted object; onto another descriptor it works.\<close>

theorem fddup_onto_itself:
  "Option.is_none (syscall_fddup (two_with_files u) 0 0) \<and> \<not> Option.is_none (syscall_fddup (two_with_files u) 0 5)"
  by code_simp


text \<open>Waiting for a signal with nobody else to run, and terminating the last process,
  dereference the null pointer to the next process.\<close>

theorem sleep_with_empty_queue:
  "syscall_sigwait (waiting_kernel u) = None"
  by code_simp

end
