(* ===== verification/Mmu.thy ===== *)
theory Mmu
  imports Page_Allocator
begin

text \<open>
  The translation tables, \<^verbatim>\<open>src/memory/aarch64/mmu.cpp\<close> and \<^verbatim>\<open>src/memory/mmap.cpp\<close>. The last entry
  of every top table points to the table itself, so that the entries of all tables appear as
  arrays in virtual memory (\<open>kernelTables\<close>, \<open>userTables\<close>), and the code reads and writes entries
  through these addresses. The model therefore keeps physical memory (as 64-bit words at
  their addresses) and the two table registers, and every access to an entry goes through
  \<open>translate\<close>, the table walk that the processor performs for the configuration the kernel
  sets up: granules of 4 KiB and 39-bit addresses, so three levels of 512 entries. A store
  that faults enters the page fault handler and is tried again. Where the code halts the
  processor, the result is \<open>None\<close>. The code invalidates the TLB after every change; the model
  has none. The bitfields of an entry are bits of one word; the stores to the fields of an
  entry are one store of the whole word.
\<close>

section \<open>Descriptors\<close>

definition PAGE_RW :: u32 where "PAGE_RW = 1"
definition PAGE_USER :: u32 where "PAGE_USER = 2"
definition PAGE_EXE :: u32 where "PAGE_EXE = 4"

definition page_size :: u64 where "page_size = 4096"

text \<open>The fields of \<open>PageTableEntry\<close> by their first bit.\<close>

definition bit_present :: nat where "bit_present = 0"
definition bit_type :: nat where "bit_type = 1"
definition bit_apEL0 :: nat where "bit_apEL0 = 6"
definition bit_apReadOnly :: nat where "bit_apReadOnly = 7"
definition bit_af :: nat where "bit_af = 10"
definition bit_outputAddress :: nat where "bit_outputAddress = 12"
definition bit_pxn :: nat where "bit_pxn = 52"
definition bit_xn :: nat where "bit_xn = 53"

definition set_field :: "nat \<Rightarrow> bool \<Rightarrow> u64 \<Rightarrow> u64" where
  "set_field i b e = (if b then set_bit i e else unset_bit i e)"

definition set_physicalAddress :: "u64 \<Rightarrow> physaddr_t \<Rightarrow> u64" where
  "set_physicalAddress e addr =
     (e AND NOT (push_bit 12 (mask 40))) OR push_bit 12 (take_bit 40 (drop_bit 12 addr))"

definition physicalAddress :: "u64 \<Rightarrow> physaddr_t" where
  "physicalAddress e = push_bit 12 (take_bit 40 (drop_bit 12 e))"

definition makeTableDescriptor :: "physaddr_t \<Rightarrow> u64" where
  "makeTableDescriptor nextLevel =
     set_physicalAddress (set_field bit_af True (set_field bit_type True (set_field bit_present True 0))) nextLevel"

definition set_permissions :: "u32 \<Rightarrow> u64 \<Rightarrow> u64" where
  "set_permissions permissions e =
     set_field bit_af True
       (set_field bit_xn (permissions AND PAGE_EXE = 0)
         (set_field bit_apReadOnly (permissions AND PAGE_RW = 0)
           (set_field bit_apEL0 (permissions AND PAGE_USER \<noteq> 0) e)))"

definition makeBlockDescriptor :: "physaddr_t \<Rightarrow> u32 \<Rightarrow> u64" where
  "makeBlockDescriptor frame permissions =
     set_physicalAddress (set_permissions permissions (set_field bit_present True 0)) frame"

definition makePageDescriptor :: "physaddr_t \<Rightarrow> u32 \<Rightarrow> u64" where
  "makePageDescriptor frame permissions =
     set_physicalAddress
       (set_permissions permissions (set_field bit_type True (set_field bit_present True 0))) frame"

section \<open>The machine\<close>

record Mmu =
  pmem :: "u64 \<Rightarrow> u64"
  ttbr0_table :: u64
  ttbr1_table :: u64
  frame_pool :: PageAllocator

text \<open>The address bits of a descriptor that the processor uses, and the location of the entry for
  an address in a table.\<close>

definition next_table :: "u64 \<Rightarrow> u64" where
  "next_table e = push_bit 12 (take_bit 36 (drop_bit 12 e))"

definition entry_loc :: "u64 \<Rightarrow> u64 \<Rightarrow> nat \<Rightarrow> u64" where
  "entry_loc table va shift = table + 8 * take_bit 9 (drop_bit shift va)"

text \<open>A walk ends with the level of a fault or with the last descriptor and the physical address.\<close>

definition walk :: "(u64 \<Rightarrow> u64) \<Rightarrow> u64 \<Rightarrow> u64 \<Rightarrow> nat + u64 \<times> u64" where
  "walk pm table va =
     (let e1 = pm (entry_loc table va 30) in
      if \<not> bit e1 0 then Inl 1
      else if \<not> bit e1 1 then Inr (e1, next_table e1 + take_bit 30 va)
      else let e2 = pm (entry_loc (next_table e1) va 21) in
      if \<not> bit e2 0 then Inl 2
      else if \<not> bit e2 1 then Inr (e2, next_table e2 + take_bit 21 va)
      else let e3 = pm (entry_loc (next_table e2) va 12) in
      if \<not> (bit e3 0 \<and> bit e3 1) then Inl 3
      else Inr (e3, next_table e3 + take_bit 12 va))"

definition high_mem :: u64 where "high_mem = 0xFFFFFF8000000000"
definition user_end :: u64 where "user_end = 0x0000008000000000"

definition translate :: "Mmu \<Rightarrow> u64 \<Rightarrow> nat + u64 \<times> u64" where
  "translate s va =
     (if va < user_end then walk (pmem s) (ttbr0_table s) va
      else if va \<ge> high_mem then walk (pmem s) (ttbr1_table s) va
      else Inl 0)"

section \<open>Page faults\<close>

datatype DataAbortStatus = ADDR_SIZE_FAULT nat | TRANSLATE_FAULT nat | ACCESS_FAULT nat | PERM_FAULT nat

text \<open>A kernel access: an unset access flag and a write to a read-only page fault as well. The
  level of these faults is that of the last descriptor; the handler treats all levels alike.\<close>

definition access :: "Mmu \<Rightarrow> bool \<Rightarrow> u64 \<Rightarrow> DataAbortStatus + u64" where
  "access s wnr va =
     (case translate s va of
        Inl level \<Rightarrow> Inl (TRANSLATE_FAULT level)
      | Inr (e, pa) \<Rightarrow> (if \<not> bit e 10 then Inl (ACCESS_FAULT 3)
                      else if wnr \<and> bit e 7 then Inl (PERM_FAULT 3)
                      else Inr pa))"

definition kernelTables :: "u64 list" where
  "kernelTables = [0xFFFFFFFFFFFFF000, 0xFFFFFFFFFFE00000, 0xFFFFFFFFC0000000]"

definition userTables :: "u64 list" where
  "userTables = [0x0000007FFFFFF000, 0x0000007FFFE00000, 0x0000007FC0000000]"

text \<open>What the handler does with a fault at \<open>far\<close>: the level of the fault and the tables to fill,
  or \<open>None\<close> when it panics.\<close>

definition fault_target :: "DataAbortStatus \<Rightarrow> bool \<Rightarrow> u64 \<Rightarrow> (nat \<times> nat) option" where
  "fault_target status wnr far =
     (case status of
        ACCESS_FAULT l \<Rightarrow> None
      | ADDR_SIZE_FAULT l \<Rightarrow> None
      | PERM_FAULT l \<Rightarrow> None
      | TRANSLATE_FAULT level \<Rightarrow>
          if level = 0 then None
          else if \<not> wnr then None
          else if far \<ge> kernelTables ! 0 then None
          else if far \<ge> kernelTables ! 1 then Some (level, 1)
          else if far \<ge> kernelTables ! 2 then Some (level, 2)
          else if far \<ge> userTables ! 0 then None
          else if far \<ge> userTables ! 1 then Some (level, 1)
          else if far \<ge> userTables ! 2 then Some (level, 2)
          else None)"

definition tables_of :: "u64 \<Rightarrow> u64 list" where
  "tables_of far = (if far \<ge> high_mem then kernelTables else userTables)"

text \<open>A store to an entry and the loop that fills in tables call each other through the fault:
  \<open>Write\<close> stores a descriptor at a virtual address, \<open>Fill\<close> is the loop of \<open>fillTranslationTable\<close>
  from table \<open>i\<close> on. An index below the first table is outside the array.\<close>

datatype job = Write u64 u64 | Fill int nat "u64 list" u64

partial_function (option) run :: "Mmu \<Rightarrow> job \<Rightarrow> Mmu option" where
  "run s j =
     (case j of
        Write ptr v \<Rightarrow>
          (case access s True ptr of
             Inr pa \<Rightarrow> Some (s\<lparr>pmem := (pmem s)(pa := v)\<rparr>)
           | Inl status \<Rightarrow> do {
               (faultLevel, targetLevel) \<leftarrow> fault_target status True ptr;
               s' \<leftarrow> run s (Fill (int targetLevel + int faultLevel - 4) targetLevel (tables_of ptr)
                              (ptr - tables_of ptr ! targetLevel));
               run s' (Write ptr v) })
      | Fill i targetLevel tables farOffset \<Rightarrow>
          (if i < int targetLevel
           then if i < 0 then None
                else do {
                  let tableIndex = drop_bit (12 + 9 * (targetLevel - nat i - 1)) farOffset;
                  (tableFrame, pa) \<leftarrow> pa_reserve (frame_pool s) page_size;
                  (if tableFrame = NOMEM then None
                   else do {
                     s1 \<leftarrow> run (s\<lparr>frame_pool := pa\<rparr>) (Write (tables ! nat i + 8 * tableIndex) (makeTableDescriptor tableFrame));
                     run s1 (Fill (i + 1) targetLevel tables farOffset) }) }
           else Some s))"

declare run.simps [code]

definition fillTranslationTable :: "Mmu \<Rightarrow> nat \<Rightarrow> nat \<Rightarrow> u64 \<Rightarrow> Mmu option" where
  "fillTranslationTable s faultLevel targetLevel far =
     run s (Fill (int targetLevel + int faultLevel - 4) targetLevel (tables_of far)
             (far - tables_of far ! targetLevel))"

definition handlePageFault :: "Mmu \<Rightarrow> DataAbortStatus \<Rightarrow> bool \<Rightarrow> u64 \<Rightarrow> Mmu option" where
  "handlePageFault s status wnr far = do {
     (level, target) \<leftarrow> fault_target status wnr far;
     fillTranslationTable s level target far }"

definition read_entry :: "Mmu \<Rightarrow> u64 \<Rightarrow> u64 option" where
  "read_entry s ptr = (case access s False ptr of Inr pa \<Rightarrow> Some (pmem s pa) | Inl _ \<Rightarrow> None)"

section \<open>Operations on the tables\<close>

definition getBlockSize :: "int \<Rightarrow> u64" where
  "getBlockSize level = (if level = 0 then 2 ^ 12 else if level = 1 then 2 ^ 21 else 0)"

text \<open>The address of an entry; between the two halves the code uses an uninitialised pointer.\<close>

definition entry_ptr :: "nat \<Rightarrow> u64 \<Rightarrow> u64 option" where
  "entry_ptr level page =
     (if level > 2 then None
      else if page \<ge> high_mem
      then Some (kernelTables ! (2 - level) + 8 * drop_bit (12 + 9 * level) (page - high_mem))
      else if page < user_end
      then Some (userTables ! (2 - level) + 8 * drop_bit (12 + 9 * level) page)
      else None)"

definition setPageEntry :: "Mmu \<Rightarrow> nat \<Rightarrow> u64 \<Rightarrow> physaddr_t \<Rightarrow> u32 \<Rightarrow> Mmu option" where
  "setPageEntry s level page frame flags =
     (if level > 2 then Some s
      else do {
        entry \<leftarrow> entry_ptr level page;
        run s (Write entry (if level = 0 then makePageDescriptor frame flags
                            else makeBlockDescriptor frame flags)) })"

definition setTableEntry :: "Mmu \<Rightarrow> nat \<Rightarrow> u64 \<Rightarrow> physaddr_t \<Rightarrow> Mmu option" where
  "setTableEntry s level page table =
     (if level = 0 then Some s
      else do { entry \<leftarrow> entry_ptr level page; run s (Write entry (makeTableDescriptor table)) })"

definition clearEntry :: "Mmu \<Rightarrow> nat \<Rightarrow> u64 \<Rightarrow> Mmu option" where
  "clearEntry s level page = do { entry \<leftarrow> entry_ptr level page; run s (Write entry 0) }"

definition getPageFrame :: "Mmu \<Rightarrow> u64 \<Rightarrow> physaddr_t option" where
  "getPageFrame s page =
     (let tables = (if page > high_mem then kernelTables else userTables);
          linearAddr = page AND 0x0000007FFFFFFFFF
      in do {
        e0 \<leftarrow> read_entry s (tables ! 0 + 8 * drop_bit 30 linearAddr);
        (if \<not> bit e0 bit_present then Some 0
         else if \<not> bit e0 bit_type then Some (physicalAddress e0)
         else do {
           e1 \<leftarrow> read_entry s (tables ! 1 + 8 * drop_bit 21 linearAddr);
           (if \<not> bit e1 bit_present then Some 0
            else if \<not> bit e1 bit_type then Some (physicalAddress e1)
            else do {
              e2 \<leftarrow> read_entry s (tables ! 2 + 8 * drop_bit 12 linearAddr);
              (if \<not> bit e2 bit_present then Some 0 else Some (physicalAddress e2)) }) }) })"

definition scratchAddr :: u64 where "scratchAddr = 0xFFFFFFFFBFFFF000"

fun write_all :: "Mmu \<Rightarrow> (u64 \<times> u64) list \<Rightarrow> Mmu option" where
  "write_all s [] = Some s"
| "write_all s ((ptr, v) # ws) = do { s' \<leftarrow> run s (Write ptr v); write_all s' ws }"

definition initializeTopTable :: "Mmu \<Rightarrow> physaddr_t \<Rightarrow> Mmu option" where
  "initializeTopTable s frame = do {
     buf \<leftarrow> getPageFrame s scratchAddr;
     s1 \<leftarrow> setPageEntry s 0 scratchAddr frame PAGE_RW;
     s2 \<leftarrow> write_all s1 (map (\<lambda>i. (scratchAddr + 8 * of_nat i, 0)) [0..<511]);
     s3 \<leftarrow> run s2 (Write (scratchAddr + 8 * 511) (makeTableDescriptor frame));
     setPageEntry s3 0 scratchAddr buf PAGE_RW }"

text \<open>\<open>createAddressSpace\<close> returns the frame of the new top table; \<open>idCounter\<close> numbers the spaces.\<close>

definition createAddressSpace :: "Mmu \<Rightarrow> int \<Rightarrow> ((physaddr_t \<times> int) option \<times> Mmu \<times> int) option" where
  "createAddressSpace s idCounter = do {
     (frame, pa) \<leftarrow> pa_reserve (frame_pool s) (getBlockSize 0);
     let s1 = s\<lparr>frame_pool := pa\<rparr>;
     (if frame = NOMEM then Some (None, s1, idCounter)
      else do {
        s2 \<leftarrow> initializeTopTable s1 frame;
        Some (Some (frame, idCounter), s2, idCounter + 1) }) }"

text \<open>The loops of \<open>map_region\<close> and \<open>unmap_region\<close> step a 64-bit counter; it wraps around for a size
  above \<open>2\<^sup>6\<^sup>4 - 4096\<close>.\<close>

partial_function (option) map_region_from :: "Mmu \<Rightarrow> u64 \<Rightarrow> u64 \<Rightarrow> u64 \<Rightarrow> physaddr_t \<Rightarrow> u32 \<Rightarrow> Mmu option" where
  "map_region_from s p addr sz frame flags =
     (if p < sz then do {
        s' \<leftarrow> setPageEntry s 0 (addr + p) (frame + p) flags;
        map_region_from s' (p + getBlockSize 0) addr sz frame flags }
      else Some s)"

definition map_region :: "Mmu \<Rightarrow> u64 \<Rightarrow> u64 \<Rightarrow> physaddr_t \<Rightarrow> u32 \<Rightarrow> (int \<times> Mmu) option" where
  "map_region s addr sz frame flags = do { s' \<leftarrow> map_region_from s 0 addr sz frame flags; Some (0, s') }"

partial_function (option) unmap_region_from :: "Mmu \<Rightarrow> u64 \<Rightarrow> u64 \<Rightarrow> u64 \<Rightarrow> Mmu option" where
  "unmap_region_from s p addr sz =
     (if p < sz then do {
        s' \<leftarrow> clearEntry s 0 (addr + p);
        unmap_region_from s' (p + getBlockSize 0) addr sz }
      else Some s)"

definition unmap_region :: "Mmu \<Rightarrow> u64 \<Rightarrow> u64 \<Rightarrow> (physaddr_t \<times> Mmu) option" where
  "unmap_region s addr sz = do { s' \<leftarrow> unmap_region_from s 0 addr sz; Some (0, s') }"

declare map_region_from.simps [code] unmap_region_from.simps [code]

end
