(* ===== verification/Mmu_Correct.thy ===== *)
theory Mmu_Correct
  imports Mmu
begin

text \<open>
  Correctness of the operations on translation tables: the addresses \<open>entry_ptr\<close> computes reach
  the entries of the page through the self-map, and a change of an entry has the effect on the
  translation of the page that the operation promises, with the missing tables allocated by
  the page fault handler on the way.
\<close>

section \<open>Descriptors\<close>

lemmas descriptor_bits = bit_present_def bit_type_def bit_apEL0_def bit_apReadOnly_def bit_af_def
  bit_pxn_def bit_xn_def

lemma bit_set_field [simp]:
  "bit (set_field i b e) n \<longleftrightarrow> (if n = i \<and> n < 64 then b else bit e n)"
  by (auto simp: set_field_def bit_simps dest: bit_imp_le_length)

lemma bit_set_physicalAddress:
  "bit (set_physicalAddress e a) n \<longleftrightarrow> (if 12 \<le> n \<and> n < 52 then bit a n else bit e n)"
  by (cases "n < 64") (auto simp: set_physicalAddress_def bit_simps dest: bit_imp_le_length)

lemma low_bit_range: "n < 12 \<Longrightarrow> bit (set_physicalAddress e a) n = bit e n"
  by (simp add: bit_set_physicalAddress)

text \<open>A frame of the machine: aligned to pages, with an address of 48 bits.\<close>

definition is_frame :: "u64 \<Rightarrow> bool" where
  "is_frame f \<longleftrightarrow> take_bit 12 f = 0 \<and> drop_bit 48 f = 0"

lemma is_frame_bit: "is_frame f \<Longrightarrow> bit f n \<Longrightarrow> 12 \<le> n \<and> n < 48"
proof -
  assume a: "is_frame f" "bit f n"
  have "\<not> bit (take_bit 12 f) n" "\<not> bit (drop_bit 48 f) (n - 48)" using a(1) by (simp_all add: is_frame_def)
  then show ?thesis using a(2) by (cases "n < 48") (auto simp: bit_simps not_le)
qed

lemma next_table_address: "is_frame f \<Longrightarrow> next_table (set_physicalAddress e f) = f"
  by (rule bit_word_eqI) (auto simp: next_table_def bit_simps bit_set_physicalAddress dest: is_frame_bit)

lemma physicalAddress_set: "is_frame f \<Longrightarrow> physicalAddress (set_physicalAddress e f) = f"
  by (rule bit_word_eqI) (auto simp: physicalAddress_def bit_simps bit_set_physicalAddress dest: is_frame_bit)

lemma tableDescriptor_bits [simp]:
  "bit (makeTableDescriptor f) 0" "bit (makeTableDescriptor f) 1" "bit (makeTableDescriptor f) 10"
  "\<not> bit (makeTableDescriptor f) 7"
  by (simp_all add: makeTableDescriptor_def bit_set_physicalAddress descriptor_bits)

lemmas tableDescriptor_bit1 [simp] = tableDescriptor_bits(2)[unfolded One_nat_def]

lemma next_table_tableDescriptor: "is_frame f \<Longrightarrow> next_table (makeTableDescriptor f) = f"
  by (simp add: makeTableDescriptor_def next_table_address)

lemma pageDescriptor_bits:
  "bit (makePageDescriptor f p) 0" "bit (makePageDescriptor f p) 1" "bit (makePageDescriptor f p) 10"
  "bit (makePageDescriptor f p) 7 \<longleftrightarrow> p AND PAGE_RW = 0" "bit (makePageDescriptor f p) 6 \<longleftrightarrow> p AND PAGE_USER \<noteq> 0"
  "bit (makePageDescriptor f p) 53 \<longleftrightarrow> p AND PAGE_EXE = 0"
  by (simp_all add: makePageDescriptor_def set_permissions_def bit_set_physicalAddress descriptor_bits)

lemma next_table_pageDescriptor: "is_frame f \<Longrightarrow> next_table (makePageDescriptor f p) = f"
  by (simp add: makePageDescriptor_def next_table_address)

section \<open>Addresses in the self-map\<close>

text \<open>The three entries of the page at \<open>va\<close> in the self-map; \<open>hb\<close> is 0 or the upper half.\<close>

definition half :: "u64 \<Rightarrow> bool" where
  "half hb \<longleftrightarrow> hb = 0 \<or> hb = high_mem"

definition slot :: "u64 \<Rightarrow> nat \<Rightarrow> u64 \<Rightarrow> u64" where
  "slot hb level va = hb + userTables ! (2 - level) + 8 * drop_bit (12 + 9 * level) va"

definition lower :: "u64 \<Rightarrow> bool" where
  "lower va \<longleftrightarrow> drop_bit 39 va = 0"

lemma lower_bit: "lower va \<Longrightarrow> bit va n \<Longrightarrow> n < 39"
proof (rule ccontr)
  assume a: "lower va" "bit va n" "\<not> n < 39"
  then have "bit (drop_bit 39 va) (n - 39)" by (simp add: bit_simps)
  then show False using a(1) by (simp add: lower_def)
qed

lemma half_bit: "half hb \<Longrightarrow> bit hb n \<Longrightarrow> 39 \<le> n"
proof -
  have h: "high_mem = push_bit 39 (mask 25)" by (simp add: high_mem_def mask_eq_exp_minus_1)
  show "half hb \<Longrightarrow> bit hb n \<Longrightarrow> 39 \<le> n" unfolding half_def h by (auto simp: bit_simps)
qed

lemma userTables_mask:
  assumes "level \<le> 2"
  shows "userTables ! (2 - level) = push_bit (30 - 9 * level) (mask (9 + 9 * level))"
proof -
  consider "level = 0" | "level = 1" | "level = 2" using assms by linarith
  then show ?thesis by cases (simp_all add: userTables_def mask_eq_exp_minus_1)
qed

lemma slot_or:
  assumes "half hb" "lower va" "level \<le> 2"
  shows "slot hb level va = (hb OR push_bit (30 - 9 * level) (mask (9 + 9 * level)))
    OR push_bit 3 (drop_bit (12 + 9 * level) va)"
proof -
  let ?m = "push_bit (30 - 9 * level) (mask (9 + 9 * level)) :: u64" and ?v = "push_bit 3 (drop_bit (12 + 9 * level) va)"
  have e: "8 * drop_bit (12 + 9 * level) va = ?v" by (simp add: push_bit_eq_mult)
  have d1: "hb AND ?m = 0"
    by (rule bit_word_eqI) (use half_bit[OF assms(1)] assms(3) in \<open>fastforce simp: bit_simps\<close>)
  have d2: "(hb OR ?m) AND ?v = 0"
  proof (rule bit_word_eqI)
    fix i :: nat assume "i < LENGTH(64)"
    have "bit ?v i \<Longrightarrow> i < 30 - 9 * level" using lower_bit[OF assms(2)] by (fastforce simp: bit_simps)
    moreover have "bit (hb OR ?m) i \<Longrightarrow> 30 - 9 * level \<le> i" using half_bit[OF assms(1), of i] by (auto simp: bit_simps)
    ultimately show "bit ((hb OR ?m) AND ?v) i \<longleftrightarrow> bit (0 :: u64) i" unfolding bit_and_iff by (metis bit_0_eq bot_apply bot_bool_def not_le)
  qed
  show ?thesis
    unfolding slot_def userTables_mask[OF assms(3)] e
    by (simp only: disjunctive_add_eq_or[OF d1] disjunctive_add_eq_or[OF d2])
qed

lemma bit_slot:
  assumes "half hb" "lower va" "level \<le> 2" "n < 39"
  shows "bit (slot hb level va) n \<longleftrightarrow> 30 - 9 * level \<le> n \<or> 3 \<le> n \<and> bit va (n + 9 + 9 * level)"
proof -
  have "\<not> bit hb n" using half_bit[OF assms(1)] assms(4) by fastforce
  then show ?thesis unfolding slot_or[OF assms(1-3)] using assms(3,4) by (auto simp: bit_simps algebra_simps)
qed

lemma slot_top:
  assumes "half hb" "lower va" "level \<le> 2"
  shows "drop_bit 39 (slot hb level va) = drop_bit 39 hb"
  unfolding slot_or[OF assms] by (rule bit_word_eqI) (use assms(3) in \<open>auto simp: bit_simps dest: lower_bit[OF assms(2)]\<close>)

lemma slot_index:
  assumes "half hb" "lower va"
  shows "take_bit 9 (drop_bit 30 (slot hb 0 va)) = mask 9"
    "take_bit 9 (drop_bit 21 (slot hb 0 va)) = take_bit 9 (drop_bit 30 va)"
    "take_bit 9 (drop_bit 12 (slot hb 0 va)) = take_bit 9 (drop_bit 21 va)"
    "take_bit 12 (slot hb 0 va) = 8 * take_bit 9 (drop_bit 12 va)"
    "take_bit 9 (drop_bit 30 (slot hb 1 va)) = mask 9"
    "take_bit 9 (drop_bit 21 (slot hb 1 va)) = mask 9"
    "take_bit 9 (drop_bit 12 (slot hb 1 va)) = take_bit 9 (drop_bit 30 va)"
    "take_bit 12 (slot hb 1 va) = 8 * take_bit 9 (drop_bit 21 va)"
    "take_bit 9 (drop_bit 30 (slot hb 2 va)) = mask 9"
    "take_bit 9 (drop_bit 21 (slot hb 2 va)) = mask 9"
    "take_bit 9 (drop_bit 12 (slot hb 2 va)) = mask 9"
    "take_bit 12 (slot hb 2 va) = 8 * take_bit 9 (drop_bit 30 va)"
proof -
  note b = bit_slot[OF assms]
  have m8: "8 * w = push_bit 3 w" for w :: u64 by (simp add: push_bit_eq_mult)
  show "take_bit 9 (drop_bit 30 (slot hb 0 va)) = mask 9"
    "take_bit 9 (drop_bit 21 (slot hb 0 va)) = take_bit 9 (drop_bit 30 va)"
    "take_bit 9 (drop_bit 12 (slot hb 0 va)) = take_bit 9 (drop_bit 21 va)"
    "take_bit 12 (slot hb 0 va) = 8 * take_bit 9 (drop_bit 12 va)"
    unfolding m8 by (rule bit_word_eqI, auto simp: bit_simps b add.commute dest: lower_bit[OF assms(2)])+
  show "take_bit 9 (drop_bit 30 (slot hb 1 va)) = mask 9"
    "take_bit 9 (drop_bit 21 (slot hb 1 va)) = mask 9"
    "take_bit 9 (drop_bit 12 (slot hb 1 va)) = take_bit 9 (drop_bit 30 va)"
    "take_bit 12 (slot hb 1 va) = 8 * take_bit 9 (drop_bit 21 va)"
    unfolding m8 by (rule bit_word_eqI, auto simp: bit_simps b add.commute dest: lower_bit[OF assms(2)])+
  show "take_bit 9 (drop_bit 30 (slot hb 2 va)) = mask 9"
    "take_bit 9 (drop_bit 21 (slot hb 2 va)) = mask 9"
    "take_bit 9 (drop_bit 12 (slot hb 2 va)) = mask 9"
    "take_bit 12 (slot hb 2 va) = 8 * take_bit 9 (drop_bit 30 va)"
    unfolding m8 by (rule bit_word_eqI, auto simp: bit_simps b add.commute dest: lower_bit[OF assms(2)])+
qed

section \<open>The self-map\<close>

text \<open>A table whose last entry is a table descriptor of the table itself.\<close>

definition self_entry :: "u64 \<Rightarrow> u64" where
  "self_entry T = T + 8 * mask 9"

definition self_mapped :: "(u64 \<Rightarrow> u64) \<Rightarrow> u64 \<Rightarrow> bool" where
  "self_mapped pm T \<longleftrightarrow> pm (self_entry T) = makeTableDescriptor T \<and> is_frame T"

text \<open>The entries of the three levels for a page.\<close>

definition entry1 :: "(u64 \<Rightarrow> u64) \<Rightarrow> u64 \<Rightarrow> u64 \<Rightarrow> u64" where
  "entry1 pm T va = pm (entry_loc T va 30)"

definition entry2 :: "(u64 \<Rightarrow> u64) \<Rightarrow> u64 \<Rightarrow> u64 \<Rightarrow> u64" where
  "entry2 pm T va = pm (entry_loc (next_table (entry1 pm T va)) va 21)"

definition is_table :: "u64 \<Rightarrow> bool" where
  "is_table e \<longleftrightarrow> bit e 0 \<and> bit e 1 \<and> bit e 10 \<and> \<not> bit e 7"

definition leaf_loc :: "(u64 \<Rightarrow> u64) \<Rightarrow> u64 \<Rightarrow> u64 \<Rightarrow> u64" where
  "leaf_loc pm T va = entry_loc (next_table (entry2 pm T va)) va 12"

lemma is_table_descriptor [simp]: "is_table (makeTableDescriptor f)"
  by (simp add: is_table_def)

lemma walk_slots:
  assumes "self_mapped pm T" "half hb" "lower va"
  shows "walk pm T (slot hb 2 va) = Inr (makeTableDescriptor T, entry_loc T va 30)"
    "walk pm T (slot hb 1 va) = (let e1 = entry1 pm T va in
       if bit e1 0 \<and> bit e1 1 then Inr (e1, entry_loc (next_table e1) va 21) else Inl 3)"
    "walk pm T (slot hb 0 va) = (let e1 = entry1 pm T va; e2 = entry2 pm T va in
       if \<not> bit e1 0 then Inl 2
       else if \<not> bit e1 1 then Inr (e1, next_table e1 + take_bit 21 (slot hb 0 va))
       else if bit e2 0 \<and> bit e2 1 then Inr (e2, leaf_loc pm T va) else Inl 3)"
proof -
  have T: "pm (T + 8 * mask 9) = makeTableDescriptor T" "next_table (makeTableDescriptor T) = T"
    using assms(1) by (auto simp: self_mapped_def self_entry_def next_table_tableDescriptor)
  note i = slot_index[OF assms(2,3)] slot_index(5-8)[OF assms(2,3), unfolded One_nat_def]
  show "walk pm T (slot hb 2 va) = Inr (makeTableDescriptor T, entry_loc T va 30)"
    unfolding walk_def entry_loc_def by (simp add: i T Let_def)
  show "walk pm T (slot hb 1 va) = (let e1 = entry1 pm T va in
       if bit e1 0 \<and> bit e1 1 then Inr (e1, entry_loc (next_table e1) va 21) else Inl 3)"
    unfolding walk_def entry_loc_def entry1_def by (simp add: i T Let_def)
  show "walk pm T (slot hb 0 va) = (let e1 = entry1 pm T va; e2 = entry2 pm T va in
       if \<not> bit e1 0 then Inl 2
       else if \<not> bit e1 1 then Inr (e1, next_table e1 + take_bit 21 (slot hb 0 va))
       else if bit e2 0 \<and> bit e2 1 then Inr (e2, leaf_loc pm T va) else Inl 3)"
    unfolding walk_def entry_loc_def entry1_def entry2_def leaf_loc_def by (simp add: i T Let_def)
qed

section \<open>The two halves\<close>

definition half_of :: "u64 \<Rightarrow> u64" where
  "half_of page = (if page < user_end then 0 else high_mem)"

definition low :: "u64 \<Rightarrow> u64" where
  "low page = take_bit 39 page"

definition top_table :: "Mmu \<Rightarrow> u64 \<Rightarrow> u64" where
  "top_table s page = (if page < user_end then ttbr0_table s else ttbr1_table s)"

definition canonical :: "u64 \<Rightarrow> bool" where
  "canonical page \<longleftrightarrow> page < user_end \<or> high_mem \<le> page"

lemma half_half_of [simp]: "half (half_of page)"
  by (simp add: half_of_def half_def)

lemma lower_low [simp]: "lower (low page)"
  unfolding lower_def low_def by (rule bit_word_eqI) (simp add: bit_simps)

lemma unat_drop: "unat (drop_bit n (w :: u64)) = unat w div 2 ^ n"
proof -
  have "take_bit 64 (unat w) = unat w" using unsigned_less[of w, where ?'a = nat] by (intro take_bit_nat_eq_self) simp
  then show ?thesis by (simp add: unsigned_drop_bit_eq drop_bit_eq_div[where ?'a = nat])
qed

lemma user_iff: "w < user_end \<longleftrightarrow> drop_bit 39 w = 0"
proof -
  have "unat (drop_bit 39 w) = unat w div 2 ^ 39" by (rule unat_drop)
  then have "drop_bit 39 w = 0 \<longleftrightarrow> unat w div 2 ^ 39 = 0" by (metis unat_eq_zero)
  then show ?thesis by (simp add: user_end_def word_less_nat_alt div_eq_0_iff)
qed

lemma kernel_iff: "high_mem \<le> w \<longleftrightarrow> drop_bit 39 w = mask 25"
proof -
  have u: "unat (drop_bit 39 w) = unat w div 2 ^ 39" by (rule unat_drop)
  have lt: "unat w < 2 ^ 64" using unsigned_less[of w, where ?'a = nat] by simp
  have "high_mem \<le> w \<longleftrightarrow> (2 ^ 25 - 1) * 2 ^ 39 \<le> unat w" by (simp add: high_mem_def word_le_nat_alt)
  also have "\<dots> \<longleftrightarrow> 2 ^ 25 - 1 \<le> unat w div 2 ^ 39" by (simp add: less_eq_div_iff_mult_less_eq)
  also have "\<dots> \<longleftrightarrow> unat w div 2 ^ 39 = 2 ^ 25 - 1" using lt by (auto simp: less_mult_imp_div_less intro: antisym)
  also have "\<dots> \<longleftrightarrow> drop_bit 39 w = mask 25"
    unfolding u[symmetric] by (simp add: word_unat_eq_iff mask_eq_exp_minus_1)
  finally show ?thesis .
qed

lemma high_mem_top: "drop_bit 39 high_mem = mask 25"
  using kernel_iff[of high_mem] by simp

lemma canonical_split: "canonical page \<Longrightarrow> page = half_of page + low page"
proof -
  assume c: "canonical page"
  have d: "drop_bit 39 page = drop_bit 39 (half_of page)"
    using c user_iff[of page] kernel_iff[of page] by (auto simp: canonical_def half_of_def high_mem_top)
  have "half_of page AND low page = 0" using half_bit[OF half_half_of] by (intro bit_word_eqI) (fastforce simp: low_def bit_simps)
  then have "half_of page + low page = half_of page OR low page" by (rule disjunctive_add_eq_or)
  moreover have "page = half_of page OR low page"
  proof (rule bit_word_eqI)
    fix n :: nat assume "n < LENGTH(64)"
    show "bit page n = bit (half_of page OR low page) n"
    proof (cases "n < 39")
      case True
      then show ?thesis using half_bit[OF half_half_of, of page n] by (auto simp: low_def bit_simps)
    next
      case False
      have "bit (drop_bit 39 page) (n - 39) = bit (drop_bit 39 (half_of page)) (n - 39)" using d by simp
      then show ?thesis using False by (simp add: low_def bit_simps)
    qed
  qed
  ultimately show ?thesis by simp
qed

lemma low_sub: "high_mem \<le> page \<Longrightarrow> page - high_mem = low page"
proof -
  assume h: "high_mem \<le> page"
  then have "\<not> page < user_end" using user_iff[of page] kernel_iff[of page] by (auto simp: mask_eq_exp_minus_1)
  then show ?thesis using canonical_split[of page] h by (simp add: canonical_def half_of_def diff_eq_eq add.commute)
qed

lemma low_user: "page < user_end \<Longrightarrow> low page = page"
  using canonical_split[of page] by (simp add: canonical_def half_of_def)

lemma kernelTables_high: "i \<le> 2 \<Longrightarrow> kernelTables ! i = high_mem + userTables ! i"
proof -
  assume "i \<le> 2"
  then consider "i = 0" | "i = 1" | "i = 2" by linarith
  then show ?thesis by cases (simp_all add: kernelTables_def userTables_def high_mem_def)
qed

lemma entry_ptr_slot:
  assumes "canonical page" "level \<le> 2"
  shows "entry_ptr level page = Some (slot (half_of page) level (low page))"
proof (cases "page < user_end")
  case True
  then have "\<not> high_mem \<le> page" by (auto simp: user_end_def high_mem_def word_le_nat_alt word_less_nat_alt)
  then show ?thesis using True assms(2) by (simp add: entry_ptr_def slot_def half_of_def low_user)
next
  case False
  then show ?thesis using assms kernelTables_high[of "2 - level"]
    by (simp add: entry_ptr_def slot_def half_of_def low_sub canonical_def)
qed

lemma translate_slot:
  assumes "canonical page" "level \<le> 2" "lower va"
  shows "translate s (slot (half_of page) level va) = walk (pmem s) (top_table s page) (slot (half_of page) level va)"
proof -
  have t: "drop_bit 39 (slot (half_of page) level va) = drop_bit 39 (half_of page)"
    by (rule slot_top) (use assms in simp_all)
  have m: "(mask 25 :: u64) \<noteq> 0" by (simp add: mask_eq_exp_minus_1)
  define p where "p = slot (half_of page) level va"
  have t': "drop_bit 39 p = drop_bit 39 (half_of page)" using t by (simp add: p_def)
  have "p < user_end \<longleftrightarrow> page < user_end" "high_mem \<le> p \<longleftrightarrow> \<not> page < user_end"
    unfolding user_iff[of p] kernel_iff[of p] t' using m by (auto simp: half_of_def high_mem_top)
  then show ?thesis unfolding p_def[symmetric] by (auto simp: translate_def top_table_def)
qed

lemma walk_low: "walk pm T (low page) = walk pm T page"
proof -
  have "take_bit 9 (drop_bit k (low page)) = take_bit 9 (drop_bit k page)" if "k \<le> 30" for k
    by (rule bit_word_eqI) (use that in \<open>auto simp: low_def bit_simps\<close>)
  moreover have "take_bit k (low page) = take_bit k page" if "k \<le> 39" for k
    using that by (simp add: low_def take_bit_take_bit min_absorb1)
  ultimately show ?thesis by (simp add: walk_def entry_loc_def Let_def)
qed

lemma translate_page: "canonical page \<Longrightarrow> translate s page = walk (pmem s) (top_table s page) (low page)"
  by (auto simp: translate_def canonical_def top_table_def walk_low)

section \<open>Entry locations\<close>

lemma entry_loc_frame:
  assumes "is_frame f"
  shows "drop_bit 12 (entry_loc f va k) = drop_bit 12 f"
proof -
  have m8: "8 * w = push_bit 3 w" for w :: u64 by (simp add: push_bit_eq_mult)
  have "f AND push_bit 3 (take_bit 9 (drop_bit k va)) = 0"
    by (rule bit_word_eqI) (auto simp: bit_simps dest: is_frame_bit[OF assms])
  then have "entry_loc f va k = f OR push_bit 3 (take_bit 9 (drop_bit k va))"
    unfolding entry_loc_def m8 by (rule disjunctive_add_eq_or)
  then show ?thesis by (auto intro!: bit_word_eqI simp: bit_simps)
qed

lemma entry_loc_neq:
  assumes "is_frame f" "is_frame g" "f \<noteq> g"
  shows "entry_loc f a i \<noteq> entry_loc g b j"
proof
  assume "entry_loc f a i = entry_loc g b j"
  then have d: "drop_bit 12 f = drop_bit 12 g" using entry_loc_frame assms by metis
  have "f = g"
  proof (rule bit_word_eqI)
    fix n :: nat assume "n < LENGTH(64)"
    show "bit f n = bit g n"
    proof (cases "n < 12")
      case True
      then show ?thesis using is_frame_bit[OF assms(1), of n] is_frame_bit[OF assms(2), of n] by auto
    next
      case False
      have "bit (drop_bit 12 f) (n - 12) = bit (drop_bit 12 g) (n - 12)" using d by simp
      then show ?thesis using False by (simp add: bit_simps)
    qed
  qed
  then show False using assms(3) by simp
qed

lemma is_frame_next_table [simp]: "is_frame (next_table e)"
  unfolding is_frame_def next_table_def by (auto intro!: bit_word_eqI simp: bit_simps)

lemma entry_loc_inj:
  assumes "entry_loc f a i = entry_loc f b j"
  shows "take_bit 9 (drop_bit i a) = take_bit 9 (drop_bit j b)"
proof (rule bit_word_eqI)
  fix n :: nat assume "n < LENGTH(64)"
  have e: "push_bit 3 (take_bit 9 (drop_bit i a)) = push_bit 3 (take_bit 9 (drop_bit j b))"
    using assms by (simp add: entry_loc_def push_bit_eq_mult mult.commute)
  have "bit (push_bit 3 (take_bit 9 (drop_bit i a))) (n + 3) = bit (push_bit 3 (take_bit 9 (drop_bit j b))) (n + 3)"
    using e by simp
  then show "bit (take_bit 9 (drop_bit i a)) n = bit (take_bit 9 (drop_bit j b)) n"
    by (cases "n < 9") (auto simp: bit_simps)
qed

lemma self_entry_loc: "self_entry T = entry_loc T (mask 9) 0"
proof -
  have "take_bit 9 (drop_bit 0 (mask 9)) = (mask 9 :: u64)" by (rule bit_word_eqI) (auto simp: bit_simps)
  then show ?thesis by (simp add: self_entry_def entry_loc_def)
qed

lemma self_entry_neq:
  "take_bit 9 (drop_bit 30 va) \<noteq> mask 9 \<Longrightarrow> entry_loc T va 30 \<noteq> self_entry T"
  using entry_loc_inj[of T va 30 "mask 9" 0] by (auto simp: self_entry_loc take_bit_eq_mask)

section \<open>Stores to entries\<close>

lemma run_write:
  "access s True ptr = Inr pa \<Longrightarrow> run s (Write ptr v) = Some (s\<lparr>pmem := (pmem s)(pa := v)\<rparr>)"
  by (subst run.simps) simp

lemma access_table: "translate s ptr = Inr (e, pa) \<Longrightarrow> is_table e \<Longrightarrow> access s w ptr = Inr pa"
  by (simp add: access_def is_table_def)

text \<open>The state of the tables around a page: its table is self-mapped and the page lies outside the
  self-map.\<close>

definition page_ok :: "Mmu \<Rightarrow> u64 \<Rightarrow> bool" where
  "page_ok s page \<longleftrightarrow> canonical page \<and> self_mapped (pmem s) (top_table s page)
     \<and> take_bit 9 (drop_bit 30 (low page)) \<noteq> mask 9"

lemma page_okD:
  assumes "page_ok s page"
  shows "canonical page" "self_mapped (pmem s) (top_table s page)" "is_frame (top_table s page)"
    "take_bit 9 (drop_bit 30 (low page)) \<noteq> mask 9"
  using assms by (auto simp: page_ok_def self_mapped_def)

lemma access_slots:
  assumes "page_ok s page"
  defines "T \<equiv> top_table s page" and "va \<equiv> low page" and "hb \<equiv> half_of page"
  shows "access s w (slot hb 2 va) = Inr (entry_loc T va 30)"
    "is_table (entry1 (pmem s) T va) \<Longrightarrow>
       access s w (slot hb 1 va) = Inr (entry_loc (next_table (entry1 (pmem s) T va)) va 21)"
    "is_table (entry1 (pmem s) T va) \<Longrightarrow> is_table (entry2 (pmem s) T va) \<Longrightarrow>
       access s w (slot hb 0 va) = Inr (leaf_loc (pmem s) T va)"
    "\<not> bit (entry1 (pmem s) T va) 0 \<Longrightarrow> access s w (slot hb 0 va) = Inl (TRANSLATE_FAULT 2)"
    "is_table (entry1 (pmem s) T va) \<Longrightarrow> \<not> bit (entry2 (pmem s) T va) 0 \<Longrightarrow>
       access s w (slot hb 0 va) = Inl (TRANSLATE_FAULT 3)"
proof -
  note ok = page_okD[OF assms(1), folded T_def]
  have t: "translate s (slot hb l va) = walk (pmem s) T (slot hb l va)" if "l \<le> 2" for l
    unfolding hb_def T_def va_def using translate_slot[OF ok(1) that] by simp
  note w = walk_slots[OF ok(2), of hb va]
  have h: "half hb" "lower va" by (simp_all add: hb_def va_def)
  show "access s w (slot hb 2 va) = Inr (entry_loc T va 30)"
    by (rule access_table[of _ _ "makeTableDescriptor T"]) (use t[of 2] w(1)[OF h] in simp_all)
  show "access s w (slot hb 1 va) = Inr (entry_loc (next_table (entry1 (pmem s) T va)) va 21)"
    if "is_table (entry1 (pmem s) T va)"
    by (rule access_table[OF _ that]) (use t[of 1] w(2)[OF h] that in \<open>simp add: is_table_def Let_def\<close>)
  show "access s w (slot hb 0 va) = Inr (leaf_loc (pmem s) T va)"
    if "is_table (entry1 (pmem s) T va)" "is_table (entry2 (pmem s) T va)"
    by (rule access_table[OF _ that(2)]) (use t[of 0] w(3)[OF h] that in \<open>simp add: is_table_def Let_def\<close>)
  show "access s w (slot hb 0 va) = Inl (TRANSLATE_FAULT 2)" if "\<not> bit (entry1 (pmem s) T va) 0"
    using t[of 0] w(3)[OF h] that by (simp add: access_def Let_def)
  show "access s w (slot hb 0 va) = Inl (TRANSLATE_FAULT 3)"
    if "is_table (entry1 (pmem s) T va)" "\<not> bit (entry2 (pmem s) T va) 0"
    using t[of 0] w(3)[OF h] that by (simp add: access_def is_table_def Let_def)
qed


section \<open>Filling in tables\<close>

lemma tables_of_half:
  assumes "canonical page" "level \<le> 2" "lower va"
  shows "tables_of (slot (half_of page) level va) = (if page < user_end then userTables else kernelTables)"
proof -
  define p where "p = slot (half_of page) level va"
  have t: "drop_bit 39 p = drop_bit 39 (half_of page)" unfolding p_def by (rule slot_top) (use assms in simp_all)
  have "(mask 25 :: u64) \<noteq> 0" by (simp add: mask_eq_exp_minus_1)
  then have "high_mem \<le> p \<longleftrightarrow> \<not> page < user_end"
    unfolding kernel_iff[of p] t by (auto simp: half_of_def high_mem_top)
  then show ?thesis unfolding p_def[symmetric] tables_of_def by simp
qed

lemma fill_index:
  assumes "lower va" "i \<le> 1"
  shows "drop_bit (12 + 9 * (2 - i - 1)) (8 * drop_bit 12 va) = drop_bit (12 + 9 * (2 - i)) va"
proof -
  have m8: "8 * drop_bit 12 va = push_bit 3 (drop_bit 12 va)" by (simp add: push_bit_eq_mult)
  have z: "drop_bit 21 (push_bit 3 (drop_bit 12 va)) = drop_bit 30 va" "drop_bit 12 (push_bit 3 (drop_bit 12 va)) = drop_bit 21 va"
    by (rule bit_word_eqI, use lower_bit[OF assms(1)] in \<open>fastforce simp: bit_simps add.commute\<close>)+
  consider "i = 0" | "i = 1" using assms(2) by linarith
  then show ?thesis unfolding m8 by cases (simp_all add: z)
qed

lemma slot_tables:
  assumes "level \<le> 2"
  shows "slot (half_of page) level va
    = (if page < user_end then userTables else kernelTables) ! (2 - level) + 8 * drop_bit (12 + 9 * level) va"
  using assms kernelTables_high[of "2 - level"] by (simp add: slot_def half_of_def)

lemma slot0_range:
  assumes "lower va" "take_bit 9 (drop_bit 30 va) \<noteq> mask 9"
  shows "8 * drop_bit 12 va < (0x3FE00000 :: u64)"
proof -
  let ?x = "8 * drop_bit 12 va"
  have m8: "?x = push_bit 3 (drop_bit 12 va)" by (simp add: push_bit_eq_mult)
  have "drop_bit 21 ?x = take_bit 9 (drop_bit 30 va)"
    unfolding m8 by (rule bit_word_eqI) (use lower_bit[OF assms(1)] in \<open>fastforce simp: bit_simps add.commute\<close>)
  moreover have "unat (take_bit 9 (drop_bit 30 va)) < 2 ^ 9"
    by (metis unsigned_take_bit_eq take_bit_nat_less_exp)
  moreover have "unat (take_bit 9 (drop_bit 30 va)) \<noteq> 511"
    using assms(2) by (simp add: word_unat_eq_iff mask_eq_exp_minus_1)
  ultimately have "unat ?x div 2 ^ 21 < 511" using unat_drop[of 21 ?x] by simp
  then have "unat ?x < 511 * 2 ^ 21" by (simp only: div_less_iff_less_mult zero_less_power zero_less_numeral)
  then show ?thesis by (simp add: word_less_nat_alt)
qed

lemma fault_target_slot:
  assumes "page_ok s page" "0 < l"
  shows "fault_target (TRANSLATE_FAULT l) True (slot (half_of page) 0 (low page)) = Some (l, 2)"
proof -
  define x where "x = 8 * drop_bit 12 (low page)"
  have x: "unat x < 0x3FE00000" using slot0_range[OF lower_low page_okD(4)[OF assms(1)]]
    by (simp add: word_less_nat_alt x_def)
  have sl: "slot (half_of page) 0 (low page) = (if page < user_end then 0x7FC0000000 else 0xFFFFFFFFC0000000) + x"
    using slot_tables[of 0 page "low page"] by (simp add: userTables_def kernelTables_def x_def)
  have u: "unat (0x7FC0000000 + x) = 0x7FC0000000 + unat x" "unat (0xFFFFFFFFC0000000 + x) = 0xFFFFFFFFC0000000 + unat x"
    using x by (simp_all add: unat_word_ariths)
  show ?thesis
  proof (cases "page < user_end")
    case True
    then show ?thesis unfolding sl fault_target_def using u(1) x assms(2)
      by (simp add: kernelTables_def userTables_def word_le_nat_alt)
  next
    case False
    then show ?thesis unfolding sl fault_target_def using u(2) x assms(2)
      by (simp add: kernelTables_def userTables_def word_le_nat_alt)
  qed
qed


text \<open>The jobs the handler runs for a fault at the last entry of a page.\<close>

definition fill_job :: "u64 \<Rightarrow> int \<Rightarrow> job" where
  "fill_job page i = Fill i 2 (if page < user_end then userTables else kernelTables) (8 * drop_bit 12 (low page))"

lemma run_fill_done: "run s (fill_job page 2) = Some s"
  by (simp add: fill_job_def run.simps)

lemma run_fill_step:
  assumes "i \<le> 1" "pa_reserve (frame_pool s) page_size = Some (f, pa)" "is_frame f"
    and "run (s\<lparr>frame_pool := pa\<rparr>) (Write (slot (half_of page) (2 - i) (low page)) (makeTableDescriptor f)) = Some s1"
  shows "run s (fill_job page (int i)) = run s1 (fill_job page (int i + 1))"
proof -
  have "\<not> bit f 0" using is_frame_bit[OF assms(3), of 0] by auto
  then have nm: "f \<noteq> NOMEM" by (auto simp: NOMEM_def)
  have ix: "drop_bit (12 + 9 * (2 - nat (int i) - 1)) (8 * drop_bit 12 (low page)) = drop_bit (12 + 9 * (2 - i)) (low page)"
    using fill_index[OF lower_low assms(1)] by simp
  have sl: "(if page < user_end then userTables else kernelTables) ! nat (int i) + 8 * drop_bit (12 + 9 * (2 - i)) (low page)
      = slot (half_of page) (2 - i) (low page)"
    using slot_tables[of "2 - i" page "low page"] assms(1) by simp
  have "int i < int 2" "\<not> int i < 0" using assms(1) by simp_all
  then show ?thesis unfolding fill_job_def using assms(2,4) nm
    by (subst run.simps) (simp only: job.case if_True if_False Let_def ix sl assms(2) bind.bind_lunit prod.case)
qed

lemma run_write_fault:
  assumes "page_ok s page" "access s True (slot (half_of page) 0 (low page)) = Inl (TRANSLATE_FAULT l)" "0 < l"
    and "run s (fill_job page (int l - 2)) = Some s'"
  shows "run s (Write (slot (half_of page) 0 (low page)) v) = run s' (Write (slot (half_of page) 0 (low page)) v)"
proof -
  let ?p = "slot (half_of page) 0 (low page)"
  have t: "tables_of ?p = (if page < user_end then userTables else kernelTables)"
    using tables_of_half[OF page_okD(1)[OF assms(1)], of 0] by simp
  have "?p = tables_of ?p ! 2 + 8 * drop_bit 12 (low page)"
    unfolding t using slot_tables[of 0 page "low page"] by simp
  then have o: "?p - tables_of ?p ! 2 = 8 * drop_bit 12 (low page)" by (metis add_diff_cancel_left')
  have j: "Fill (int 2 + int l - 4) 2 (tables_of ?p) (?p - tables_of ?p ! 2) = fill_job page (int l - 2)"
    unfolding o unfolding fill_job_def t by simp
  show ?thesis
    by (subst run.simps) (simp only: job.case assms(2) sum.case fault_target_slot[OF assms(1,3)] bind.bind_lunit prod.case j assms(4))
qed

lemma top_table_update [simp]:
  "top_table (s\<lparr>pmem := m\<rparr>) page = top_table s page" "top_table (s\<lparr>frame_pool := pa\<rparr>) page = top_table s page"
  by (simp_all add: top_table_def)

lemma page_ok_update:
  assumes "page_ok s page" "a \<noteq> self_entry (top_table s page)"
  shows "page_ok (s\<lparr>frame_pool := pa, pmem := (pmem s)(a := v)\<rparr>) page"
  using assms by (auto simp: page_ok_def self_mapped_def top_table_def)

lemma page_ok_pages: "page_ok s page \<Longrightarrow> page_ok (s\<lparr>frame_pool := pa\<rparr>) page"
  by (auto simp: page_ok_def)

section \<open>Mapping a page\<close>

text \<open>The three entries a walk for \<open>va\<close> reads, when it gets to the last level.\<close>

definition path :: "(u64 \<Rightarrow> u64) \<Rightarrow> u64 \<Rightarrow> u64 \<Rightarrow> u64 set" where
  "path pm T va = {entry_loc T va 30, entry_loc (next_table (entry1 pm T va)) va 21, leaf_loc pm T va}"

definition tables_apart :: "(u64 \<Rightarrow> u64) \<Rightarrow> u64 \<Rightarrow> u64 \<Rightarrow> bool" where
  "tables_apart pm T va \<longleftrightarrow> (let t2 = next_table (entry1 pm T va); t3 = next_table (entry2 pm T va) in
     is_table (entry1 pm T va) \<and> t2 \<noteq> T \<and> is_table (entry2 pm T va) \<and> t3 \<noteq> T \<and> t3 \<noteq> t2)"

lemma self_entry_other: "is_frame T \<Longrightarrow> is_frame f \<Longrightarrow> f \<noteq> T \<Longrightarrow> entry_loc f a i \<noteq> self_entry T"
  unfolding self_entry_loc by (rule entry_loc_neq)

lemma write_leaf:
  fixes v :: u64
  assumes "page_ok s page" "tables_apart (pmem s) T va" "T = top_table s page" "va = low page"
  defines "pm' \<equiv> (pmem s)(leaf_loc (pmem s) T va := v)"
  shows "run s (Write (slot (half_of page) 0 va) v) = Some (s\<lparr>pmem := pm'\<rparr>)"
    "entry1 pm' T va = entry1 (pmem s) T va" "entry2 pm' T va = entry2 (pmem s) T va"
    "leaf_loc pm' T va = leaf_loc (pmem s) T va" "pm' (leaf_loc pm' T va) = v" "page_ok (s\<lparr>pmem := pm'\<rparr>) page"
proof -
  let ?e1 = "entry1 (pmem s) T va" and ?e2 = "entry2 (pmem s) T va"
  have ta: "is_table ?e1" "next_table ?e1 \<noteq> T" "is_table ?e2" "next_table ?e2 \<noteq> T" "next_table ?e2 \<noteq> next_table ?e1"
    using assms(2) by (auto simp: tables_apart_def Let_def)
  have f: "is_frame T" using page_okD(3)[OF assms(1)] assms(3) by simp
  show "run s (Write (slot (half_of page) 0 va) v) = Some (s\<lparr>pmem := pm'\<rparr>)"
    unfolding pm'_def by (rule run_write) (use access_slots(3)[OF assms(1)] ta(1,3) assms(3,4) in simp)
  have n: "leaf_loc (pmem s) T va \<noteq> entry_loc T va 30" "leaf_loc (pmem s) T va \<noteq> entry_loc (next_table ?e1) va 21"
    "leaf_loc (pmem s) T va \<noteq> self_entry T"
    unfolding leaf_loc_def using entry_loc_neq[OF is_frame_next_table f ta(4)]
      entry_loc_neq[OF is_frame_next_table is_frame_next_table ta(5)] self_entry_other[OF f is_frame_next_table ta(4)]
    by blast+
  show e1: "entry1 pm' T va = ?e1" using n(1) by (simp add: pm'_def entry1_def)
  show e2: "entry2 pm' T va = ?e2" unfolding entry2_def e1 using n(2) by (simp add: pm'_def)
  show l: "leaf_loc pm' T va = leaf_loc (pmem s) T va" unfolding leaf_loc_def e2 ..
  show "pm' (leaf_loc pm' T va) = v" unfolding l by (simp add: pm'_def)
  show "page_ok (s\<lparr>pmem := pm'\<rparr>) page"
    using assms(1,3) n(3) by (auto simp: pm'_def page_ok_def self_mapped_def)
qed

lemma fill_second:
  assumes "page_ok s page" "is_table (entry1 (pmem s) T va)" "next_table (entry1 (pmem s) T va) \<noteq> T"
    and "pa_reserve (frame_pool s) page_size = Some (f, pa)" "is_frame f" "f \<noteq> T" "f \<noteq> next_table (entry1 (pmem s) T va)"
    and "T = top_table s page" "va = low page"
  defines "L2 \<equiv> entry_loc (next_table (entry1 (pmem s) T va)) va 21"
  defines "s' \<equiv> s\<lparr>frame_pool := pa, pmem := (pmem s)(L2 := makeTableDescriptor f)\<rparr>"
  shows "run s (fill_job page 1) = Some s'" "page_ok s' page" "entry1 (pmem s') T va = entry1 (pmem s) T va"
    "entry2 (pmem s') T va = makeTableDescriptor f" "tables_apart (pmem s') T va"
proof -
  let ?t2 = "next_table (entry1 (pmem s) T va)"
  have f: "is_frame T" using page_okD(3)[OF assms(1)] assms(8) by simp
  have n: "L2 \<noteq> entry_loc T va 30" "L2 \<noteq> self_entry T"
    unfolding L2_def using entry_loc_neq[OF is_frame_next_table f assms(3)] self_entry_other[OF f is_frame_next_table assms(3)]
    by blast+
  have "run (s\<lparr>frame_pool := pa\<rparr>) (Write (slot (half_of page) 1 (low page)) (makeTableDescriptor f)) = Some s'"
    using run_write[OF access_slots(2)[OF page_ok_pages[OF assms(1), of pa]]] assms(2,8,9)
    by (simp add: s'_def L2_def)
  then have "run s (fill_job page 1) = run s' (fill_job page 2)"
    using run_fill_step[of 1 s f pa page s'] assms(4,5) by simp
  then show "run s (fill_job page 1) = Some s'" by (simp add: run_fill_done)
  show "page_ok s' page" unfolding s'_def by (rule page_ok_update[OF assms(1)]) (use n(2) assms(8) in simp)
  show e1: "entry1 (pmem s') T va = entry1 (pmem s) T va" using n(1) by (simp add: s'_def entry1_def)
  show e2: "entry2 (pmem s') T va = makeTableDescriptor f" unfolding entry2_def e1 by (simp add: s'_def L2_def)
  show "tables_apart (pmem s') T va" unfolding tables_apart_def Let_def e1 e2
    using assms(2,3,5,6,7) by (simp add: next_table_tableDescriptor)
qed

lemma fill_first:
  assumes "page_ok s page" "pa_reserve (frame_pool s) page_size = Some (f, pa)" "is_frame f" "T = top_table s page" "va = low page"
  defines "s' \<equiv> s\<lparr>frame_pool := pa, pmem := (pmem s)(entry_loc T va 30 := makeTableDescriptor f)\<rparr>"
  shows "run s (fill_job page 0) = run s' (fill_job page 1)" "page_ok s' page"
    "entry1 (pmem s') T va = makeTableDescriptor f"
proof -
  have "run (s\<lparr>frame_pool := pa\<rparr>) (Write (slot (half_of page) 2 (low page)) (makeTableDescriptor f)) = Some s'"
    using run_write[OF access_slots(1)[OF page_ok_pages[OF assms(1), of pa]]] assms(4,5) by (simp add: s'_def)
  then show "run s (fill_job page 0) = run s' (fill_job page 1)"
    using run_fill_step[of 0 s f pa page s'] assms(2,3) by simp
  show "page_ok s' page" unfolding s'_def
    by (rule page_ok_update[OF assms(1)]) (use self_entry_neq page_okD(4)[OF assms(1)] assms(4,5) in simp)
  show "entry1 (pmem s') T va = makeTableDescriptor f" by (simp add: s'_def entry1_def)
qed

text \<open>Reading the tables back.\<close>

lemma walk_leaf:
  assumes "tables_apart pm T va" "bit (pm (leaf_loc pm T va)) 0" "bit (pm (leaf_loc pm T va)) 1"
  shows "walk pm T va = Inr (pm (leaf_loc pm T va), next_table (pm (leaf_loc pm T va)) + take_bit 12 va)"
  using assms unfolding tables_apart_def is_table_def walk_def leaf_loc_def entry2_def entry1_def by (simp add: Let_def)

lemma getPageFrame_leaf:
  assumes "page_ok s page" "tables_apart (pmem s) T va" "T = top_table s page" "va = low page" "page \<noteq> high_mem"
  shows "getPageFrame s page = (let e = pmem s (leaf_loc (pmem s) T va) in
    Some (if bit e 0 then physicalAddress e else 0))"
proof -
  have lin: "page AND 0x0000007FFFFFFFFF = low page" by (simp add: low_def take_bit_eq_mask mask_eq_exp_minus_1)
  have tb: "(if page > high_mem then kernelTables else userTables) = (if page < user_end then userTables else kernelTables)"
    using page_okD(1)[OF assms(1)] assms(5) user_iff[of page] kernel_iff[of page]
    by (auto simp: canonical_def mask_eq_exp_minus_1)
  have sl: "(if page < user_end then userTables else kernelTables) ! 0 + 8 * drop_bit 30 (low page) = slot (half_of page) 2 (low page)"
    "(if page < user_end then userTables else kernelTables) ! 1 + 8 * drop_bit 21 (low page) = slot (half_of page) 1 (low page)"
    "(if page < user_end then userTables else kernelTables) ! 2 + 8 * drop_bit 12 (low page) = slot (half_of page) 0 (low page)"
    by (simp_all add: slot_tables)
  have ta: "is_table (entry1 (pmem s) T va)" "is_table (entry2 (pmem s) T va)"
    using assms(2) by (auto simp: tables_apart_def Let_def)
  note ac = access_slots[OF assms(1), where w = False, folded assms(3,4)]
  have r: "read_entry s (slot (half_of page) 2 va) = Some (entry1 (pmem s) T va)"
    "read_entry s (slot (half_of page) 1 va) = Some (entry2 (pmem s) T va)"
    "read_entry s (slot (half_of page) 0 va) = Some (pmem s (leaf_loc (pmem s) T va))"
    unfolding read_entry_def ac(1) ac(2)[OF ta(1)] ac(3)[OF ta] by (simp_all add: entry1_def entry2_def)
  show ?thesis unfolding getPageFrame_def Let_def lin tb sl
    using r ta assms(4) by (simp add: is_table_def bit_present_def bit_type_def)
qed

text \<open>What is known of the tables above a page before it is mapped: each is there or its entry is
  not present, and the frames the allocator hands out are none of them.\<close>

definition mappable :: "Mmu \<Rightarrow> u64 \<Rightarrow> u64 \<Rightarrow> u64 \<Rightarrow> bool" where
  "mappable s page f g \<longleftrightarrow> (let T = top_table s page; va = low page;
       e1 = entry1 (pmem s) T va; e2 = entry2 (pmem s) T va in
     page_ok s page \<and> is_frame f \<and> is_frame g \<and> f \<noteq> T \<and> g \<noteq> T \<and> f \<noteq> g
     \<and> (\<exists>pa pa'. pa_reserve (frame_pool s) page_size = Some (f, pa) \<and> pa_reserve pa page_size = Some (g, pa'))
     \<and> (\<not> bit e1 0
        \<or> is_table e1 \<and> next_table e1 \<noteq> T \<and> f \<noteq> next_table e1
          \<and> (\<not> bit e2 0 \<or> is_table e2 \<and> next_table e2 \<noteq> T \<and> next_table e2 \<noteq> next_table e1)))"

lemma write_through_faults:
  assumes "mappable s page f g"
  defines "T \<equiv> top_table s page" and "va \<equiv> low page"
  shows "\<exists>s1. run s (Write (slot (half_of page) 0 va) v) = run s1 (Write (slot (half_of page) 0 va) v)
    \<and> page_ok s1 page \<and> tables_apart (pmem s1) T va \<and> top_table s1 page = T
    \<and> ttbr0_table s1 = ttbr0_table s \<and> ttbr1_table s1 = ttbr1_table s
    \<and> (\<forall>a. pmem s1 a \<noteq> pmem s a \<longrightarrow> a \<in> path (pmem s1) T va)"
proof -
  let ?e1 = "entry1 (pmem s) T va" and ?e2 = "entry2 (pmem s) T va"
  obtain pa pa' where m: "page_ok s page" "is_frame f" "is_frame g" "f \<noteq> T" "g \<noteq> T" "f \<noteq> g"
    "pa_reserve (frame_pool s) page_size = Some (f, pa)" "pa_reserve pa page_size = Some (g, pa')"
    and c: "\<not> bit ?e1 0 \<or> is_table ?e1 \<and> next_table ?e1 \<noteq> T \<and> f \<noteq> next_table ?e1
          \<and> (\<not> bit ?e2 0 \<or> is_table ?e2 \<and> next_table ?e2 \<noteq> T \<and> next_table ?e2 \<noteq> next_table ?e1)"
    using assms(1) unfolding mappable_def Let_def T_def va_def by blast
  note ac = access_slots[OF m(1), where w = True, folded T_def va_def]
  consider (none) "\<not> bit ?e1 0" | (one) "is_table ?e1" "next_table ?e1 \<noteq> T" "f \<noteq> next_table ?e1" "\<not> bit ?e2 0"
    | (both) "tables_apart (pmem s) T va" using c unfolding tables_apart_def Let_def by blast
  then show ?thesis
  proof cases
    case none
    let ?s1 = "s\<lparr>frame_pool := pa, pmem := (pmem s)(entry_loc T va 30 := makeTableDescriptor f)\<rparr>"
    note f1 = fill_first[OF m(1,7,2) T_def[THEN meta_eq_to_obj_eq] va_def[THEN meta_eq_to_obj_eq]]
    have i: "is_table (entry1 (pmem ?s1) T va)" "next_table (entry1 (pmem ?s1) T va) = f"
      unfolding f1(3) using m(2) by (simp_all add: next_table_tableDescriptor)
    have T1: "T = top_table ?s1 page" by (simp add: T_def top_table_def)
    note f2 = fill_second[OF f1(2) i(1) _ _ m(3,5) _ T1 va_def[THEN meta_eq_to_obj_eq], unfolded i(2), of pa', OF m(4) _ m(6)[symmetric]]
    let ?s2 = "?s1\<lparr>frame_pool := pa', pmem := (pmem ?s1)(entry_loc f va 21 := makeTableDescriptor g)\<rparr>"
    have r: "pa_reserve (frame_pool ?s1) page_size = Some (g, pa')" using m(8) by simp
    have "run s (fill_job page (int 2 - 2)) = Some ?s2" using f1(1) f2(1)[OF r] by simp
    then have "run s (Write (slot (half_of page) 0 va) v) = run ?s2 (Write (slot (half_of page) 0 va) v)"
      using run_write_fault[OF m(1), of 2 ?s2 v] ac(4)[OF none] by (simp add: va_def)
    moreover have "entry1 (pmem ?s2) T va = makeTableDescriptor f" using f2(3)[OF r] f1(3) by simp
    then have "\<forall>a. pmem ?s2 a \<noteq> pmem s a \<longrightarrow> a \<in> path (pmem ?s2) T va"
      unfolding path_def using m(2) by (auto simp: next_table_tableDescriptor)
    ultimately show ?thesis using f2(2,5)[OF r] by (intro exI[of _ ?s2]) (simp add: T_def top_table_def)
  next
    case one
    let ?s2 = "s\<lparr>frame_pool := pa, pmem := (pmem s)(entry_loc (next_table ?e1) va 21 := makeTableDescriptor f)\<rparr>"
    note f2 = fill_second[OF m(1) one(1,2) m(7,2,4) one(3) T_def[THEN meta_eq_to_obj_eq] va_def[THEN meta_eq_to_obj_eq]]
    have "run s (Write (slot (half_of page) 0 va) v) = run ?s2 (Write (slot (half_of page) 0 va) v)"
      using run_write_fault[OF m(1), of 3 ?s2 v] ac(5)[OF one(1,4)] f2(1) by (simp add: va_def)
    moreover have "\<forall>a. pmem ?s2 a \<noteq> pmem s a \<longrightarrow> a \<in> path (pmem ?s2) T va" unfolding path_def f2(3) by auto
    ultimately show ?thesis using f2(2,5) by (intro exI[of _ ?s2]) (simp add: T_def top_table_def)
  next
    case both
    then show ?thesis using m(1) by (intro exI[of _ s]) (simp add: T_def)
  qed
qed

section \<open>Properties\<close>

text \<open>C9: mapping a page. Whatever tables are missing, \<open>setPageEntry\<close> returns after the page fault
  handler has put frames of the allocator in their place; then the processor translates the page
  to the frame with a descriptor of the given permissions, \<open>getPageFrame\<close> reads the frame back, and
  the only words of memory that changed are entries on the way from the top table to the page.\<close>

theorem set_page_entry_maps:
  assumes "mappable s page f g" "is_frame frame" "page \<noteq> high_mem"
  shows "\<exists>s'. setPageEntry s 0 page frame flags = Some s'
    \<and> translate s' page = Inr (makePageDescriptor frame flags, frame + take_bit 12 page)
    \<and> getPageFrame s' page = Some frame \<and> page_ok s' page
    \<and> (\<forall>a. pmem s' a \<noteq> pmem s a \<longrightarrow> a \<in> path (pmem s') (top_table s page) (low page))"
proof -
  define T where "T = top_table s page"
  define va where "va = low page"
  let ?pd = "makePageDescriptor frame flags"
  have ok: "page_ok s page" using assms(1) by (simp add: mappable_def Let_def)
  obtain s1 where s1: "run s (Write (slot (half_of page) 0 va) ?pd) = run s1 (Write (slot (half_of page) 0 va) ?pd)"
    "page_ok s1 page" "tables_apart (pmem s1) T va" "T = top_table s1 page"
    "\<forall>a. pmem s1 a \<noteq> pmem s a \<longrightarrow> a \<in> path (pmem s1) T va"
    using write_through_faults[OF assms(1), of ?pd] unfolding T_def va_def by metis
  note w = write_leaf[OF s1(2-4) va_def, of ?pd]
  define pm' where "pm' = (pmem s1)(leaf_loc (pmem s1) T va := ?pd)"
  let ?s' = "s1\<lparr>pmem := pm'\<rparr>"
  have run: "setPageEntry s 0 page frame flags = Some ?s'"
    using entry_ptr_slot[OF page_okD(1)[OF ok], of 0] s1(1) w(1) by (simp add: setPageEntry_def va_def pm'_def)
  have ap: "tables_apart pm' T va" using s1(3) w(2,3) unfolding tables_apart_def Let_def pm'_def by simp
  have leaf: "pm' (leaf_loc pm' T va) = ?pd" using w(5) by (simp add: pm'_def)
  have T': "T = top_table ?s' page" using s1(4) by simp
  have "walk pm' T va = Inr (?pd, frame + take_bit 12 va)"
    using walk_leaf[OF ap] assms(2) by (simp add: leaf pageDescriptor_bits pageDescriptor_bits(2)[unfolded One_nat_def] next_table_pageDescriptor)
  moreover have "take_bit 12 va = take_bit 12 page" by (simp add: va_def low_def take_bit_take_bit)
  ultimately have "translate ?s' page = Inr (?pd, frame + take_bit 12 page)"
    using translate_page[OF page_okD(1)[OF ok], of ?s'] T' by (simp add: va_def)
  moreover have "getPageFrame ?s' page = Some frame"
    using getPageFrame_leaf[OF w(6)[folded pm'_def] _ T' va_def assms(3)] ap leaf assms(2)
    by (simp add: pageDescriptor_bits makePageDescriptor_def physicalAddress_set bit_set_physicalAddress set_permissions_def descriptor_bits Let_def)
  moreover have "path pm' T va = path (pmem s1) T va" using w(2,4) by (simp add: path_def pm'_def)
  then have "\<forall>a. pm' a \<noteq> pmem s a \<longrightarrow> a \<in> path pm' T va"
    using s1(5) by (auto simp: pm'_def path_def)
  ultimately show ?thesis using run w(6)[folded pm'_def] by (auto simp: T_def va_def)
qed

text \<open>Unmapping a mapped page. \<open>clearEntry\<close> returns, the processor then faults on the page at the
  last level, \<open>getPageFrame\<close> finds no frame, and only the last entry of the page changed.\<close>

theorem clear_entry_unmaps:
  assumes "page_ok s page" "tables_apart (pmem s) (top_table s page) (low page)" "page \<noteq> high_mem"
  shows "\<exists>s'. clearEntry s 0 page = Some s' \<and> translate s' page = Inl 3 \<and> getPageFrame s' page = Some 0
    \<and> (\<forall>a. a \<noteq> leaf_loc (pmem s) (top_table s page) (low page) \<longrightarrow> pmem s' a = pmem s a)"
proof -
  define T where "T = top_table s page"
  define va where "va = low page"
  note w = write_leaf[OF assms(1) assms(2)[folded T_def va_def] T_def va_def, of 0]
  define pm' where "pm' = (pmem s)(leaf_loc (pmem s) T va := 0)"
  have run: "clearEntry s 0 page = Some (s\<lparr>pmem := pm'\<rparr>)"
    using entry_ptr_slot[OF page_okD(1)[OF assms(1)], of 0] w(1) by (simp add: clearEntry_def va_def pm'_def)
  have "walk pm' T va = Inl 3"
    using w(2,3,5) assms(2)[folded T_def va_def]
    unfolding walk_def tables_apart_def is_table_def leaf_loc_def entry1_def entry2_def pm'_def by (simp add: Let_def)
  then have "translate (s\<lparr>pmem := pm'\<rparr>) page = Inl 3"
    using translate_page[OF page_okD(1)[OF assms(1)], of "s\<lparr>pmem := pm'\<rparr>"] by (simp add: T_def va_def)
  moreover have "tables_apart pm' T va"
    using assms(2)[folded T_def va_def] w(2,3) unfolding tables_apart_def Let_def pm'_def by simp
  then have "getPageFrame (s\<lparr>pmem := pm'\<rparr>) page = Some 0"
    using getPageFrame_leaf[OF w(6)[folded pm'_def] _ _ va_def assms(3), of T] w(5) by (simp add: pm'_def T_def)
  ultimately show ?thesis using run by (auto simp: pm'_def T_def va_def)
qed

text \<open>A machine with an empty user table at \<open>0x8000\<close> and two free frames, the second of which still
  holds a page descriptor from an earlier use.\<close>

definition sample_pool :: PageAllocator where
  "sample_pool = the (PageAllocator_init [\<lparr>reg_type = AVAILABLE, reg_location = 0x2000, reg_size = 0x2000\<rparr>]
     (\<lambda>_. Block_default) 4096)"

definition sample_mmu :: Mmu where
  "sample_mmu = \<lparr>pmem = (\<lambda>_. 0)(0x8FF8 := makeTableDescriptor 0x8000, 0x3008 := makePageDescriptor 0x5000 7),
     ttbr0_table = 0x8000, ttbr1_table = 0, frame_pool = sample_pool\<rparr>"

lemma sample_reserve:
  "\<exists>pa pb. pa_reserve sample_pool page_size = Some (0x2000, pa) \<and> pa_reserve pa page_size = Some (0x3000, pb)"
proof -
  have "do { (f, pa) \<leftarrow> pa_reserve sample_pool page_size; (g, pb) \<leftarrow> pa_reserve pa page_size; Some (f, g) }
      = Some (0x2000, 0x3000)" by code_simp
  then show ?thesis by (auto simp: bind_eq_Some_conv)
qed

lemma sample_mappable: "mappable sample_mmu 0x400000 0x2000 0x3000"
proof -
  have "page_ok sample_mmu 0x400000" "is_frame 0x2000" "is_frame 0x3000" "top_table sample_mmu 0x400000 = 0x8000"
    "\<not> bit (entry1 (pmem sample_mmu) 0x8000 (low 0x400000)) 0" by code_simp+
  then show ?thesis using sample_reserve unfolding mappable_def Let_def by (simp add: sample_mmu_def)
qed

theorem set_page_entry_maps_witness:
  "\<exists>s'. setPageEntry sample_mmu 0 0x400000 0x9000 (PAGE_RW OR PAGE_USER) = Some s'
    \<and> translate s' 0x400000 = Inr (makePageDescriptor 0x9000 (PAGE_RW OR PAGE_USER), 0x9000)
    \<and> getPageFrame s' 0x400000 = Some 0x9000"
proof -
  have "is_frame 0x9000" "(0x400000 :: u64) \<noteq> high_mem" "(0x9000 :: u64) + take_bit 12 0x400000 = 0x9000" by code_simp+
  then show ?thesis using set_page_entry_maps[OF sample_mappable, of "0x9000" "PAGE_RW OR PAGE_USER"] by metis
qed

theorem clear_entry_unmaps_witness:
  "\<exists>s'. clearEntry (sample_mmu\<lparr>pmem := (pmem sample_mmu)(0x8000 := makeTableDescriptor 0x2000,
        0x2010 := makeTableDescriptor 0x3000, 0x3000 := makePageDescriptor 0x9000 3)\<rparr>) 0 0x400000 = Some s'
    \<and> translate s' 0x400000 = Inl 3 \<and> getPageFrame s' 0x400000 = Some 0"
proof -
  let ?s = "sample_mmu\<lparr>pmem := (pmem sample_mmu)(0x8000 := makeTableDescriptor 0x2000,
        0x2010 := makeTableDescriptor 0x3000, 0x3000 := makePageDescriptor 0x9000 3)\<rparr>"
  have "page_ok ?s 0x400000" "tables_apart (pmem ?s) (top_table ?s 0x400000) (low 0x400000)" "(0x400000 :: u64) \<noteq> high_mem"
    by code_simp+
  then show ?thesis using clear_entry_unmaps[of ?s "0x400000"] by blast
qed




end
