(* ===== verification/Heap.thy ===== *)
theory Heap
  imports Mmu
begin

text \<open>
  The kernel heap, \<^verbatim>\<open>src/memory/heap.cpp\<close>. A block is a header of three words (size of the payload in
  words, next pointer, flag), the payload, and a footer of two words (size, flag). Memory is a
  function from addresses to words; a pointer is its address, and \<open>p[i]\<close> is the word at
  \<open>p + 8 * i\<close>. Reading or writing through the null pointer is the value \<open>None\<close>, as is a loop that
  does not end. The heap grows through the page allocator and \<open>map_region\<close>.
\<close>

section \<open>State\<close>

definition WORD_SIZE :: u64 where "WORD_SIZE = 8"
definition OVERHEAD :: u64 where "OVERHEAD = 5"

definition ALIGN :: "u64 \<Rightarrow> u64" where
  "ALIGN sz = (sz + (WORD_SIZE - 1)) AND NOT (WORD_SIZE - 1)"

definition SIZE_T_SIZE :: u64 where "SIZE_T_SIZE = ALIGN 8"

record Heap =
  hmem :: "u64 \<Rightarrow> u64"
  heap_base :: u64
  linked_list_start :: u64
  search_start :: u64
  search_previous :: u64
  search_current :: u64
  heap_end :: u64
  hmmu :: Mmu

definition at :: "u64 \<Rightarrow> u64 \<Rightarrow> u64" where "at p i = p + 8 * i"

definition rd :: "Heap \<Rightarrow> u64 \<Rightarrow> u64 \<Rightarrow> u64 option" where
  "rd h p i = (if p = 0 then None else Some (hmem h (at p i)))"

definition wr :: "Heap \<Rightarrow> u64 \<Rightarrow> u64 \<Rightarrow> u64 \<Rightarrow> Heap option" where
  "wr h p i v = (if p = 0 then None else Some (h\<lparr>hmem := (hmem h)(at p i := v)\<rparr>))"

text \<open>\<open>overhead_adj_size\<close> is an \<open>int\<close>; its quotient by the unsigned \<open>SIZE_T_SIZE\<close> is unsigned.\<close>

definition init_heap :: "Heap \<Rightarrow> u64 \<Rightarrow> u64 \<Rightarrow> Heap option" where
  "init_heap h heap_ptr mem_size = do {
     let overhead_adj_size = (scast (ucast (mem_size - WORD_SIZE * OVERHEAD) :: u32) :: u64);
     let h0 = h\<lparr>search_previous := 0, heap_base := heap_ptr\<rparr>;
     h1 \<leftarrow> wr h0 heap_ptr 0 (overhead_adj_size div SIZE_T_SIZE);
     h2 \<leftarrow> wr h1 heap_ptr 1 0;
     h3 \<leftarrow> wr h2 heap_ptr 2 0;
     s \<leftarrow> rd h3 heap_ptr 0;
     h4 \<leftarrow> wr h3 heap_ptr (mem_size div SIZE_T_SIZE - 2) s;
     n \<leftarrow> rd h4 heap_ptr 1;
     h5 \<leftarrow> wr h4 heap_ptr (mem_size div SIZE_T_SIZE - 1) n;
     Some (h5\<lparr>linked_list_start := heap_ptr, search_start := heap_ptr, search_current := heap_ptr,
              heap_end := at heap_ptr (mem_size div SIZE_T_SIZE)\<rparr>) }"

text \<open>The shift \<open>1 << count\<close> is one of \<open>int\<close>; beyond its width it has no defined value.\<close>

function count_bits :: "u64 \<Rightarrow> nat \<Rightarrow> nat" where
  "count_bits n count = (if n \<noteq> 0 then count_bits (drop_bit 1 n) (count + 1) else count)"
  by pat_completeness auto
termination
proof (relation "measure (\<lambda>(n, count). unat n)")
  fix n :: u64 and count :: nat
  assume "n \<noteq> 0"
  then have "unat n \<noteq> 0" by (simp add: unat_eq_zero)
  then show "((drop_bit 1 n, count + 1), n, count) \<in> measure (\<lambda>(n, count). unat n)"
    by (simp add: drop_bit_Suc unat_div)
qed simp

declare count_bits.simps [simp del]

definition next_power_of_2 :: "u64 \<Rightarrow> u64 option" where
  "next_power_of_2 n =
     (if n \<noteq> 0 \<and> n AND (n - 1) = 0 then Some n
      else let count = count_bits n 0 in if count < 31 then Some (2 ^ count) else None)"

section \<open>The free list\<close>

text \<open>The two nested loops of \<open>rebuild_list\<close>: skip used blocks, then link the next free one.\<close>

partial_function (option) skip_used :: "Heap \<Rightarrow> u64 \<Rightarrow> u64 option" where
  "skip_used h ll_cur = do {
     flag \<leftarrow> rd h ll_cur 2;
     (if flag \<noteq> 0 then do { s \<leftarrow> rd h ll_cur 0; skip_used h (at ll_cur (s + OVERHEAD)) }
      else Some ll_cur) }"

partial_function (option) rebuild_loop :: "Heap \<Rightarrow> u64 \<Rightarrow> u64 \<Rightarrow> u64 \<Rightarrow> (u64 \<times> Heap) option" where
  "rebuild_loop h current ll_prev ll_cur =
     (if ll_cur < heap_end h then do {
        c \<leftarrow> skip_used h ll_cur;
        (if c \<noteq> linked_list_start h then do {
           let h1 = (if c = current then h\<lparr>search_previous := ll_prev, search_current := c\<rparr> else h);
           h2 \<leftarrow> wr h1 ll_prev 1 c;
           s \<leftarrow> rd h2 c 0;
           rebuild_loop h2 current c (at c (s + OVERHEAD)) }
         else Some (ll_prev, h)) }
      else Some (ll_prev, h))"

declare skip_used.simps [code] rebuild_loop.simps [code]

definition rebuild_list :: "Heap \<Rightarrow> u64 \<Rightarrow> Heap option" where
  "rebuild_list h current = do {
     (ll_prev, h1) \<leftarrow> rebuild_loop h current (linked_list_start h) (heap_base h);
     h2 \<leftarrow> (if current = linked_list_start h1
            then do {
              nx \<leftarrow> rd h1 (linked_list_start h1) 1;
              Some (if nx \<noteq> 0 then h1\<lparr>search_previous := linked_list_start h1, search_current := nx\<rparr> else h1) }
            else Some h1);
     wr h2 ll_prev 1 0 }"

text \<open>The new frame is not checked for \<open>NOMEM\<close>, and \<open>heap_end\<close>, a pointer to words, moves by
  \<open>adj_size\<close> words.\<close>

definition expand_heap :: "Heap \<Rightarrow> u64 \<Rightarrow> Heap option" where
  "expand_heap h sz = do {
     adj_size \<leftarrow> next_power_of_2 sz;
     (new_frame, pa) \<leftarrow> pa_reserve (frame_pool (hmmu h)) (if sz \<le> 4096 then 4096 else adj_size);
     (r, m) \<leftarrow> map_region ((hmmu h)\<lparr>frame_pool := pa\<rparr>) (heap_end h) adj_size new_frame PAGE_RW;
     let h1 = h\<lparr>hmmu := m, heap_end := at (heap_end h) adj_size\<rparr>;
     rebuild_list h1 (search_current h1) }"

section \<open>Allocation\<close>

text \<open>The first half of \<open>split_blk\<close> writes the new free block, the second the returned one.\<close>

definition write_split :: "Heap \<Rightarrow> u64 \<Rightarrow> u64 \<Rightarrow> u64 \<Rightarrow> Heap option" where
  "write_split h sz blk_to_split split_block = do {
     b0 \<leftarrow> rd h blk_to_split 0;
     h1 \<leftarrow> wr h split_block 0 (b0 - sz div SIZE_T_SIZE - OVERHEAD);
     b1 \<leftarrow> rd h1 blk_to_split 1;
     h2 \<leftarrow> wr h1 split_block 1 b1;
     h3 \<leftarrow> wr h2 split_block 2 0;
     s \<leftarrow> rd h3 split_block 0;
     h4 \<leftarrow> wr h3 split_block (s + OVERHEAD - 2) s;
     s' \<leftarrow> rd h4 split_block 0;
     wr h4 split_block (s' + OVERHEAD - 1) 0 }"

definition fix_pointers :: "Heap \<Rightarrow> u64 \<Rightarrow> u64 \<Rightarrow> Heap option" where
  "fix_pointers h blk_to_split split_block = do {
     h1 \<leftarrow> (if search_previous h \<noteq> 0
            then do {
              nx \<leftarrow> rd h (search_previous h) 1;
              (if nx \<noteq> 0 then wr h (search_previous h) 1 split_block else Some h) }
            else Some h);
     let h2 = (if blk_to_split = linked_list_start h1 then h1\<lparr>linked_list_start := split_block\<rparr> else h1);
     let h3 = (if blk_to_split = search_previous h2 then h2\<lparr>search_previous := split_block\<rparr> else h2);
     Some (if blk_to_split = search_current h3 then h3\<lparr>search_current := split_block\<rparr> else h3) }"

definition write_used :: "Heap \<Rightarrow> u64 \<Rightarrow> u64 \<Rightarrow> Heap option" where
  "write_used h sz return_block = do {
     h1 \<leftarrow> wr h return_block 0 (sz div SIZE_T_SIZE);
     h2 \<leftarrow> wr h1 return_block 1 0;
     h3 \<leftarrow> wr h2 return_block 2 1;
     s \<leftarrow> rd h3 return_block 0;
     h4 \<leftarrow> wr h3 return_block (s + OVERHEAD - 2) s;
     s' \<leftarrow> rd h4 return_block 0;
     wr h4 return_block (s' + OVERHEAD - 1) 1 }"

definition split_blk :: "Heap \<Rightarrow> u64 \<Rightarrow> u64 \<Rightarrow> (u64 \<times> Heap) option" where
  "split_blk h sz blk_to_split = do {
     let split_block = at blk_to_split (sz div SIZE_T_SIZE + OVERHEAD);
     h1 \<leftarrow> write_split h sz blk_to_split split_block;
     h2 \<leftarrow> fix_pointers h1 blk_to_split split_block;
     h3 \<leftarrow> write_used h2 sz blk_to_split;
     Some (at blk_to_split 3, h3) }"

partial_function (option) find_fit_loop :: "Heap \<Rightarrow> u64 \<Rightarrow> (u64 \<times> Heap) option" where
  "find_fit_loop h sz = do {
     let cur = search_current h;
     c0 \<leftarrow> rd h cur 0;
     c1 \<leftarrow> rd h cur 1;
     (if c0 * SIZE_T_SIZE = sz + OVERHEAD then do {
        h1 \<leftarrow> (if search_previous h \<noteq> 0 \<and> cur \<noteq> search_start h then wr h (search_previous h) 1 c1 else Some h);
        nx \<leftarrow> rd h1 cur 1;
        let h2 = h1\<lparr>search_current := nx\<rparr>;
        h3 \<leftarrow> wr h2 cur 2 1;
        s \<leftarrow> rd h3 cur 0;
        h4 \<leftarrow> wr h3 cur (s + 2) 1;
        Some (at cur 3, h4) }
      else if c0 * SIZE_T_SIZE > ALIGN (sz + (OVERHEAD + 1) * SIZE_T_SIZE * 2) then split_blk h sz cur
      else do {
        let h' = h\<lparr>search_previous := cur, search_current := (if c1 \<noteq> 0 then c1 else linked_list_start h)\<rparr>;
        (if search_previous h' \<noteq> 0 \<and> search_start h' \<noteq> search_current h' \<and> search_current h' < heap_end h'
         then find_fit_loop h' sz else Some (0, h')) }) }"

declare find_fit_loop.simps [code]

definition find_fit :: "Heap \<Rightarrow> u64 \<Rightarrow> (u64 \<times> Heap) option" where
  "find_fit h sz = find_fit_loop (h\<lparr>search_start := search_current h\<rparr>) sz"

definition rmalloc :: "Heap \<Rightarrow> u64 \<Rightarrow> (u64 \<times> Heap) option" where
  "rmalloc h sz = do {
     let blk_size = ALIGN sz;
     (block, h1) \<leftarrow> find_fit h blk_size;
     (if block = 0 then do { h2 \<leftarrow> expand_heap h1 sz; find_fit h2 blk_size }
      else Some (block, h1)) }"

section \<open>Release\<close>

text \<open>\<open>merge\<close> with the free block before, and with the free block after.\<close>

definition merge_previous :: "Heap \<Rightarrow> u64 \<Rightarrow> u64 \<Rightarrow> Heap option" where
  "merge_previous h previous current = do {
     p0 \<leftarrow> rd h previous 0;
     c0 \<leftarrow> rd h current 0;
     h1 \<leftarrow> wr h previous 0 (p0 + c0 + OVERHEAD);
     h2 \<leftarrow> wr h1 current 1 0;
     let h3 = (if current = linked_list_start h2 then h2\<lparr>linked_list_start := previous\<rparr> else h2);
     let h4 = (if current = search_current h3 then h3\<lparr>search_current := previous\<rparr> else h3);
     s \<leftarrow> rd h4 previous 0;
     wr h4 previous (s + OVERHEAD - 2) s }"

definition merge_next :: "Heap \<Rightarrow> u64 \<Rightarrow> u64 \<Rightarrow> Heap option" where
  "merge_next h current nxt = do {
     c0 \<leftarrow> rd h current 0;
     n0 \<leftarrow> rd h nxt 0;
     h1 \<leftarrow> wr h current 0 (c0 + n0 + OVERHEAD);
     h2 \<leftarrow> wr h1 nxt 1 0;
     let h3 = (if nxt = linked_list_start h2 then h2\<lparr>linked_list_start := current\<rparr> else h2);
     let h4 = (if nxt = search_current h3 then h3\<lparr>search_current := current\<rparr> else h3);
     s \<leftarrow> rd h4 current 0;
     wr h4 current (s + OVERHEAD - 2) s }"

definition merge :: "Heap \<Rightarrow> u64 \<Rightarrow> Heap option" where
  "merge h current = do {
     previous \<leftarrow> (if current \<noteq> heap_base h then do {
                    f \<leftarrow> rd h current (- 1);
                    s \<leftarrow> rd h current (- 2);
                    Some (if f = 0 then at current (- (s + OVERHEAD)) else 0) }
                  else Some 0);
     c0 \<leftarrow> rd h current 0;
     nf \<leftarrow> rd h current (c0 + OVERHEAD + 2);
     let nxt = (if nf = 0 \<and> at current (c0 + OVERHEAD + 2) < heap_end h then at current (c0 + OVERHEAD) else 0);
     (h1, cur1) \<leftarrow> (if previous \<noteq> 0 then do { h1 \<leftarrow> merge_previous h previous current; Some (h1, previous) }
                   else Some (h, current));
     h2 \<leftarrow> (if nxt \<noteq> 0 then merge_next h1 cur1 nxt else Some h1);
     (if previous \<noteq> 0 \<or> nxt \<noteq> 0 then rebuild_list h2 cur1 else Some h2) }"

definition rfree :: "Heap \<Rightarrow> u64 \<Rightarrow> Heap option" where
  "rfree h ptr = do {
     let blk_free = at ptr (- 3);
     h1 \<leftarrow> wr h blk_free 2 0;
     s \<leftarrow> rd h1 blk_free 0;
     h2 \<leftarrow> wr h1 blk_free (s + OVERHEAD - 1) 0;
     h3 \<leftarrow> (if search_previous h2 \<noteq> 0 then do {
              nx \<leftarrow> rd h2 (search_previous h2) 1;
              h3 \<leftarrow> wr h2 blk_free 1 nx;
              wr h3 (search_previous h3) 1 blk_free }
            else do {
              let h3 = h2\<lparr>search_previous := linked_list_start h2\<rparr>;
              wr h3 (search_previous h3) 1 blk_free });
     merge (h3\<lparr>search_current := blk_free\<rparr>) blk_free }"

end
