(* ===== verification/Heap_Correct.thy ===== *)
theory Heap_Correct
  imports Heap
begin

text \<open>
  The heap as a sequence of blocks. The header and footer words of consecutive blocks tile the
  heap; splitting a free block keeps such a tiling, and allocation returns the payload of a new
  used block. The links of the free list are not part of the tiling.
\<close>

section \<open>Blocks\<close>

text \<open>A block is its number of payload words and whether it is used. \<open>tags\<close> are the words that
  describe the blocks from address \<open>a\<close> on, \<open>blocks_end\<close> the address behind them.\<close>

type_synonym block = "nat \<times> bool"

fun tags :: "nat \<Rightarrow> block list \<Rightarrow> (nat \<times> nat) list" where
  "tags a [] = []"
| "tags a ((n, u) # bs) = [(a, n), (a + 16, of_bool u), (a + 8 * (n + 3), n), (a + 8 * (n + 4), of_bool u)]
     @ tags (a + 8 * (n + 5)) bs"

fun blocks_end :: "nat \<Rightarrow> block list \<Rightarrow> nat" where
  "blocks_end a [] = a"
| "blocks_end a ((n, u) # bs) = blocks_end (a + 8 * (n + 5)) bs"

fun heads :: "nat \<Rightarrow> block list \<Rightarrow> nat list" where
  "heads a [] = []"
| "heads a ((n, u) # bs) = a # heads (a + 8 * (n + 5)) bs"

definition tiled :: "(u64 \<Rightarrow> u64) \<Rightarrow> nat \<Rightarrow> block list \<Rightarrow> bool" where
  "tiled m a bs \<longleftrightarrow> blocks_end a bs < 2 ^ 64 \<and> (\<forall>(x, v) \<in> set (tags a bs). m (of_nat x) = of_nat v)"

lemma tags_append: "tags a (xs @ ys) = tags a xs @ tags (blocks_end a xs) ys"
  by (induction a xs rule: tags.induct) simp_all

lemma blocks_end_append: "blocks_end a (xs @ ys) = blocks_end (blocks_end a xs) ys"
  by (induction a xs rule: blocks_end.induct) simp_all

lemma blocks_end_ge: "a \<le> blocks_end a bs"
  by (induction a bs rule: blocks_end.induct) (auto intro: le_trans[rotated])

lemma tags_range: "(x, v) \<in> set (tags a bs) \<Longrightarrow> a \<le> x \<and> x + 8 \<le> blocks_end a bs"
proof (induction a bs rule: tags.induct)
  case (2 a n u bs)
  have "a + 8 * (n + 5) \<le> blocks_end (a + 8 * (n + 5)) bs" by (rule blocks_end_ge)
  then show ?case using 2 by auto
qed simp

text \<open>A link word is none of the tags.\<close>

lemma heads_ge: "p \<in> set (heads a bs) \<Longrightarrow> a \<le> p"
  by (induction a bs rule: heads.induct) force+

lemma link_not_tag: "p \<in> set (heads a bs) \<Longrightarrow> (p + 8, v) \<notin> set (tags a bs)"
proof (induction a bs rule: heads.induct)
  case (2 a n u bs)
  have r: "(a + 8, v) \<notin> set (tags (a + 8 * (n + 5)) bs)" using tags_range[of "a + 8" v "a + 8 * (n + 5)" bs] by auto
  from 2 heads_ge[of p "a + 8 * (n + 5)" bs] r show ?case by auto
qed simp

lemma of_nat_u64_eq:
  assumes "x < 2 ^ 64" "y < 2 ^ 64"
  shows "(of_nat x :: u64) = of_nat y \<longleftrightarrow> x = y"
proof
  assume "(of_nat x :: u64) = of_nat y"
  then have "unat (of_nat x :: u64) = unat (of_nat y :: u64)" by simp
  then show "x = y" using assms by (simp add: unat_of_nat_no_wrap)
qed simp

section \<open>Splitting a block\<close>

text \<open>The memory after \<open>split_blk\<close> on the block at \<open>b\<close>, which has \<open>n\<close> words, for a payload of \<open>k\<close> words.\<close>

definition free_part :: "nat \<Rightarrow> nat \<Rightarrow> nat \<Rightarrow> (u64 \<Rightarrow> u64) \<Rightarrow> (u64 \<Rightarrow> u64)" where
  "free_part b n k m = (let s = b + 8 * (k + 5); r = n - k - 5 in
     m(of_nat s := of_nat r, of_nat (s + 8) := m (of_nat (b + 8)), of_nat (s + 16) := 0,
       of_nat (s + 8 * (r + 3)) := of_nat r, of_nat (s + 8 * (r + 4)) := 0))"

definition used_part :: "nat \<Rightarrow> nat \<Rightarrow> (u64 \<Rightarrow> u64) \<Rightarrow> (u64 \<Rightarrow> u64)" where
  "used_part b k m = m(of_nat b := of_nat k, of_nat (b + 8) := 0, of_nat (b + 16) := 1,
     of_nat (b + 8 * (k + 3)) := of_nat k, of_nat (b + 8 * (k + 4)) := 1)"

lemma at_of_nat: "at (of_nat b) (of_nat i) = of_nat (b + 8 * i)"
  by (simp add: at_def)

lemma size_words: "SIZE_T_SIZE = 8"
  by (simp add: SIZE_T_SIZE_def ALIGN_def WORD_SIZE_def)

lemma write_split_mem:
  assumes "0 < b" "b + 8 * (n + 5) < 2 ^ 64" "k + 5 \<le> n" "hmem h (of_nat b) = of_nat n" "sz div 8 = of_nat k"
  shows "write_split h sz (of_nat b) (of_nat (b + 8 * (k + 5))) = Some (h\<lparr>hmem := free_part b n k (hmem h)\<rparr>)"
proof -
  define s where "s = b + 8 * (k + 5)"
  define r where "r = n - k - 5"
  have nz: "(of_nat b :: u64) \<noteq> 0" "(of_nat s :: u64) \<noteq> 0"
    using of_nat_u64_eq[of b 0] of_nat_u64_eq[of s 0] assms(1-3) by (auto simp: s_def)
  have ix: "at (of_nat s) 0 = of_nat s" "at (of_nat b) 0 = of_nat b" "at (of_nat s) 1 = of_nat (s + 8)"
    "at (of_nat b) 1 = of_nat (b + 8)" "at (of_nat s) 2 = of_nat (s + 16)"
    by (simp_all add: at_def)
  have f: "at (of_nat s) (of_nat r + OVERHEAD - 2) = of_nat (s + 8 * (r + 3))"
    "at (of_nat s) (of_nat r + OVERHEAD - 1) = of_nat (s + 8 * (r + 4))"
    by (simp_all add: at_def OVERHEAD_def algebra_simps)
  have sub: "(of_nat n :: u64) - of_nat k - OVERHEAD = of_nat r"
    using assms(3) by (simp add: r_def OVERHEAD_def of_nat_diff)
  have "(of_nat n :: u64) - of_nat k = of_nat r + 5" using assms(3) by (simp add: r_def of_nat_diff)
  then have f2: "at (of_nat s) (of_nat n - of_nat k - 2) = of_nat (s + 8 * (r + 3))"
    "at (of_nat s) (of_nat n - of_nat k - 1) = of_nat (s + 8 * (r + 4))"
    by (simp_all add: at_def algebra_simps)
  have ne: "(of_nat s :: u64) \<noteq> of_nat b" "(of_nat s :: u64) \<noteq> of_nat (b + 8)"
    "(of_nat (s + 8 * (r + 3)) :: u64) \<noteq> of_nat s" "(of_nat (s + 8) :: u64) \<noteq> of_nat s" "(of_nat (s + 16) :: u64) \<noteq> of_nat s"
    by (subst of_nat_u64_eq; use assms(2,3) in \<open>simp add: s_def r_def\<close>)+
  show ?thesis
    unfolding write_split_def s_def[symmetric] free_part_def Let_def r_def[symmetric]
    using ne by (simp add: rd_def wr_def nz ix f f2 sub assms(4,5) size_words del: of_nat_add of_nat_mult)
qed

lemma write_used_mem:
  assumes "0 < b" "b + 8 * (k + 5) < 2 ^ 64" "sz div 8 = of_nat k"
  shows "write_used h sz (of_nat b) = Some (h\<lparr>hmem := used_part b k (hmem h)\<rparr>)"
proof -
  have nz: "(of_nat b :: u64) \<noteq> 0" using of_nat_u64_eq[of b 0] assms(1,2) by auto
  have ix: "at (of_nat b) 0 = of_nat b" "at (of_nat b) 1 = of_nat (b + 8)" "at (of_nat b) 2 = of_nat (b + 16)"
    "at (of_nat b) (of_nat k + OVERHEAD - 2) = of_nat (b + 8 * (k + 3))"
    "at (of_nat b) (of_nat k + OVERHEAD - 1) = of_nat (b + 8 * (k + 4))"
    by (simp_all add: at_def OVERHEAD_def algebra_simps)
  have ne: "(of_nat (b + 8 * (k + 3)) :: u64) \<noteq> of_nat b" "(of_nat (b + 8) :: u64) \<noteq> of_nat b"
    "(of_nat (b + 16) :: u64) \<noteq> of_nat b" by (subst of_nat_u64_eq; use assms(2) in simp)+
  show ?thesis unfolding write_used_def used_part_def
    using ne by (simp add: rd_def wr_def nz ix assms(3) size_words del: of_nat_add of_nat_mult)
qed

lemma upd_nat:
  assumes "x < 2 ^ 64" "y < 2 ^ 64"
  shows "(m(of_nat y := v)) (of_nat x :: u64) = (if x = y then v else m (of_nat x))"
  using of_nat_u64_eq[OF assms] by simp

lemma heads_append: "set (heads a (xs @ ys)) = set (heads a xs) \<union> set (heads (blocks_end a xs) ys)"
  by (induction a xs rule: heads.induct) auto

lemma heads_end: "p \<in> set (heads a bs) \<Longrightarrow> p + 40 \<le> blocks_end a bs"
proof (induction a bs rule: heads.induct)
  case (2 a n u bs)
  have "a + 8 * (n + 5) \<le> blocks_end (a + 8 * (n + 5)) bs" by (rule blocks_end_ge)
  then show ?case using 2 by auto
qed simp

lemma used_part_at:
  assumes "x < 2 ^ 64" "b + 8 * (k + 5) < 2 ^ 64"
  shows "used_part b k m (of_nat x) =
    (if x = b + 8 * (k + 4) then 1 else if x = b + 8 * (k + 3) then of_nat k else if x = b + 16 then 1
     else if x = b + 8 then 0 else if x = b then of_nat k else m (of_nat x))"
proof -
  have y: "b + 8 * (k + 4) < 2 ^ 64" "b + 8 * (k + 3) < 2 ^ 64" "b + 16 < 2 ^ 64" "b + 8 < 2 ^ 64" "b < 2 ^ 64"
    using assms(2) by simp_all
  show ?thesis unfolding used_part_def by (simp only: upd_nat assms(1) y)
qed

lemma free_part_at:
  assumes "x < 2 ^ 64" "b + 8 * (n + 5) < 2 ^ 64" "k + 5 \<le> n"
  defines "s \<equiv> b + 8 * (k + 5)" and "r \<equiv> n - k - 5"
  shows "free_part b n k m (of_nat x) =
    (if x = s + 8 * (r + 4) then 0 else if x = s + 8 * (r + 3) then of_nat r else if x = s + 16 then 0
     else if x = s + 8 then m (of_nat (b + 8)) else if x = s then of_nat r else m (of_nat x))"
proof -
  have y: "s + 8 * (r + 4) < 2 ^ 64" "s + 8 * (r + 3) < 2 ^ 64" "s + 16 < 2 ^ 64" "s + 8 < 2 ^ 64" "s < 2 ^ 64"
    using assms(2,3) by (simp_all add: s_def r_def)
  show ?thesis unfolding free_part_def Let_def s_def[symmetric] r_def[symmetric] by (simp only: upd_nat assms(1) y)
qed

text \<open>Splitting keeps the tiling: the free block becomes a used and a free one. The link word of one
  block may change in between.\<close>

lemma tiled_split:
  assumes "tiled m a (pre @ (n, False) # post)" "k + 5 \<le> n" "p \<in> set (heads a (pre @ (n, False) # post))"
  defines "b \<equiv> blocks_end a pre"
  shows "tiled (used_part b k ((free_part b n k m)(of_nat (p + 8) := v))) a (pre @ (k, True) # (n - k - 5, False) # post)"
proof -
  let ?m = "used_part b k ((free_part b n k m)(of_nat (p + 8) := v))" and ?e = "b + 8 * (n + 5)"
  have s: "b + 8 * (k + 5) + 8 * (n - k - 5 + 5) = ?e" using assms(2) by simp
  have fin: "blocks_end ?e post < 2 ^ 64" using assms(1) by (simp add: tiled_def blocks_end_append b_def)
  have e: "?e < 2 ^ 64" using fin blocks_end_ge[of ?e post] by linarith
  have p: "p + 40 \<le> b \<or> p = b \<or> ?e \<le> p" "p + 8 < 2 ^ 64"
    using assms(3) heads_end[of p a pre] heads_ge[of p ?e post] heads_end[of p ?e post] fin e
    by (auto simp: heads_append b_def)
  have old: "m (of_nat x) = of_nat w" if "(x, w) \<in> set (tags a pre) \<union> set (tags ?e post)" for x w
    using assms(1) that by (auto simp: tiled_def tags_append b_def)
  have ev: "?m (of_nat x) = (if x = b + 8 * (k + 4) then 1 else if x = b + 8 * (k + 3) then of_nat k else if x = b + 16 then 1
     else if x = b + 8 then 0 else if x = b then of_nat k else if x = p + 8 then v else free_part b n k m (of_nat x))"
    if "x < 2 ^ 64" for x
  proof -
    have "b + 8 * (k + 5) < 2 ^ 64" using e assms(2) by simp
    then show ?thesis by (simp only: used_part_at[OF that] upd_nat[OF that p(2)])
  qed
  have keep: "?m (of_nat x) = of_nat w" if t: "(x, w) \<in> set (tags a pre) \<union> set (tags ?e post)" for x w
  proof -
    have rng: "x + 8 \<le> b \<or> ?e \<le> x" "x < 2 ^ 64"
      using t tags_range[of x w a pre] tags_range[of x w ?e post] fin e by (auto simp: b_def)
    have "(x, w) \<in> set (tags a (pre @ (n, False) # post))" using t by (auto simp: tags_append b_def)
    then have "x \<noteq> p + 8" using link_not_tag[OF assms(3)] by metis
    moreover have ne: "x \<noteq> y" if "b \<le> y" "y < ?e" for y using rng(1) that by auto
    have "x \<noteq> b + 8 * (k + 4)" "x \<noteq> b + 8 * (k + 3)" "x \<noteq> b + 16" "x \<noteq> b + 8" "x \<noteq> b"
      "x \<noteq> b + 8 * (k + 5) + 8 * (n - k - 5 + 4)" "x \<noteq> b + 8 * (k + 5) + 8 * (n - k - 5 + 3)"
      "x \<noteq> b + 8 * (k + 5) + 16" "x \<noteq> b + 8 * (k + 5) + 8" "x \<noteq> b + 8 * (k + 5)"
      using assms(2) by (intro ne; simp)+
    ultimately show ?thesis unfolding ev[OF rng(2)] free_part_at[OF rng(2) e assms(2)] using old[OF t] by (simp only: if_False)
  qed
  have new: "?m (of_nat x) = of_nat w"
    if "(x, w) \<in> set (tags b [(k, True), (n - k - 5, False)])" for x w
  proof -
    obtain r where r: "n = k + 5 + r" using assms(2) le_iff_add by auto
    have d: "x = b \<and> w = k \<or> x = b + 16 \<and> w = 1 \<or> x = b + 8 * (k + 3) \<and> w = k \<or> x = b + 8 * (k + 4) \<and> w = 1
      \<or> x = b + 8 * (k + 5) \<and> w = r \<or> x = b + 8 * (k + 5) + 16 \<and> w = 0
      \<or> x = b + 8 * (k + 5) + 8 * (r + 3) \<and> w = r \<or> x = b + 8 * (k + 5) + 8 * (r + 4) \<and> w = 0"
      using that by (auto simp: r)
    have x: "x < 2 ^ 64" using d e r by auto
    have "x \<noteq> p + 8" using d p(1) r by auto
    then show ?thesis unfolding ev[OF x] free_part_at[OF x e assms(2)] using d
      by (elim disjE conjE) (simp_all add: r)
  qed
  have be: "blocks_end a (pre @ (k, True) # (n - k - 5, False) # post) = blocks_end ?e post"
    by (simp only: blocks_end_append blocks_end.simps b_def[symmetric] s)
  have st: "set (tags a (pre @ (k, True) # (n - k - 5, False) # post))
      = set (tags a pre) \<union> set (tags b [(k, True), (n - k - 5, False)]) \<union> set (tags ?e post)"
    by (simp only: tags_append tags.simps b_def[symmetric] s set_append) (auto simp: Un_assoc)
  show ?thesis unfolding tiled_def be st using fin
  proof (intro conjI ballI)
    fix xw assume t: "xw \<in> set (tags a pre) \<union> set (tags b [(k, True), (n - k - 5, False)]) \<union> set (tags ?e post)"
    obtain x w where xw: "xw = (x, w)" by (cases xw)
    have "?m (of_nat x) = of_nat w" using t keep[of x w] new[of x w] unfolding xw by blast
    then show "case xw of (x, v') \<Rightarrow> ?m (of_nat x) = of_nat v'" unfolding xw prod.case .
  qed
qed

end
