(* ===== verification/Heap_List.thy ===== *)
theory Heap_List
  imports Heap_Correct
begin

text \<open>
  The free list of the heap. The invariant \<open>heap_inv\<close> says that the blocks tile the heap, that the
  next pointers chain a list of free blocks from \<open>linked_list_start\<close>, and that \<open>search_current\<close> and
  \<open>search_previous\<close> are a position of that list and the cyclic predecessor of it. \<open>find_fit\<close> is next
  fit over that list: it returns the payload of the first block from the position on that is
  large enough, and keeps the invariant and the payload of every used block.
\<close>

section \<open>The invariant\<close>

definition free_at :: "nat \<Rightarrow> block list \<Rightarrow> nat \<Rightarrow> nat \<Rightarrow> bool" where
  "free_at a bs p n \<longleftrightarrow> (\<exists>pre post. bs = pre @ (n, False) # post \<and> p = blocks_end a pre)"

definition chained :: "(u64 \<Rightarrow> u64) \<Rightarrow> nat list \<Rightarrow> bool" where
  "chained m L \<longleftrightarrow> (\<forall>i < length L. m (of_nat (L ! i + 8)) = (if i + 1 < length L then of_nat (L ! (i + 1)) else 0))"

definition pred_ix :: "'a list \<Rightarrow> nat \<Rightarrow> nat" where
  "pred_ix L i = (if i = 0 then length L - 1 else i - 1)"

definition heap_inv :: "Heap \<Rightarrow> nat \<Rightarrow> block list \<Rightarrow> nat list \<Rightarrow> nat \<Rightarrow> bool" where
  "heap_inv h a bs L i \<longleftrightarrow> 0 < a \<and> tiled (hmem h) a bs \<and> chained (hmem h) L \<and> distinct L \<and> i < length L
     \<and> (\<forall>p \<in> set L. \<exists>n. free_at a bs p n)
     \<and> heap_base h = of_nat a \<and> heap_end h = of_nat (blocks_end a bs)
     \<and> linked_list_start h = of_nat (hd L) \<and> search_current h = of_nat (L ! i)
     \<and> (search_previous h = of_nat (L ! pred_ix L i) \<or> search_previous h = 0 \<and> length L = 1)"

text \<open>The payload words of the used blocks.\<close>

fun payload :: "nat \<Rightarrow> block list \<Rightarrow> nat set" where
  "payload a [] = {}"
| "payload a ((n, u) # bs) = (if u then {x. \<exists>j < n. x = a + 24 + 8 * j} else {}) \<union> payload (a + 8 * (n + 5)) bs"

lemma payload_append: "payload a (xs @ ys) = payload a xs \<union> payload (blocks_end a xs) ys"
  by (induction a xs rule: payload.induct) auto

lemma payload_range: "x \<in> payload a bs \<Longrightarrow> a \<le> x \<and> x + 24 \<le> blocks_end a bs"
proof (induction a bs rule: payload.induct)
  case (2 a n u bs)
  have "a + 8 * (n + 5) \<le> blocks_end (a + 8 * (n + 5)) bs" by (rule blocks_end_ge)
  then show ?case using 2 by (auto split: if_splits)
qed simp

text \<open>A link word lies in no payload.\<close>

lemma link_not_payload: "p \<in> set (heads a bs) \<Longrightarrow> p + 8 \<notin> payload a bs"
proof (induction a bs rule: heads.induct)
  case (2 a n u bs)
  have r: "a + 8 \<notin> payload (a + 8 * (n + 5)) bs" using payload_range[of "a + 8" "a + 8 * (n + 5)" bs] by auto
  have "p + 8 \<noteq> a + 24 + 8 * j" if "p \<in> set (heads (a + 8 * (n + 5)) bs)" "j < n" for j
    using heads_ge[OF that(1)] that(2) by simp
  with 2 r show ?case by auto
qed simp

lemma free_at_head: "free_at a bs p n \<Longrightarrow> p \<in> set (heads a bs)"
  by (auto simp: free_at_def heads_append)

text \<open>Where another block lies, seen from the block behind \<open>pre\<close>.\<close>

lemma head_apart:
  assumes "p \<in> set (heads a (pre @ (n, u) # post))" "p \<noteq> blocks_end a pre"
  shows "a \<le> p \<and> p + 40 \<le> blocks_end a pre \<or> blocks_end a pre + 8 * (n + 5) \<le> p \<and> p + 40 \<le> blocks_end a (pre @ (n, u) # post)"
  using assms heads_end[of p a pre] heads_ge[of p a pre] heads_ge[of p "blocks_end a pre + 8 * (n + 5)" post]
    heads_end[of p "blocks_end a pre + 8 * (n + 5)" post]
  by (auto simp: heads_append blocks_end_append)

lemma tiled_bound: "tiled m a bs \<Longrightarrow> blocks_end a bs < 2 ^ 64"
  by (simp add: tiled_def)

text \<open>The size word of a free block.\<close>

lemma free_at_size:
  assumes "tiled m a bs" "free_at a bs p n"
  shows "m (of_nat p) = of_nat n" "p + 8 * (n + 5) < 2 ^ 64" "a \<le> p" "p + 8 * (n + 5) \<le> blocks_end a bs"
proof -
  obtain pre post where bs: "bs = pre @ (n, False) # post" "p = blocks_end a pre" using assms(2) by (auto simp: free_at_def)
  have "(p, n) \<in> set (tags a bs)" by (simp add: bs tags_append)
  then show "m (of_nat p) = of_nat n" using assms(1) by (auto simp: tiled_def)
  show le: "p + 8 * (n + 5) \<le> blocks_end a bs"
    using blocks_end_ge[of "p + 8 * (n + 5)" post] by (simp add: bs blocks_end_append)
  then show "p + 8 * (n + 5) < 2 ^ 64" using tiled_bound[OF assms(1)] by simp
  show "a \<le> p" using blocks_end_ge[of a pre] bs by simp
qed

lemma pred_ix_less: "i < length L \<Longrightarrow> pred_ix L i < length L"
  by (auto simp: pred_ix_def)

section \<open>Splitting the current block\<close>

text \<open>The memory after \<open>split_blk\<close>; \<open>q\<close> is the block whose next pointer was moved, if any.\<close>

definition split_mem :: "nat \<Rightarrow> nat \<Rightarrow> nat \<Rightarrow> nat option \<Rightarrow> (u64 \<Rightarrow> u64) \<Rightarrow> (u64 \<Rightarrow> u64)" where
  "split_mem b n k q m = used_part b k (case q of None \<Rightarrow> free_part b n k m
     | Some p \<Rightarrow> (free_part b n k m)(of_nat (p + 8) := of_nat (b + 8 * (k + 5))))"

lemma split_mem_at:
  assumes "x < 2 ^ 64" "b + 8 * (n + 5) < 2 ^ 64" "k + 5 \<le> n" "\<forall>p. q = Some p \<longrightarrow> p + 8 < 2 ^ 64"
  shows "split_mem b n k q m (of_nat x) =
    (if x = b + 8 * (k + 4) then 1 else if x = b + 8 * (k + 3) then of_nat k else if x = b + 16 then 1
     else if x = b + 8 then 0 else if x = b then of_nat k
     else if q \<noteq> None \<and> x = the q + 8 then of_nat (b + 8 * (k + 5)) else free_part b n k m (of_nat x))"
proof -
  have "b + 8 * (k + 5) < 2 ^ 64" using assms(2,3) by simp
  then show ?thesis unfolding split_mem_def
    using assms(4) by (cases q) (simp_all only: used_part_at[OF assms(1)] upd_nat[OF assms(1)] option.case option.sel option.simps simp_thms if_False)
qed

lemma tiled_split_mem:
  assumes "tiled m a (pre @ (n, False) # post)" "k + 5 \<le> n"
    "\<forall>p. q = Some p \<longrightarrow> p \<in> set (heads a (pre @ (n, False) # post))"
  shows "tiled (split_mem (blocks_end a pre) n k q m) a (pre @ (k, True) # (n - k - 5, False) # post)"
proof (cases q)
  case None
  have "blocks_end a pre \<in> set (heads a (pre @ (n, False) # post))" by (simp add: heads_append)
  from tiled_split[OF assms(1,2) this, of "free_part (blocks_end a pre) n k m (of_nat (blocks_end a pre + 8))"]
  show ?thesis by (simp add: split_mem_def None)
next
  case (Some p)
  then show ?thesis using tiled_split[OF assms(1,2), of p] assms(3) by (simp add: split_mem_def)
qed

text \<open>The link words of the list after the first half of \<open>split_blk\<close>.\<close>

lemma free_part_link:
  assumes "tiled m a (pre @ (n, False) # post)" "k + 5 \<le> n" "p \<in> set (heads a (pre @ (n, False) # post))"
  shows "free_part (blocks_end a pre) n k m (of_nat (p + 8)) = m (of_nat (p + 8))"
proof -
  let ?b = "blocks_end a pre"
  have fin: "?b + 8 * (n + 5) < 2 ^ 64" "blocks_end a (pre @ (n, False) # post) < 2 ^ 64"
    using assms(1) blocks_end_ge[of "?b + 8 * (n + 5)" post] by (auto simp: tiled_def blocks_end_append)
  have p: "p = ?b \<or> p + 40 \<le> ?b \<or> ?b + 8 * (n + 5) \<le> p \<and> p + 8 < 2 ^ 64"
    using head_apart[OF assms(3)] fin(2) by linarith
  then have x: "p + 8 < 2 ^ 64" using fin(1) by auto
  have "p + 8 \<noteq> ?b + 8 * (k + 5) + j" if "j \<le> 8 * (n - k - 5 + 4)" for j
    using p assms(2) that by auto
  from this[of "8 * (n - k - 5 + 4)"] this[of "8 * (n - k - 5 + 3)"] this[of 16] this[of 8] this[of 0]
  show ?thesis unfolding free_part_at[OF x fin(1) assms(2)] by simp
qed

lemma inv_entry:
  assumes "heap_inv h a bs L i" "j < length L"
  shows "L ! j \<in> set (heads a bs)" "0 < L ! j" "L ! j + 40 < 2 ^ 64" "(of_nat (L ! j) :: u64) \<noteq> 0"
proof -
  have t: "tiled (hmem h) a bs" and a: "0 < a" using assms(1) by (auto simp: heap_inv_def)
  obtain n where n: "free_at a bs (L ! j) n" using assms nth_mem[OF assms(2)] unfolding heap_inv_def by blast
  show "L ! j \<in> set (heads a bs)" using n by (rule free_at_head)
  show pos: "0 < L ! j" using free_at_size(3)[OF t n] a by simp
  show b: "L ! j + 40 < 2 ^ 64" using free_at_size(2)[OF t n] by simp
  show "(of_nat (L ! j) :: u64) \<noteq> 0" using of_nat_u64_eq[of "L ! j" 0] pos b by auto
qed

lemma inv_index:
  assumes "heap_inv h a bs L i" "j < length L" "j' < length L"
  shows "(of_nat (L ! j) :: u64) = of_nat (L ! j') \<longleftrightarrow> j = j'"
proof -
  have "distinct L" using assms(1) by (simp add: heap_inv_def)
  then show ?thesis
    using of_nat_u64_eq[of "L ! j" "L ! j'"] inv_entry(3)[OF assms(1,2)] inv_entry(3)[OF assms(1,3)] assms(2,3)
    by (simp add: nth_eq_iff_index_eq)
qed

definition moved_link :: "nat list \<Rightarrow> nat \<Rightarrow> nat option" where
  "moved_link L e = (if e = 0 then None else Some (L ! (e - 1)))"

lemma split_blk_inv:
  assumes inv: "heap_inv h a (pre @ (n, False) # post) L e" and e: "L ! e = blocks_end a pre"
    and k: "k + 5 \<le> n" and sz: "sz div 8 = of_nat k"
  defines "b \<equiv> blocks_end a pre"
  defines "s \<equiv> b + 8 * (k + 5)"
  shows "split_blk h sz (of_nat b) = Some (of_nat (b + 24), h\<lparr>hmem := split_mem b n k (moved_link L e) (hmem h),
     linked_list_start := (if e = 0 then of_nat s else linked_list_start h), search_current := of_nat s,
     search_previous := (if search_previous h = of_nat b then of_nat s else search_previous h)\<rparr>)"
proof -
  let ?bs = "pre @ (n, False) # post" and ?m = "free_part b n k (hmem h)"
  have t: "tiled (hmem h) a ?bs" and el: "e < length L" and ch: "chained (hmem h) L"
    and lls': "linked_list_start h = of_nat (hd L)" and cur: "search_current h = of_nat b"
    and sp: "search_previous h = of_nat (L ! pred_ix L e) \<or> search_previous h = 0 \<and> length L = 1"
    using inv e by (auto simp: heap_inv_def b_def)
  have l0: "0 < length L" using el by linarith
  then have lls: "linked_list_start h = of_nat (L ! 0)" using lls' by (simp add: hd_conv_nth)
  have fa: "free_at a ?bs b n" by (auto simp: free_at_def b_def)
  note sz0 = free_at_size[OF t fa]
  have b0: "0 < b" using inv_entry(2)[OF inv el] e b_def by simp
  have first: "write_split h sz (of_nat b) (of_nat s) = Some (h\<lparr>hmem := ?m\<rparr>)"
    unfolding s_def by (rule write_split_mem[OF b0 sz0(2) k sz0(1) sz])
  have link: "?m (of_nat (L ! j + 8)) = (if j + 1 < length L then of_nat (L ! (j + 1)) else 0)" if "j < length L" for j
    using free_part_link[OF t k inv_entry(1)[OF inv that]] ch that by (simp only: chained_def b_def)
  have lls_b: "of_nat b = linked_list_start h \<longleftrightarrow> e = 0"
    using inv_index[OF inv el l0] lls e b_def by simp
  have link_ops: "wr g (of_nat p) 1 v = Some (g\<lparr>hmem := (hmem g)(of_nat (p + 8) := v)\<rparr>)"
    "rd g (of_nat p) 1 = Some (hmem g (of_nat (p + 8)))" if "(of_nat p :: u64) \<noteq> 0" for g p v
    using that by (simp_all add: wr_def rd_def at_def)
  define M where "M = (case moved_link L e of None \<Rightarrow> ?m | Some p \<Rightarrow> ?m(of_nat (p + 8) := of_nat s))"
  have q: "(if search_previous (h\<lparr>hmem := ?m\<rparr>) \<noteq> 0 then do {
              nx \<leftarrow> rd (h\<lparr>hmem := ?m\<rparr>) (search_previous (h\<lparr>hmem := ?m\<rparr>)) 1;
              (if nx \<noteq> 0 then wr (h\<lparr>hmem := ?m\<rparr>) (search_previous (h\<lparr>hmem := ?m\<rparr>)) 1 (of_nat s) else Some (h\<lparr>hmem := ?m\<rparr>)) }
            else Some (h\<lparr>hmem := ?m\<rparr>))
     = Some (h\<lparr>hmem := M\<rparr>)"
  proof (cases "search_previous h = 0")
    case True
    then have "e = 0" using sp inv_entry(4)[OF inv pred_ix_less[OF el]] el by auto
    then show ?thesis using True by (simp add: moved_link_def M_def)
  next
    case False
    then have pv: "search_previous (h\<lparr>hmem := ?m\<rparr>) = of_nat (L ! pred_ix L e)" using sp by simp
    note nz = inv_entry(4)[OF inv pred_ix_less[OF el]]
    have "?m (of_nat (L ! pred_ix L e + 8)) = (if e = 0 then 0 else of_nat (L ! e))"
      unfolding link[OF pred_ix_less[OF el]] using el by (cases e) (simp_all add: pred_ix_def)
    then show ?thesis unfolding pv link_ops[OF nz] using nz inv_entry(4)[OF inv el]
      by (cases "e = 0") (simp_all add: moved_link_def pred_ix_def M_def del: of_nat_add)
  qed
  have second: "fix_pointers (h\<lparr>hmem := ?m\<rparr>) (of_nat b) (of_nat s) = Some (h\<lparr>hmem := M,
     linked_list_start := (if e = 0 then of_nat s else linked_list_start h), search_current := of_nat s,
     search_previous := (if search_previous h = of_nat b then of_nat s else search_previous h)\<rparr>)"
    unfolding fix_pointers_def q Let_def bind.bind_lunit
    by (cases "e = 0"; cases "search_previous h = of_nat b") (simp_all add: cur lls_b[symmetric] eq_commute[of "of_nat b"])
  have kb: "b + 8 * (k + 5) < 2 ^ 64" using sz0(2) k by simp
  have ats: "at (of_nat b) (sz div SIZE_T_SIZE + OVERHEAD) = of_nat s" "at (of_nat b) 3 = of_nat (b + 24)"
    using sz by (simp_all add: s_def size_words at_def OVERHEAD_def)
  have um: "used_part b k M = split_mem b n k (moved_link L e) (hmem h)" by (simp only: split_mem_def M_def s_def)
  show ?thesis unfolding split_blk_def ats Let_def first bind.bind_lunit second write_used_mem[OF b0 kb sz]
    by (simp add: um)
qed

text \<open>The invariant after a split: the remainder takes the place of the block in the list.\<close>

lemma split_mem_frame:
  assumes t: "tiled m a (pre @ (n, False) # post)" and k: "k + 5 \<le> n"
    and q: "\<forall>p. q = Some p \<longrightarrow> p \<in> set (heads a (pre @ (n, False) # post))"
    and x: "x + 8 \<le> blocks_end a pre \<or> blocks_end a pre + 8 * (n + 5) \<le> x" "x < 2 ^ 64"
  shows "split_mem (blocks_end a pre) n k q m (of_nat x)
    = (if q \<noteq> None \<and> x = the q + 8 then of_nat (blocks_end a pre + 8 * (k + 5)) else m (of_nat x))"
proof -
  let ?b = "blocks_end a pre"
  have fin: "?b + 8 * (n + 5) < 2 ^ 64" "blocks_end a (pre @ (n, False) # post) < 2 ^ 64"
    using t blocks_end_ge[of "?b + 8 * (n + 5)" post] by (auto simp: tiled_def blocks_end_append)
  have q8: "\<forall>p. q = Some p \<longrightarrow> p + 8 < 2 ^ 64"
    using q heads_end[of _ a "pre @ (n, False) # post"] fin(2) by fastforce
  have ne: "x \<noteq> ?b + j" if "j < 8 * (n + 5)" for j using x(1) that by auto
  have ne2: "x \<noteq> ?b + 8 * (k + 5) + j" if "j \<le> 8 * (n - k - 5 + 4)" for j using x(1) that k by auto
  have "x \<noteq> ?b + 8 * (k + 4)" "x \<noteq> ?b + 8 * (k + 3)" "x \<noteq> ?b + 16" "x \<noteq> ?b + 8" "x \<noteq> ?b"
    using k ne[of 0] by (simp_all add: ne)
  moreover have "x \<noteq> ?b + 8 * (k + 5) + 8 * (n - k - 5 + 4)" "x \<noteq> ?b + 8 * (k + 5) + 8 * (n - k - 5 + 3)"
    "x \<noteq> ?b + 8 * (k + 5) + 16" "x \<noteq> ?b + 8 * (k + 5) + 8" "x \<noteq> ?b + 8 * (k + 5)"
    using ne2[of "8 * (n - k - 5 + 4)"] ne2[of "8 * (n - k - 5 + 3)"] ne2[of 16] ne2[of 8] ne2[of 0] by simp_all
  ultimately show ?thesis unfolding split_mem_at[OF x(2) fin(1) k q8] free_part_at[OF x(2) fin(1) k]
    by (simp only: if_False)
qed

lemma chained_split:
  assumes inv: "heap_inv h a (pre @ (n, False) # post) L e" and e: "L ! e = blocks_end a pre" and k: "k + 5 \<le> n"
  defines "b \<equiv> blocks_end a pre"
  shows "chained (split_mem b n k (moved_link L e) (hmem h)) (L[e := b + 8 * (k + 5)])"
  unfolding chained_def
proof (intro allI impI)
  let ?bs = "pre @ (n, False) # post" and ?s = "b + 8 * (k + 5)" and ?m = "split_mem b n k (moved_link L e) (hmem h)"
  let ?L = "L[e := ?s]"
  fix i assume "i < length ?L"
  then have i: "i < length L" by simp
  have t: "tiled (hmem h) a ?bs" and el: "e < length L" and dis: "distinct L"
    and ch: "hmem h (of_nat (L ! i + 8)) = (if i + 1 < length L then of_nat (L ! (i + 1)) else 0)"
    using inv i by (auto simp: heap_inv_def chained_def)
  have fin: "b + 8 * (n + 5) < 2 ^ 64" "blocks_end a ?bs < 2 ^ 64"
    using t blocks_end_ge[of "b + 8 * (n + 5)" post] by (auto simp: tiled_def blocks_end_append b_def)
  have q: "\<forall>p. moved_link L e = Some p \<longrightarrow> p \<in> set (heads a ?bs)"
    using inv_entry(1)[OF inv, of "e - 1"] el by (auto simp: moved_link_def split: if_splits)
  have q8: "\<forall>p. moved_link L e = Some p \<longrightarrow> p + 8 < 2 ^ 64"
    using q heads_end[of _ a ?bs] fin(2) by fastforce
  have prev: "L ! j + 40 \<le> b \<or> b + 8 * (n + 5) \<le> L ! j \<and> L ! j + 40 < 2 ^ 64" if "j < length L" "j \<noteq> e" for j
  proof -
    have "L ! j \<noteq> b" using dis that el e b_def by (metis nth_eq_iff_index_eq)
    then show ?thesis using head_apart[OF inv_entry(1)[OF inv that(1)]] fin(2) unfolding b_def by linarith
  qed
  show "?m (of_nat (?L ! i + 8)) = (if i + 1 < length ?L then of_nat (?L ! (i + 1)) else 0)"
  proof (cases "i = e")
    case True
    have x: "?s + 8 < 2 ^ 64" using fin(1) k by simp
    have distinct_words: "?s + 8 \<noteq> b + 8 * (k + 4)" "?s + 8 \<noteq> b + 8 * (k + 3)" "?s + 8 \<noteq> b + 16" "?s + 8 \<noteq> b + 8" "?s + 8 \<noteq> b"
      "?s + 8 \<noteq> ?s + 8 * (n - k - 5 + 4)" "?s + 8 \<noteq> ?s + 8 * (n - k - 5 + 3)" "?s + 8 \<noteq> ?s + 16" by simp_all
    have "?s + 8 \<noteq> p + 8" if "moved_link L e = Some p" for p
    proof -
      have p: "e - 1 < length L" "e - 1 \<noteq> e" "p = L ! (e - 1)" using that el by (auto simp: moved_link_def split: if_splits)
      show ?thesis using prev[OF p(1,2)] p(3) k by auto
    qed
    then have "\<not> (moved_link L e \<noteq> None \<and> ?s + 8 = the (moved_link L e) + 8)" by auto
    then have "?m (of_nat (?s + 8)) = hmem h (of_nat (b + 8))"
      unfolding split_mem_at[OF x fin(1) k q8] free_part_at[OF x fin(1) k] by (simp only: distinct_words simp_thms if_False if_True)
    then show ?thesis using True ch el e by (simp add: b_def del: of_nat_add of_nat_mult)
  next
    case False
    note p = prev[OF i False]
    have x: "L ! i + 8 + 8 \<le> b \<or> b + 8 * (n + 5) \<le> L ! i + 8" "L ! i + 8 < 2 ^ 64" using p fin(1) by auto
    have f: "?m (of_nat (L ! i + 8)) = (if moved_link L e \<noteq> None \<and> L ! i + 8 = the (moved_link L e) + 8
        then of_nat ?s else hmem h (of_nat (L ! i + 8)))"
      unfolding b_def by (rule split_mem_frame[OF t k q x[unfolded b_def]])
    have iff: "moved_link L e \<noteq> None \<and> L ! i + 8 = the (moved_link L e) + 8 \<longleftrightarrow> i + 1 = e"
      using dis i el nth_eq_iff_index_eq[OF dis, of i "e - 1"] by (auto simp: moved_link_def)
    show ?thesis using f ch False el unfolding iff by (auto simp: nth_list_update simp del: of_nat_add of_nat_mult)
  qed
qed

lemma free_at_append: "free_at a (xs @ ys) p n \<longleftrightarrow> free_at a xs p n \<or> free_at (blocks_end a xs) ys p n"
proof
  assume "free_at a (xs @ ys) p n"
  then obtain pre post where e: "xs @ ys = pre @ (n, False) # post" and p: "p = blocks_end a pre" by (auto simp: free_at_def)
  from e consider (left) us where "xs = pre @ (n, False) # us" | (right) us where "ys = us @ (n, False) # post" "pre = xs @ us"
    by (auto simp: append_eq_append_conv2 append_eq_Cons_conv)
  then show "free_at a xs p n \<or> free_at (blocks_end a xs) ys p n"
    by cases (use p in \<open>auto simp: free_at_def blocks_end_append\<close>)
next
  assume "free_at a xs p n \<or> free_at (blocks_end a xs) ys p n"
  then show "free_at a (xs @ ys) p n"
    unfolding free_at_def by (metis append.assoc append_Cons blocks_end_append)
qed

lemma free_at_Cons: "free_at a ((n, u) # bs) p k \<longleftrightarrow> p = a \<and> n = k \<and> \<not> u \<or> free_at (a + 8 * (n + 5)) bs p k"
proof -
  have "free_at a [(n, u)] p k \<longleftrightarrow> p = a \<and> n = k \<and> \<not> u" by (auto simp: free_at_def Cons_eq_append_conv)
  then show ?thesis using free_at_append[of a "[(n, u)]" bs p k] by simp
qed

lemma split_heap_inv:
  assumes inv: "heap_inv h a (pre @ (n, False) # post) L e" and e: "L ! e = blocks_end a pre"
    and k: "k + 5 \<le> n" and sz: "sz div 8 = of_nat k"
  shows "\<exists>h'. split_blk h sz (of_nat (L ! e)) = Some (of_nat (L ! e + 24), h')
    \<and> heap_inv h' a (pre @ (k, True) # (n - k - 5, False) # post) (L[e := L ! e + 8 * (k + 5)]) e
    \<and> (\<forall>x \<in> payload a (pre @ (n, False) # post). hmem h' (of_nat x) = hmem h (of_nat x))"
proof -
  let ?b = "blocks_end a pre" and ?bs = "pre @ (n, False) # post" and ?s = "blocks_end a pre + 8 * (k + 5)"
  let ?bs' = "pre @ (k, True) # (n - k - 5, False) # post"
  let ?h = "h\<lparr>hmem := split_mem ?b n k (moved_link L e) (hmem h),
     linked_list_start := (if e = 0 then of_nat ?s else linked_list_start h), search_current := of_nat ?s,
     search_previous := (if search_previous h = of_nat ?b then of_nat ?s else search_previous h)\<rparr>"
  have t: "tiled (hmem h) a ?bs" and el: "e < length L" and dis: "distinct L" and a0: "0 < a"
    and lls: "linked_list_start h = of_nat (hd L)"
    and ends: "heap_base h = of_nat a" "heap_end h = of_nat (blocks_end a ?bs)"
    and sp: "search_previous h = of_nat (L ! pred_ix L e) \<or> search_previous h = 0 \<and> length L = 1"
    using inv by (auto simp: heap_inv_def)
  have free: "\<exists>m. free_at a ?bs p m" if "p \<in> set L" for p using inv that by (auto simp: heap_inv_def)
  have q: "\<forall>p. moved_link L e = Some p \<longrightarrow> p \<in> set (heads a ?bs)"
    using inv_entry(1)[OF inv, of "e - 1"] el by (auto simp: moved_link_def split: if_splits)
  have s5: "?s + 8 * (n - k - 5 + 5) = ?b + 8 * (n + 5)" using k by simp
  have be: "blocks_end a ?bs' = blocks_end a ?bs" by (simp only: blocks_end_append blocks_end.simps s5)
  have other: "p + 40 \<le> ?b \<or> ?b + 8 * (n + 5) \<le> p" if "p \<in> set L" "p \<noteq> ?b" for p
    using free[OF that(1)] head_apart[OF free_at_head that(2)] by blast
  have "?s \<notin> set L - {?b}" using other[of ?s] k by auto
  then have dis': "distinct (L[e := ?s])" using dis e by (auto intro: distinct_list_update)
  have "\<exists>m. free_at a ?bs' p m" if pL: "p \<in> set (L[e := ?s])" for p
  proof (cases "p = ?s")
    case True
    then show ?thesis by (auto simp: free_at_append free_at_Cons intro!: exI[of _ "n - k - 5"])
  next
    case False
    then have "p \<in> set L" using pL set_update_subset_insert[of L e ?s] by auto
    moreover have "p \<noteq> ?b"
    proof
      assume "p = ?b"
      moreover obtain j where "j < length L" "L[e := ?s] ! j = p" using pL by (auto simp: in_set_conv_nth)
      ultimately show False using e el dis False by (metis nth_eq_iff_index_eq nth_list_update_eq nth_list_update_neq)
    qed
    ultimately obtain m where "free_at a ?bs p m" "p \<noteq> ?b" using free by blast
    then show ?thesis by (auto simp only: free_at_append free_at_Cons s5)
  qed
  then have free': "\<forall>p \<in> set (L[e := ?s]). \<exists>m. free_at a ?bs' p m" by blast
  have lls': "linked_list_start ?h = of_nat (hd (L[e := ?s]))"
    using lls el by (cases L; cases e) simp_all
  have pix: "pred_ix (L[e := ?s]) e = pred_ix L e" by (simp add: pred_ix_def)
  have "search_previous ?h = of_nat (L[e := ?s] ! pred_ix L e) \<or> search_previous ?h = 0 \<and> length L = 1"
    using sp inv_index[OF inv pred_ix_less[OF el] el] inv_entry(4)[OF inv el] e el
    by (auto simp: nth_list_update simp del: of_nat_add of_nat_mult)
  then have sp': "search_previous ?h = of_nat (L[e := ?s] ! pred_ix (L[e := ?s]) e) \<or> search_previous ?h = 0 \<and> length (L[e := ?s]) = 1"
    unfolding pix length_list_update .
  have tl: "tiled (hmem ?h) a ?bs'" "chained (hmem ?h) (L[e := ?s])"
    using tiled_split_mem[OF t k q] chained_split[OF inv e k] by simp_all
  have cur': "search_current ?h = of_nat (L[e := ?s] ! e)" "e < length (L[e := ?s])"
    "heap_base ?h = of_nat a" "heap_end ?h = of_nat (blocks_end a ?bs')"
    unfolding be using el ends by simp_all
  have inv': "heap_inv ?h a ?bs' (L[e := ?s]) e"
    unfolding heap_inv_def by (intro conjI a0 tl dis' free' lls' cur' sp')
  have "hmem ?h (of_nat x) = hmem h (of_nat x)" if "x \<in> payload a ?bs" for x
  proof -
    have "x + 24 \<le> ?b \<or> ?b + 8 * (n + 5) \<le> x \<and> x + 24 \<le> blocks_end a ?bs"
      using that payload_range[of x a pre] payload_range[of x "?b + 8 * (n + 5)" post]
      by (auto simp: payload_append blocks_end_append)
    then have r: "x + 8 \<le> ?b \<or> ?b + 8 * (n + 5) \<le> x" "x < 2 ^ 64"
      using tiled_bound[OF t] blocks_end_ge[of "?b + 8 * (n + 5)" post] by (auto simp: blocks_end_append)
    have "x \<noteq> p + 8" if "moved_link L e = Some p" for p
      using q that link_not_payload[of p a ?bs] \<open>x \<in> payload a ?bs\<close> by auto
    then show ?thesis using split_mem_frame[OF t k q r] by auto
  qed
  then show ?thesis using split_blk_inv[OF inv e k sz] inv' unfolding e by blast
qed

end
