(* ===== verification/Heap_Alloc.thy ===== *)
theory Heap_Alloc
  imports Heap_List
begin

text \<open>
  Allocation: \<open>find_fit\<close> is next fit over the free list, it always returns, and \<open>rmalloc\<close> returns
  the payload of a block that was free, of at least the requested size, keeping the heap
  invariant and every allocated payload.
\<close>

section \<open>Sizes\<close>

definition words :: "u64 \<Rightarrow> nat" where "words sz = (unat sz + 7) div 8"

lemma align_words:
  assumes "unat sz + 7 < 2 ^ 64"
  shows "ALIGN sz = of_nat (8 * words sz)"
proof -
  have "x AND NOT 7 = push_bit 3 (drop_bit 3 x)" for x :: u64
  proof (rule bit_word_eqI)
    fix i :: nat
    have m: "(7 :: u64) = mask 3" by (simp add: mask_eq_exp_minus_1)
    assume "i < LENGTH(64)"
    then show "bit (x AND NOT 7) i = bit (push_bit 3 (drop_bit 3 x)) i"
      unfolding m by (auto simp: bit_and_iff bit_not_iff bit_mask_iff bit_push_bit_iff bit_drop_bit_eq)
  qed
  then have "ALIGN sz = 8 * ((sz + 7) div 8)"
    by (simp add: ALIGN_def WORD_SIZE_def push_bit_eq_mult drop_bit_eq_div)
  moreover have "(sz + 7) div 8 = of_nat (words sz)"
  proof -
    have "unat (sz + 7) = unat sz + 7" using assms by (simp add: unat_add_no_wrap)
    moreover have "words sz < 2 ^ 64" using assms by (simp add: words_def)
    ultimately have "unat ((sz + 7) div 8) = unat (of_nat (words sz) :: u64)"
      by (simp add: unat_div words_def unat_of_nat_no_wrap)
    then show ?thesis by (simp only: word_unat_eq_iff)
  qed
  ultimately show ?thesis by simp
qed

lemma align_multiple:
  assumes "8 * k + 103 < 2 ^ 64"
  shows "ALIGN (of_nat (8 * k) + (OVERHEAD + 1) * SIZE_T_SIZE * 2) = of_nat (8 * k + 96)"
proof -
  have e: "(of_nat (8 * k) + (OVERHEAD + 1) * SIZE_T_SIZE * 2 :: u64) = of_nat (8 * k + 96)"
    by (simp add: OVERHEAD_def size_words)
  have u: "unat (of_nat (8 * k + 96) :: u64) = 8 * k + 96" using assms by (subst unat_of_nat_no_wrap) simp_all
  have "words (of_nat (8 * k + 96)) = k + 12" by (simp only: words_def u)
  then show ?thesis unfolding e using align_words[of "of_nat (8 * k + 96)"] u assms by simp
qed

text \<open>A request is a multiple of eight bytes; a block of \<open>n\<close> words has \<open>8 * n\<close> bytes and never
  equals the size plus five.\<close>

lemma no_exact_fit: "(of_nat n :: u64) * SIZE_T_SIZE \<noteq> of_nat (8 * k) + OVERHEAD"
proof
  assume "(of_nat n :: u64) * SIZE_T_SIZE = of_nat (8 * k) + OVERHEAD"
  then have "even ((of_nat n :: u64) * 8) = even (of_nat (8 * k) + 5 :: u64)" by (simp add: size_words OVERHEAD_def)
  then show False by simp
qed

section \<open>Next fit\<close>

definition fits :: "Heap \<Rightarrow> nat list \<Rightarrow> nat \<Rightarrow> nat \<Rightarrow> bool" where
  "fits h L k e \<longleftrightarrow> k + 12 < unat (hmem h (of_nat (L ! e)))"

definition next_fit :: "Heap \<Rightarrow> nat list \<Rightarrow> nat \<Rightarrow> nat \<Rightarrow> nat option" where
  "next_fit h L k i = find (fits h L k) (map (\<lambda>d. (i + d) mod length L) [0..<length L])"

definition at_index :: "nat list \<Rightarrow> nat \<Rightarrow> Heap \<Rightarrow> Heap" where
  "at_index L e h = h\<lparr>search_previous := of_nat (L ! pred_ix L e), search_current := of_nat (L ! e)\<rparr>"

lemma at_index_inv: "heap_inv h a bs L i \<Longrightarrow> e < length L \<Longrightarrow> heap_inv (at_index L e h) a bs L e"
  by (simp add: heap_inv_def at_index_def)

lemma at_index_simps [simp]:
  "hmem (at_index L e h) = hmem h" "search_start (at_index L e h) = search_start h"
  "at_index L e (at_index L e' h) = at_index L e h" "fits (at_index L e h) L k = fits h L k"
  by (simp_all add: at_index_def fits_def fun_eq_iff)

lemma inv_size:
  assumes "heap_inv h a bs L i" "j < length L"
  obtains n where "free_at a bs (L ! j) n" "hmem h (of_nat (L ! j)) = of_nat n" "8 * n + 40 < 2 ^ 64"
    "unat (hmem h (of_nat (L ! j))) = n"
proof -
  have t: "tiled (hmem h) a bs" using assms(1) by (simp add: heap_inv_def)
  obtain n where n: "free_at a bs (L ! j) n" using assms nth_mem[OF assms(2)] unfolding heap_inv_def by blast
  have b: "8 * n + 40 < 2 ^ 64" using free_at_size(2)[OF t n] by simp
  moreover have "hmem h (of_nat (L ! j)) = of_nat n" by (rule free_at_size(1)[OF t n])
  moreover have "unat (of_nat n :: u64) = n" using b by (simp add: unat_of_nat_no_wrap)
  ultimately show thesis using n that by metis
qed

lemma find_fit_step:
  assumes inv: "heap_inv s a bs L j" and k: "8 * k + 103 < 2 ^ 64"
  defines "j' \<equiv> (j + 1) mod length L"
  shows "find_fit_loop s (of_nat (8 * k)) =
    (if fits s L k j then split_blk s (of_nat (8 * k)) (of_nat (L ! j))
     else if search_start s \<noteq> of_nat (L ! j') then find_fit_loop (at_index L j' s) (of_nat (8 * k))
     else Some (0, at_index L j' s))"
proof -
  have jl: "j < length L" and ch: "chained (hmem s) L" and cur: "search_current s = of_nat (L ! j)"
    and lls: "linked_list_start s = of_nat (hd L)" and he: "heap_end s = of_nat (blocks_end a bs)" and t: "tiled (hmem s) a bs"
    using inv by (auto simp: heap_inv_def)
  have j'l: "j' < length L" unfolding j'_def by (rule mod_less_divisor) (use jl in linarith)
  obtain n where n: "hmem s (of_nat (L ! j)) = of_nat n" "8 * n + 40 < 2 ^ 64" "unat (hmem s (of_nat (L ! j))) = n"
    using inv_size[OF inv jl] by metis
  note nz = inv_entry(4)[OF inv jl]
  have rds: "rd s (of_nat (L ! j)) 0 = Some (of_nat n)" "rd s (of_nat (L ! j)) 1 = Some (hmem s (of_nat (L ! j + 8)))"
    using nz n(1) by (simp_all add: rd_def at_def)
  have "unat (of_nat n * SIZE_T_SIZE :: u64) = 8 * n"
  proof -
    have "(of_nat n * SIZE_T_SIZE :: u64) = of_nat (8 * n)" by (simp add: size_words)
    then show ?thesis using n(2) unat_of_nat_no_wrap[where 'a = 64, of "8 * n"] by simp
  qed
  moreover have "unat (of_nat (8 * k + 96) :: u64) = 8 * k + 96" using k by (subst unat_of_nat_no_wrap) simp_all
  ultimately have big: "of_nat n * SIZE_T_SIZE > (of_nat (8 * k + 96) :: u64) \<longleftrightarrow> fits s L k j"
    unfolding fits_def n(3) word_less_nat_alt by simp arith
  have nxt: "(if hmem s (of_nat (L ! j + 8)) \<noteq> 0 then hmem s (of_nat (L ! j + 8)) else linked_list_start s) = of_nat (L ! j')"
  proof (cases "j + 1 < length L")
    case True
    then show ?thesis using ch jl inv_entry(4)[OF inv True] by (simp add: chained_def j'_def del: of_nat_add)
  next
    case False
    then have "j + 1 = length L" "hd L = L ! 0" using jl by (auto intro: hd_conv_nth)
    then show ?thesis using ch jl lls by (simp add: chained_def j'_def del: of_nat_add)
  qed
  have pj: "pred_ix L j' = j"
  proof (cases "j + 1 < length L")
    case False
    then have "j + 1 = length L" using jl by simp
    then show ?thesis by (simp add: pred_ix_def j'_def)
  qed (simp add: pred_ix_def j'_def)
  have "L ! j' + 40 \<le> blocks_end a bs" using heads_end inv_entry(1)[OF inv j'l] by blast
  then have "(of_nat (L ! j') :: u64) < of_nat (blocks_end a bs)"
    unfolding word_less_nat_alt using tiled_bound[OF t] by (simp add: unat_of_nat_no_wrap)
  then have end_ok: "of_nat (L ! j') < heap_end s" unfolding he .
  show ?thesis
    unfolding find_fit_loop.simps[of s] cur Let_def rds bind.bind_lunit align_multiple[OF k] if_not_P[OF no_exact_fit] big nxt
    using nz end_ok by (simp add: at_index_def pj)
qed

lemma step_mod: "d + 1 < n \<Longrightarrow> ((i + d) mod n + 1) mod n = (i + (d + 1)) mod (n :: nat)"
  by (simp add: mod_Suc_eq)

lemma find_fit_walk:
  assumes "heap_inv s a bs L ((i + d) mod length L)" "d < length L" "i < length L" "search_start s = of_nat (L ! i)"
    and k: "8 * k + 103 < 2 ^ 64"
  shows "find_fit_loop s (of_nat (8 * k)) =
    (case find (fits s L k) (map (\<lambda>d. (i + d) mod length L) [d..<length L]) of
       None \<Rightarrow> Some (0, at_index L i s)
     | Some e \<Rightarrow> split_blk (if e = (i + d) mod length L then s else at_index L e s) (of_nat (8 * k)) (of_nat (L ! e)))"
  using assms(1,2,4)
proof (induction "length L - d" arbitrary: d s rule: less_induct)
  case less
  let ?n = "length L" and ?j = "(i + d) mod length L"
  have up: "[d..<?n] = d # [d + 1..<?n]" using less.prems(2) by (simp add: upt_conv_Cons)
  note step = find_fit_step[OF less.prems(1) k]
  show ?case
  proof (cases "fits s L k ?j")
    case True
    then show ?thesis unfolding step up by simp
  next
    case no: False
    show ?thesis
    proof (cases "d + 1 < ?n")
      case True
      let ?j' = "(i + (d + 1)) mod ?n"
      have j': "(?j + 1) mod ?n = ?j'" using True by (rule step_mod)
      have l: "?j' < ?n" by (rule mod_less_divisor) (use assms(3) in linarith)
      have "?j' \<noteq> i"
      proof (cases "i + (d + 1) < ?n")
        case False
        then have "?j' = i + (d + 1) - ?n" using assms(3) True by (simp add: mod_if)
        then show ?thesis using True False by auto
      qed simp
      then have ne: "search_start s \<noteq> of_nat (L ! ?j')"
        using inv_index[OF less.prems(1) l assms(3)] less.prems(3) by metis
      have "find_fit_loop (at_index L ?j' s) (of_nat (8 * k)) =
        (case find (fits s L k) (map (\<lambda>d. (i + d) mod ?n) [d + 1..<?n]) of None \<Rightarrow> Some (0, at_index L i s)
         | Some e \<Rightarrow> split_blk (at_index L e s) (of_nat (8 * k)) (of_nat (L ! e)))"
        using less.hyps[of "d + 1" "at_index L ?j' s"] True at_index_inv[OF less.prems(1) l] less.prems(2,3)
        by (simp add: if_distrib cong: option.case_cong split: option.split)
      moreover have "e \<noteq> ?j" if "find (fits s L k) (map (\<lambda>d. (i + d) mod ?n) [d + 1..<?n]) = Some e" for e
        using that no by (auto simp: find_Some_iff)
      ultimately show ?thesis unfolding step up j' using no ne by (simp split: option.split)
    next
      case False
      then have d: "d + 1 = ?n" using less.prems(2) by simp
      then have "(?j + 1) mod ?n = i" using assms(3) by (simp add: mod_Suc_eq) (metis Suc_eq_plus1 add_Suc_right mod_add_self2 mod_less)
      then show ?thesis unfolding step up using no d less.prems(3) by simp
    qed
  qed
qed

lemma start_inv [simp]: "heap_inv (h\<lparr>search_start := p\<rparr>) a bs L i = heap_inv h a bs L i"
  by (simp add: heap_inv_def)

lemma next_fit_bound: "next_fit h L k i = Some e \<Longrightarrow> e < length L \<and> fits h L k e"
  by (auto simp: next_fit_def find_Some_iff intro!: mod_less_divisor)

lemma find_fit_searches:
  assumes inv: "heap_inv h a bs L i" and k: "8 * k + 103 < 2 ^ 64"
  shows "find_fit h (of_nat (8 * k)) = (case next_fit h L k i of
       None \<Rightarrow> Some (0, at_index L i (h\<lparr>search_start := search_current h\<rparr>))
     | Some e \<Rightarrow> split_blk (if e = i then h\<lparr>search_start := search_current h\<rparr> else at_index L e (h\<lparr>search_start := search_current h\<rparr>))
                   (of_nat (8 * k)) (of_nat (L ! e)))"
proof -
  have i: "i < length L" "search_current h = of_nat (L ! i)" using inv by (auto simp: heap_inv_def)
  have f: "fits (h\<lparr>search_start := p\<rparr>) L k = fits h L k" for p by (simp add: fits_def fun_eq_iff)
  have m: "(i + 0) mod length L = i" "0 < length L" using i(1) by auto
  have "heap_inv (h\<lparr>search_start := search_current h\<rparr>) a bs L ((i + 0) mod length L)" unfolding m(1) using inv by simp
  from find_fit_walk[OF this m(2) i(1) _ k] i(2) show ?thesis unfolding find_fit_def next_fit_def f m(1) by simp
qed

lemma word_multiple_div:
  assumes "8 * k < 2 ^ 64"
  shows "(of_nat (8 * k) :: u64) div 8 = of_nat k"
proof -
  have "unat (of_nat (8 * k) :: u64) = 8 * k" using assms by (subst unat_of_nat_no_wrap) simp_all
  then have "unat ((of_nat (8 * k) :: u64) div 8) = unat (of_nat k :: u64)"
    using assms by (simp add: unat_div unat_of_nat_no_wrap del: of_nat_mult)
  then show ?thesis by (simp only: word_unat_eq_iff)
qed

lemma find_fit_allocates:
  assumes inv: "heap_inv h a bs L i" and k: "8 * k + 103 < 2 ^ 64" and e: "next_fit h L k i = Some e"
  shows "\<exists>pre n post h'. bs = pre @ (n, False) # post \<and> L ! e = blocks_end a pre \<and> k + 12 < n
    \<and> find_fit h (of_nat (8 * k)) = Some (of_nat (L ! e + 24), h')
    \<and> heap_inv h' a (pre @ (k, True) # (n - k - 5, False) # post) (L[e := L ! e + 8 * (k + 5)]) e
    \<and> (\<forall>x \<in> payload a bs. hmem h' (of_nat x) = hmem h (of_nat x))"
proof -
  let ?s = "h\<lparr>search_start := search_current h\<rparr>"
  let ?g = "if e = i then ?s else at_index L e ?s"
  have el: "e < length L" and f: "fits h L k e" using next_fit_bound[OF e] by simp_all
  obtain n where n: "free_at a bs (L ! e) n" "unat (hmem h (of_nat (L ! e))) = n"
    using inv_size[OF inv el] by metis
  then obtain pre post where bs: "bs = pre @ (n, False) # post" "L ! e = blocks_end a pre" by (auto simp: free_at_def)
  have kn: "k + 12 < n" using f n(2) by (simp add: fits_def)
  have g: "heap_inv ?g a (pre @ (n, False) # post) L e" "hmem ?g = hmem h"
    using inv el at_index_inv[of ?s a bs L i e] by (simp_all add: bs(1))
  have d: "(of_nat (8 * k) :: u64) div 8 = of_nat k" using k by (intro word_multiple_div) simp
  from kn have "k + 5 \<le> n" by simp
  from split_heap_inv[OF g(1) bs(2) this d] obtain h' where h': "split_blk ?g (of_nat (8 * k)) (of_nat (L ! e)) = Some (of_nat (L ! e + 24), h')"
    "heap_inv h' a (pre @ (k, True) # (n - k - 5, False) # post) (L[e := L ! e + 8 * (k + 5)]) e"
    "\<forall>x \<in> payload a (pre @ (n, False) # post). hmem h' (of_nat x) = hmem ?g (of_nat x)" by blast
  have "find_fit h (of_nat (8 * k)) = Some (of_nat (L ! e + 24), h')"
    unfolding find_fit_searches[OF inv k] e option.case h'(1) ..
  then show ?thesis using bs kn h'(2,3) g(2) by auto
qed

section \<open>The initial heap\<close>

lemma init_heap_establishes:
  assumes "0 < a" "a + 8 * (n + 5) < 2 ^ 64" "8 * (n + 5) < 2 ^ 31"
  shows "\<exists>h'. init_heap h (of_nat a) (of_nat (8 * (n + 5))) = Some h' \<and> heap_inv h' a [(n, False)] [a] 0"
proof -
  have nz: "(of_nat a :: u64) \<noteq> 0" using of_nat_u64_eq[of a 0] assms(1,2) by auto
  have sz: "unat (of_nat (8 * (n + 5)) :: u64) = 8 * (n + 5)" using assms(3) by (subst unat_of_nat_no_wrap) simp_all
  have adj: "(of_nat (8 * (n + 5)) :: u64) - WORD_SIZE * OVERHEAD = of_nat (8 * n)" by (simp add: WORD_SIZE_def OVERHEAD_def)
  have b: "8 * n < 2 ^ 31" using assms(3) by simp
  have sc: "scast (ucast (of_nat (8 * n) :: u64) :: u32) = (of_nat (8 * n) :: u64)"
  proof -
    have u: "uint (of_nat (8 * n) :: u64) = int (8 * n)"
      using unat_of_nat_no_wrap[where 'a = 64, of "8 * n"] b by (simp add: uint_nat del: of_nat_mult)
    have "uint (ucast (of_nat (8 * n) :: u64) :: u32) = int (8 * n)"
      unfolding unsigned_ucast_eq u using b by (simp add: take_bit_int_eq_self)
    then have "sint (ucast (of_nat (8 * n) :: u64) :: u32) = int (8 * n)"
      unfolding sint_uint using b by (simp add: signed_take_bit_int_eq_self)
    then show ?thesis by (simp add: scast_eq)
  qed
  let ?z = "of_nat (8 * (n + 5)) :: u64"
  have d: "?z div SIZE_T_SIZE = of_nat (n + 5)" "(of_nat (8 * n) :: u64) div SIZE_T_SIZE = of_nat n"
    using assms(3) unfolding size_words by (intro word_multiple_div; simp)+
  define m where "m = (hmem h)(of_nat a := of_nat n, of_nat (a + 8) := 0, of_nat (a + 16) := 0,
     of_nat (a + 8 * (n + 3)) := of_nat n, of_nat (a + 8 * (n + 4)) := 0)"
  have ix: "at (of_nat a) 0 = of_nat a" "at (of_nat a) 1 = of_nat (a + 8)" "at (of_nat a) 2 = of_nat (a + 16)"
    "at (of_nat a) (of_nat (n + 5) - 2) = of_nat (a + 8 * (n + 3))" "at (of_nat a) (of_nat (n + 5) - 1) = of_nat (a + 8 * (n + 4))"
    by (simp_all add: at_def algebra_simps)
  have y: "a + 8 * (n + 4) < 2 ^ 64" "a + 8 * (n + 3) < 2 ^ 64" "a + 16 < 2 ^ 64" "a + 8 < 2 ^ 64" "a < 2 ^ 64" using assms(2) by simp_all
  have ne: "(of_nat (a + 8) :: u64) \<noteq> of_nat a" "(of_nat (a + 16) :: u64) \<noteq> of_nat a"
    "(of_nat (a + 8) :: u64) \<noteq> of_nat (a + 16)" "(of_nat (a + 8) :: u64) \<noteq> of_nat (a + 8 * (n + 3))"
    by (subst of_nat_u64_eq; use y in simp)+
  have r: "init_heap h (of_nat a) ?z = Some (h\<lparr>search_previous := 0, heap_base := of_nat a, hmem := m, linked_list_start := of_nat a,
    search_start := of_nat a, search_current := of_nat a, heap_end := of_nat (a + 8 * (n + 5))\<rparr>)"
    unfolding init_heap_def adj sc Let_def d rd_def wr_def ix m_def
    using nz ne by (simp add: at_of_nat del: of_nat_add of_nat_mult)
  have m_at: "m (of_nat x) = (if x = a + 8 * (n + 4) then 0 else if x = a + 8 * (n + 3) then of_nat n
      else if x = a + 16 then 0 else if x = a + 8 then 0 else if x = a then of_nat n else hmem h (of_nat x))"
    if "x < 2 ^ 64" for x unfolding m_def by (simp only: upd_nat[OF that] y)
  have "m (of_nat a) = of_nat n" "m (of_nat (a + 8)) = 0" "m (of_nat (a + 16)) = 0"
    "m (of_nat (a + 8 * (n + 3))) = of_nat n" "m (of_nat (a + 8 * (n + 4))) = 0"
    unfolding m_at[OF y(1)] m_at[OF y(2)] m_at[OF y(3)] m_at[OF y(4)] m_at[OF y(5)] by simp_all
  then have "tiled m a [(n, False)]" and "chained m [a]"
    unfolding tiled_def chained_def using assms(2) by (simp_all del: of_nat_add of_nat_mult)
  then have "heap_inv (h\<lparr>search_previous := 0, heap_base := of_nat a, hmem := m, linked_list_start := of_nat a,
    search_start := of_nat a, search_current := of_nat a, heap_end := of_nat (a + 8 * (n + 5))\<rparr>) a [(n, False)] [a] 0"
    using assms(1) by (auto simp: heap_inv_def free_at_Cons)
  with r show ?thesis by blast
qed

section \<open>Properties\<close>

lemma words_bound: "unat sz + 110 < 2 ^ 64 \<Longrightarrow> 8 * words sz + 103 < 2 ^ 64"
  by (simp add: words_def)

text \<open>C19: \<open>find_fit\<close> is next fit: the walk over the linked blocks always ends and gives what the reference
  search over the list gives, the split of the first block from the position on that is large
  enough, or null with the position unchanged when there is none.\<close>

theorem find_fit_is_next_fit:
  assumes "heap_inv h a bs L i" "8 * k + 103 < 2 ^ 64"
  shows "find_fit h (of_nat (8 * k)) = (case next_fit h L k i of
       None \<Rightarrow> Some (0, at_index L i (h\<lparr>search_start := search_current h\<rparr>))
     | Some e \<Rightarrow> split_blk (if e = i then h\<lparr>search_start := search_current h\<rparr> else at_index L e (h\<lparr>search_start := search_current h\<rparr>))
                   (of_nat (8 * k)) (of_nat (L ! e)))"
  using assms by (rule find_fit_searches)

text \<open>C8: \<open>rmalloc\<close> serves a request from the first block of the free list, from the search position on, that is large enough: it
  returns the payload of that formerly free block, at least as large as requested, keeps the heap
  invariant with the block split into a used and a free one, and changes no allocated payload.\<close>

theorem rmalloc_allocates:
  assumes "heap_inv h a bs L i" "unat sz + 110 < 2 ^ 64" "next_fit h L (words sz) i = Some e"
  shows "\<exists>pre n post h'. bs = pre @ (n, False) # post \<and> L ! e = blocks_end a pre \<and> words sz + 12 < n
    \<and> unat sz \<le> 8 * words sz
    \<and> rmalloc h sz = Some (of_nat (L ! e + 24), h')
    \<and> heap_inv h' a (pre @ (words sz, True) # (n - words sz - 5, False) # post) (L[e := L ! e + 8 * (words sz + 5)]) e
    \<and> (\<forall>x \<in> payload a bs. hmem h' (of_nat x) = hmem h (of_nat x))"
proof -
  have al: "ALIGN sz = of_nat (8 * words sz)" using assms(2) by (intro align_words) simp
  obtain pre n post h' where r: "bs = pre @ (n, False) # post" "L ! e = blocks_end a pre" "words sz + 12 < n"
    "find_fit h (of_nat (8 * words sz)) = Some (of_nat (L ! e + 24), h')"
    "heap_inv h' a (pre @ (words sz, True) # (n - words sz - 5, False) # post) (L[e := L ! e + 8 * (words sz + 5)]) e"
    "\<forall>x \<in> payload a bs. hmem h' (of_nat x) = hmem h (of_nat x)"
    using find_fit_allocates[OF assms(1) words_bound[OF assms(2)] assms(3)] by blast
  have "L ! e + 40 < 2 ^ 64" using inv_entry(3)[OF assms(1)] next_fit_bound[OF assms(3)] by simp
  then have nz: "(of_nat (L ! e + 24) :: u64) \<noteq> 0" using of_nat_u64_eq[of "L ! e + 24" 0] by simp
  have "rmalloc h sz = Some (of_nat (L ! e + 24), h')"
    unfolding rmalloc_def Let_def al r(4) using nz by simp
  moreover have "unat sz \<le> 8 * words sz" by (simp add: words_def)
  ultimately show ?thesis using r by blast
qed

text \<open>\<open>init_heap\<close> on a region of a multiple of eight bytes, less than two gigabytes, sets up one free block that fills
  it and establishes the heap invariant.\<close>

theorem init_heap_inv:
  assumes "0 < a" "a + 8 * (n + 5) < 2 ^ 64" "8 * (n + 5) < 2 ^ 31"
  shows "\<exists>h'. init_heap h (of_nat a) (of_nat (8 * (n + 5))) = Some h' \<and> heap_inv h' a [(n, False)] [a] 0"
  using assms by (rule init_heap_establishes)

theorem init_heap_inv_witness:
  "\<forall>h. \<exists>h'. init_heap h (of_nat 4096) (of_nat (8 * (507 + 5))) = Some h' \<and> heap_inv h' 4096 [(507, False)] [4096] 0"
  by (intro allI init_heap_inv) simp_all

lemma one_page_heap:
  obtains h1 where "init_heap h 4096 4096 = Some h1" "heap_inv h1 4096 [(507, False)] [4096] 0" "hmem h1 4096 = 507"
proof -
  obtain h1 where h1: "init_heap h (of_nat 4096) (of_nat (8 * (507 + 5))) = Some h1" and inv: "heap_inv h1 4096 [(507, False)] [4096] 0"
    using init_heap_establishes[of 4096 507 h] by auto
  have "free_at 4096 [(507, False)] 4096 507" by (simp add: free_at_Cons)
  moreover have "tiled (hmem h1) 4096 [(507, False)]" using inv by (simp only: heap_inv_def)
  ultimately have "hmem h1 (of_nat 4096) = of_nat 507" using free_at_size(1) by blast
  then show thesis using that h1 inv by simp
qed

theorem find_fit_is_next_fit_witness:
  "\<forall>h. \<exists>h1 h2. init_heap h 4096 4096 = Some h1 \<and> find_fit h1 8000 = Some (0, h2)"
proof
  fix h
  obtain h1 where h1: "init_heap h 4096 4096 = Some h1" and inv: "heap_inv h1 4096 [(507, False)] [4096] 0"
    and sz: "hmem h1 4096 = 507" by (rule one_page_heap)
  have "next_fit h1 [4096] 1000 0 = None" using sz by (simp add: next_fit_def fits_def)
  then show "\<exists>h1 h2. init_heap h 4096 4096 = Some h1 \<and> find_fit h1 8000 = Some (0, h2)"
    using find_fit_is_next_fit[OF inv, of 1000] h1 by simp
qed

theorem rmalloc_allocates_witness:
  "\<forall>h. \<exists>h1 h2. init_heap h 4096 4096 = Some h1 \<and> rmalloc h1 100 = Some (4120, h2)
     \<and> heap_inv h2 4096 [(13, True), (489, False)] [4240] 0"
proof
  fix h
  obtain h1 where h1: "init_heap h 4096 4096 = Some h1" and inv: "heap_inv h1 4096 [(507, False)] [4096] 0"
    and sz: "hmem h1 4096 = 507" by (rule one_page_heap)
  have "next_fit h1 [4096] (words 100) 0 = Some 0" using sz by (simp add: next_fit_def fits_def words_def)
  from rmalloc_allocates[OF inv _ this]
  have "\<exists>h'. rmalloc h1 100 = Some (4120, h') \<and> heap_inv h' 4096 [(13, True), (489, False)] [4240] 0"
    by (auto simp: words_def append_eq_Cons_conv Cons_eq_append_conv)
  then show "\<exists>h1 h2. init_heap h 4096 4096 = Some h1 \<and> rmalloc h1 100 = Some (4120, h2)
     \<and> heap_inv h2 4096 [(13, True), (489, False)] [4240] 0" using h1 by auto
qed

end
