(* ===== verification/Heap_Free.thy ===== *)
theory Heap_Free
  imports Heap_Alloc
begin

text \<open>
  Release of a block. Between two used blocks nothing is merged: the block goes into the free list
  behind \<open>search_previous\<close> and the invariant is kept. When the block is merged with a
  neighbour, \<open>search_previous\<close> may be left inside the merged block, and a later
  allocation writes through it; a run that does so is evaluated.
\<close>

section \<open>The memory after a release\<close>

text \<open>\<open>q\<close> is the free block behind which the block at \<open>b\<close>, of \<open>n\<close> words, is linked.\<close>

definition freed_mem :: "nat \<Rightarrow> nat \<Rightarrow> nat \<Rightarrow> (u64 \<Rightarrow> u64) \<Rightarrow> (u64 \<Rightarrow> u64)" where
  "freed_mem b n q m = m(of_nat (b + 16) := 0, of_nat (b + 8 * (n + 4)) := 0,
     of_nat (b + 8) := m (of_nat (q + 8)), of_nat (q + 8) := of_nat b)"

lemma freed_mem_at:
  assumes "x < 2 ^ 64" "b + 8 * (n + 5) < 2 ^ 64" "q + 8 < 2 ^ 64"
  shows "freed_mem b n q m (of_nat x) = (if x = q + 8 then of_nat b else if x = b + 8 then m (of_nat (q + 8))
     else if x = b + 8 * (n + 4) then 0 else if x = b + 16 then 0 else m (of_nat x))"
proof -
  have y: "b + 16 < 2 ^ 64" "b + 8 * (n + 4) < 2 ^ 64" "b + 8 < 2 ^ 64" using assms(2) by simp_all
  show ?thesis unfolding freed_mem_def by (simp only: upd_nat assms(1,3) y)
qed

text \<open>Where a free block lies, seen from a used one.\<close>

lemma free_not_used:
  assumes "tiled m a (pre @ (n, True) # post)" "free_at a (pre @ (n, True) # post) p k"
  shows "p \<noteq> blocks_end a pre"
proof
  assume p: "p = blocks_end a pre"
  obtain pre' post' where e: "pre @ (n, True) # post = pre' @ (k, False) # post'" "p = blocks_end a pre'"
    using assms(2) by (auto simp: free_at_def)
  have t: "(p + 16, 1) \<in> set (tags a (pre @ (n, True) # post))" by (simp add: tags_append p)
  have t': "(p + 16, 0) \<in> set (tags a (pre @ (n, True) # post))" unfolding e by (simp add: tags_append)
  have "m (of_nat (p + 16)) = of_nat 1" "m (of_nat (p + 16)) = of_nat 0"
    using assms(1) t t' unfolding tiled_def by fast+
  then show False by simp
qed

lemma tiled_freed:
  assumes t: "tiled m a (pre @ (n, True) # post)" and q: "q \<in> set (heads a (pre @ (n, True) # post))" "q \<noteq> blocks_end a pre"
  shows "tiled (freed_mem (blocks_end a pre) n q m) a (pre @ (n, False) # post)"
proof -
  let ?b = "blocks_end a pre" and ?e = "blocks_end a pre + 8 * (n + 5)" and ?bs = "pre @ (n, True) # post"
  have fin: "?e < 2 ^ 64" "blocks_end a ?bs < 2 ^ 64"
    using t blocks_end_ge[of ?e post] by (auto simp: tiled_def blocks_end_append)
  have apart: "q + 40 \<le> ?b \<or> ?e \<le> q" "q + 8 < 2 ^ 64" using head_apart[OF q] fin by linarith+
  have "freed_mem ?b n q m (of_nat x) = of_nat w" if "(x, w) \<in> set (tags a (pre @ (n, False) # post))" for x w
  proof -
    have x: "x < 2 ^ 64" using tags_range[OF that] fin(2) by (simp add: blocks_end_append)
    note at = freed_mem_at[OF x fin(1) apart(2), of m]
    consider (old) "(x, w) \<in> set (tags a pre) \<union> set (tags ?e post)"
      | (own) "x = ?b \<and> w = n \<or> x = ?b + 16 \<and> w = 0 \<or> x = ?b + 8 * (n + 3) \<and> w = n \<or> x = ?b + 8 * (n + 4) \<and> w = 0"
      using \<open>(x, w) \<in> _\<close> by (auto simp: tags_append)
    then show ?thesis
    proof cases
      case old
      then have m: "(x, w) \<in> set (tags a ?bs)" by (auto simp: tags_append)
      then have "x \<noteq> q + 8" using link_not_tag[OF q(1)] by metis
      moreover have "x + 8 \<le> ?b \<or> ?e \<le> x" using old tags_range[of x w a pre] tags_range[of x w ?e post] by auto
      then have "x \<noteq> ?b + 8" "x \<noteq> ?b + 8 * (n + 4)" "x \<noteq> ?b + 16" by auto
      moreover have "m (of_nat x) = of_nat w" using t m by (auto simp: tiled_def)
      ultimately show ?thesis unfolding at by (simp only: if_False)
    next
      case own
      have "m (of_nat ?b) = of_nat n" "m (of_nat (?b + 8 * (n + 3))) = of_nat n"
        using t by (auto simp: tiled_def tags_append simp del: of_nat_add of_nat_mult)
      moreover have "x \<noteq> q + 8" using own apart(1) by auto
      ultimately show ?thesis unfolding at using own by (elim disjE conjE) (simp_all del: of_nat_add of_nat_mult)
    qed
  qed
  then show ?thesis using fin(2) by (auto simp: tiled_def blocks_end_append)
qed

section \<open>The free list\<close>

definition linked_after :: "nat \<Rightarrow> nat \<Rightarrow> nat list \<Rightarrow> nat list" where
  "linked_after b e L = take (Suc e) L @ b # drop (Suc e) L"

lemma linked_after_nth:
  assumes "e < length L" "j < Suc (length L)"
  shows "linked_after b e L ! j = (if j \<le> e then L ! j else if j = Suc e then b else L ! (j - 1))"
  using assms by (auto simp: linked_after_def nth_append min_def nth_Cons' intro!: arg_cong[where f = "nth L"])

lemma set_linked_after: "set (linked_after b e L) = insert b (set L)"
  unfolding linked_after_def by (metis Un_insert_right append_take_drop_id list.set(2) set_append)

lemma distinct_linked_after: "distinct (linked_after b e L) \<longleftrightarrow> b \<notin> set L \<and> distinct L"
proof -
  have "distinct (take (Suc e) L @ drop (Suc e) L) = distinct L" "set (take (Suc e) L) \<union> set (drop (Suc e) L) = set L"
    by (simp, metis append_take_drop_id set_append)
  then show ?thesis unfolding linked_after_def distinct_append by auto
qed

lemma chained_freed:
  assumes ch: "chained m L" and e: "e < length L" and q: "q = L ! e" and dis: "distinct L"
    and r: "b + 8 * (n + 5) < 2 ^ 64"
    and L: "\<forall>p \<in> set L. (p + 40 \<le> b \<or> b + 8 * (n + 5) \<le> p) \<and> p + 8 < 2 ^ 64"
  shows "chained (freed_mem b n q m) (linked_after b e L)"
  unfolding chained_def
proof (intro allI impI)
  fix j assume "j < length (linked_after b e L)"
  then have j: "j < Suc (length L)" using e by (simp add: linked_after_def)
  let ?L = "linked_after b e L"
  have q8: "q + 8 < 2 ^ 64" "q \<noteq> b" using bspec[OF L nth_mem[OF e]] q by auto
  have len: "length ?L = Suc (length L)" using e by (simp add: linked_after_def)
  note nx = linked_after_nth[OF e, of "j + 1" b] and cur = linked_after_nth[OF e j, of b]
  have old: "freed_mem b n q m (of_nat (p + 8)) = (if p = q then of_nat b else m (of_nat (p + 8)))" if "p \<in> set L" for p
  proof -
    have p: "p + 8 < 2 ^ 64" "p + 8 \<noteq> b + 8" "p + 8 \<noteq> b + 8 * (n + 4)" "p + 8 \<noteq> b + 16" using L that by auto
    show ?thesis unfolding freed_mem_at[OF p(1) r q8(1)] using p by (simp del: of_nat_add of_nat_mult)
  qed
  have link: "m (of_nat (L ! i + 8)) = (if i + 1 < length L then of_nat (L ! (i + 1)) else 0)" if "i < length L" for i
    using ch that by (simp add: chained_def)
  consider "j < e" | "j = e" | "j = Suc e" | "Suc e < j" by linarith
  then show "freed_mem b n q m (of_nat (?L ! j + 8)) = (if j + 1 < length ?L then of_nat (?L ! (j + 1)) else 0)"
  proof cases
    case 1
    then have "L ! j \<noteq> q" using e dis q by (simp add: nth_eq_iff_index_eq)
    then show ?thesis using 1 e old[of "L ! j"] link[of j] nx cur len by (simp del: of_nat_add)
  next
    case 2
    then show ?thesis using e old[of "L ! e"] nx cur len q by (simp del: of_nat_add)
  next
    case 3
    have "freed_mem b n q m (of_nat (b + 8)) = m (of_nat (q + 8))"
      using freed_mem_at[OF _ r q8(1), of "b + 8" m] r q8(2) by (simp del: of_nat_add of_nat_mult)
    then show ?thesis using 3 e link[of e] nx cur len q by (simp del: of_nat_add)
  next
    case 4
    then have i: "j - 1 < length L" "j - 1 \<noteq> e" "j - 1 + 1 = j" using j by auto
    then have "L ! (j - 1) \<noteq> q" using e dis q by (simp add: nth_eq_iff_index_eq)
    then show ?thesis using 4 i e old[of "L ! (j - 1)"] link[of "j - 1"] nx cur len by (simp del: of_nat_add)
  qed
qed

section \<open>Release between used blocks\<close>

text \<open>The words that \<open>merge\<close> looks at: the flag in the footer of the block before and in the header of
  the block behind.\<close>

lemma footer_before:
  assumes "tiled m a (pre @ x # post)" "pre \<noteq> []" "snd (last pre)"
  shows "m (of_nat (blocks_end a pre - 8)) = 1" "8 \<le> blocks_end a pre"
proof -
  obtain pre' k where p: "pre = pre' @ [(k, True)]"
    using assms(2,3) by (metis append_butlast_last_id prod.collapse)
  have "(blocks_end a pre - 8, 1) \<in> set (tags a (pre @ x # post))"
    by (cases x) (simp add: p tags_append blocks_end_append)
  then have "m (of_nat (blocks_end a pre - 8)) = of_nat 1" using assms(1) unfolding tiled_def by fast
  then show "m (of_nat (blocks_end a pre - 8)) = 1" by simp
  show "8 \<le> blocks_end a pre" by (simp add: p blocks_end_append)
qed

lemma header_behind:
  assumes "tiled m a (pre @ (n, u) # post)" "post \<noteq> []" "snd (hd post)"
  shows "m (of_nat (blocks_end a pre + 8 * (n + 5) + 16)) = 1"
proof -
  obtain k post' where p: "post = (k, True) # post'" using assms(2,3) by (cases post) auto
  have "(blocks_end a pre + 8 * (n + 5) + 16, 1) \<in> set (tags a (pre @ (n, u) # post))"
    by (simp add: p tags_append)
  then have "m (of_nat (blocks_end a pre + 8 * (n + 5) + 16)) = of_nat 1" using assms(1) unfolding tiled_def by fast
  then show ?thesis by simp
qed

lemma merge_alone:
  assumes t: "tiled (hmem h) a (pre @ (n, False) # post)" and a: "0 < a" "heap_base h = of_nat a"
    and he: "heap_end h = of_nat (blocks_end a (pre @ (n, False) # post))" "blocks_end a (pre @ (n, False) # post) + 16 < 2 ^ 64"
    and used: "pre \<noteq> [] \<longrightarrow> snd (last pre)" "post \<noteq> [] \<longrightarrow> snd (hd post)"
  shows "merge h (of_nat (blocks_end a pre)) = Some h"
proof -
  let ?b = "blocks_end a pre"
  have fa: "free_at a (pre @ (n, False) # post) ?b n" by (auto simp: free_at_def)
  note sz = free_at_size[OF t fa]
  have nz: "(of_nat ?b :: u64) \<noteq> 0" using of_nat_u64_eq[of ?b 0] sz(2,3) a(1) by auto
  have prev: "(if (of_nat ?b :: u64) \<noteq> heap_base h then do {
        f \<leftarrow> rd h (of_nat ?b) (- 1); s \<leftarrow> rd h (of_nat ?b) (- 2);
        Some (if f = 0 then at (of_nat ?b) (- (s + OVERHEAD)) else 0) } else Some 0) = Some 0"
  proof (cases "pre = []")
    case False
    then have f: "hmem h (of_nat (?b - 8)) = 1" "8 \<le> ?b" using footer_before[OF t] used(1) by blast+
    then have "at (of_nat ?b) (- 1) = of_nat (?b - 8)" by (simp add: at_def of_nat_diff)
    then show ?thesis using f(1) nz by (simp add: rd_def)
  qed (simp add: a(2))
  have ix: "at (of_nat ?b) (of_nat n + OVERHEAD + 2) = of_nat (?b + 8 * (n + 5) + 16)" "at (of_nat ?b) 0 = of_nat ?b"
    by (simp_all add: at_def OVERHEAD_def algebra_simps)
  have "\<not> (hmem h (of_nat (?b + 8 * (n + 5) + 16)) = 0 \<and> of_nat (?b + 8 * (n + 5) + 16) < heap_end h)"
  proof (cases "post = []")
    case True
    then have "blocks_end a (pre @ (n, False) # post) = ?b + 8 * (n + 5)" by (simp add: blocks_end_append)
    then show ?thesis using he unfolding word_less_nat_alt
      by (simp add: unat_of_nat_no_wrap del: of_nat_add of_nat_mult)
  next
    case False
    then show ?thesis using header_behind[OF t] used(2) by simp
  qed
  then show ?thesis unfolding merge_def prev bind.bind_lunit
    using nz sz(1) by (auto simp: rd_def ix Let_def simp del: of_nat_add of_nat_mult)
qed

text \<open>The first half of \<open>rfree\<close>: whether the list had a previous block or not, the block is linked
  behind \<open>q\<close>.\<close>

lemma rfree_links:
  assumes r: "b + 8 * (n + 5) < 2 ^ 64" "0 < b" and q: "q + 40 \<le> b \<or> b + 8 * (n + 5) \<le> q" "q + 8 < 2 ^ 64" "0 < q"
    and n: "hmem h (of_nat b) = of_nat n"
    and sp: "search_previous h = of_nat q \<or> search_previous h = 0 \<and> linked_list_start h = of_nat q
      \<and> hmem h (of_nat (b + 8)) = hmem h (of_nat (q + 8))"
  shows "rfree h (of_nat (b + 24)) =
    merge (h\<lparr>hmem := freed_mem b n q (hmem h), search_previous := of_nat q, search_current := of_nat b\<rparr>) (of_nat b)"
proof -
  have nz: "(of_nat b :: u64) \<noteq> 0" "(of_nat q :: u64) \<noteq> 0"
    using of_nat_u64_eq[of b 0] of_nat_u64_eq[of q 0] r q by auto
  have ix: "at (of_nat (b + 24)) (- 3) = of_nat b" "at (of_nat b) 2 = of_nat (b + 16)" "at (of_nat b) 0 = of_nat b"
    "at (of_nat b) (of_nat n + OVERHEAD - 1) = of_nat (b + 8 * (n + 4))"
    "at (of_nat b) 1 = of_nat (b + 8)" "at (of_nat q) 1 = of_nat (q + 8)"
    by (simp_all add: at_def OVERHEAD_def algebra_simps)
  have ne: "(of_nat b :: u64) \<noteq> of_nat (b + 16)" by (subst of_nat_u64_eq) (use r in simp_all)
  have b: "b + 16 < 2 ^ 64" "b + 8 * (n + 4) < 2 ^ 64" "b + 8 < 2 ^ 64" using r(1) by simp_all
  have nw: "(of_nat (q + 8) :: u64) \<noteq> of_nat (b + 16)" "(of_nat (q + 8) :: u64) \<noteq> of_nat (b + 8 * (n + 4))"
    "(of_nat (b + 8) :: u64) \<noteq> of_nat (b + 16)" "(of_nat (b + 8) :: u64) \<noteq> of_nat (b + 8 * (n + 4))"
    by (subst of_nat_u64_eq; use b q in auto)+
  have keep: "h\<lparr>hmem := m, search_current := c\<rparr> = h\<lparr>hmem := m, search_previous := p, search_current := c\<rparr>"
    if "search_previous h = p" for m p c using that by (cases h) simp
  have swap: "h\<lparr>search_previous := p, hmem := m, search_current := c\<rparr> = h\<lparr>hmem := m, search_previous := p, search_current := c\<rparr>"
    for p m c by (cases h) simp
  show ?thesis
  proof (cases "search_previous h = 0")
    case False
    then have p: "search_previous h = of_nat q" using sp by simp
    show ?thesis unfolding rfree_def Let_def freed_mem_def ix(1) using nz ne n nw p
      by (simp add: rd_def wr_def ix keep[OF p] del: of_nat_add of_nat_mult)
  next
    case True
    then have s: "linked_list_start h = of_nat q" "hmem h (of_nat (b + 8)) = hmem h (of_nat (q + 8))"
      using sp nz(2) by auto
    have "(hmem h)(of_nat (b + 16) := 0, of_nat (b + 8 * (n + 4)) := 0, of_nat (b + 8) := hmem h (of_nat (q + 8)))
      = (hmem h)(of_nat (b + 16) := 0, of_nat (b + 8 * (n + 4)) := 0)"
      using nw(3,4) s(2) by (intro fun_upd_idem) (simp del: of_nat_add of_nat_mult)
    then show ?thesis unfolding rfree_def Let_def freed_mem_def ix(1) using nz ne n nw True s(1)
      by (simp add: rd_def wr_def ix swap del: of_nat_add of_nat_mult)
  qed
qed

lemma rfree_between_used:
  assumes inv: "heap_inv h a (pre @ (n, True) # post) L i"
    and used: "pre \<noteq> [] \<longrightarrow> snd (last pre)" "post \<noteq> [] \<longrightarrow> snd (hd post)"
    and room: "blocks_end a (pre @ (n, True) # post) + 16 < 2 ^ 64"
    and fresh: "search_previous h = 0 \<longrightarrow> hmem h (of_nat (blocks_end a pre + 8)) = 0"
  defines "b \<equiv> blocks_end a pre" and "e \<equiv> pred_ix L i"
  shows "\<exists>h'. rfree h (of_nat (b + 24)) = Some h' \<and> heap_inv h' a (pre @ (n, False) # post) (linked_after b e L) (e + 1)
    \<and> (\<forall>x \<in> payload a (pre @ (n, False) # post). hmem h' (of_nat x) = hmem h (of_nat x))"
proof -
  let ?bs = "pre @ (n, True) # post" and ?bs' = "pre @ (n, False) # post"
  define q where "q = L ! e"
  define m where "m = freed_mem b n q (hmem h)"
  let ?h = "h\<lparr>hmem := m, search_previous := of_nat q, search_current := of_nat b\<rparr>"
  have t: "tiled (hmem h) a ?bs" and ch: "chained (hmem h) L" and il: "i < length L" and dis: "distinct L" and a0: "0 < a"
    and lls: "linked_list_start h = of_nat (hd L)"
    and ends: "heap_base h = of_nat a" "heap_end h = of_nat (blocks_end a ?bs)"
    and sp: "search_previous h = of_nat q \<or> search_previous h = 0 \<and> length L = 1"
    using inv by (auto simp: heap_inv_def q_def e_def)
  have free: "\<exists>k. free_at a ?bs p k" if "p \<in> set L" for p using inv that by (auto simp: heap_inv_def)
  have el: "e < length L" using il by (simp add: e_def pred_ix_less)
  have r: "b + 8 * (n + 5) < 2 ^ 64" "b + 8 * (n + 5) \<le> blocks_end a ?bs"
    using room blocks_end_ge[of "b + 8 * (n + 5)" post] by (simp_all add: blocks_end_append b_def)
  have apart: "(p + 40 \<le> b \<or> b + 8 * (n + 5) \<le> p) \<and> p + 8 < 2 ^ 64" "p \<in> set (heads a ?bs)" "p \<noteq> b" if p: "p \<in> set L" for p
  proof -
    obtain k where k: "free_at a ?bs p k" using free[OF p] by blast
    show hd: "p \<in> set (heads a ?bs)" by (rule free_at_head[OF k])
    show ne: "p \<noteq> b" using free_not_used[OF t k] by (simp add: b_def)
    show "(p + 40 \<le> b \<or> b + 8 * (n + 5) \<le> p) \<and> p + 8 < 2 ^ 64"
      using head_apart[OF hd ne[unfolded b_def]] r room unfolding b_def by linarith
  qed
  have qL: "q \<in> set L" using el by (simp add: q_def)
  have t': "tiled m a ?bs'" unfolding m_def b_def
    by (rule tiled_freed[OF t]) (use apart(2,3)[OF qL] in \<open>simp_all add: b_def\<close>)
  have ch': "chained m (linked_after b e L)" unfolding m_def
    by (rule chained_freed[OF ch el q_def dis r(1)]) (use apart(1) in blast)
  have be: "blocks_end a ?bs' = blocks_end a ?bs" by (simp add: blocks_end_append)
  have inv': "heap_inv ?h a ?bs' (linked_after b e L) (e + 1)"
  proof -
    have nth: "linked_after b e L ! (e + 1) = b" "linked_after b e L ! e = q"
      using linked_after_nth[OF el, of "e + 1" b] linked_after_nth[OF el, of e b] el by (simp_all add: q_def)
    have "\<exists>k. free_at a ?bs' p k" if "p \<in> set L" for p
      using free[OF that] by (auto simp: free_at_append free_at_Cons)
    moreover have "free_at a ?bs' b n" by (auto simp: free_at_def b_def)
    ultimately have fr: "\<forall>p \<in> set (linked_after b e L). \<exists>k. free_at a ?bs' p k" by (auto simp: set_linked_after)
    have hd: "hd (linked_after b e L) = hd L" using el by (cases L) (simp_all add: linked_after_def)
    have "b \<notin> set L" using apart(3) by blast
    then show ?thesis unfolding heap_inv_def be hd distinct_linked_after pred_ix_def
      using a0 t' ch' dis el fr lls ends nth by (simp add: linked_after_def[of b e L, THEN arg_cong[of _ _ length]])
  qed
  have "rfree h (of_nat (b + 24)) = Some ?h"
  proof -
    have "hmem h (of_nat b) = of_nat n" using t by (auto simp: tiled_def tags_append b_def)
    moreover have "0 < b" "0 < q" using a0 blocks_end_ge[of a pre] heads_ge[OF apart(2)[OF qL]] by (simp_all add: b_def)
    moreover have "search_previous h = of_nat q \<or> search_previous h = 0 \<and> linked_list_start h = of_nat q
      \<and> hmem h (of_nat (b + 8)) = hmem h (of_nat (q + 8))"
    proof (cases "search_previous h = of_nat q")
      case False
      then have "length L = 1" "search_previous h = 0" using sp by auto
      then show ?thesis using fresh lls ch el
        by (auto simp: chained_def q_def b_def length_Suc_conv simp del: of_nat_add)
    qed simp
    ultimately have "rfree h (of_nat (b + 24)) = merge ?h (of_nat b)"
      using rfree_links[OF r(1) _ _ _ _ _ , of q h] apart(1)[OF qL] unfolding m_def by blast
    also have "\<dots> = Some ?h" unfolding b_def
      by (rule merge_alone[OF _ a0]) (use t' ends used room in \<open>simp_all add: blocks_end_append\<close>)
    finally show ?thesis .
  qed
  moreover have "m (of_nat x) = hmem h (of_nat x)" if x: "x \<in> payload a ?bs'" for x
  proof -
    have "x \<in> payload a pre \<union> payload (b + 8 * (n + 5)) post" using x by (simp add: payload_append b_def)
    then have rng: "x + 24 \<le> b \<or> b + 8 * (n + 5) \<le> x" "x < 2 ^ 64"
      using payload_range[of x a pre] payload_range[of x "b + 8 * (n + 5)" post] r(1) room
      by (auto simp: b_def blocks_end_append)
    have "q \<in> set (heads a ?bs')" using apart(2)[OF qL] by (auto simp: heads_append)
    then have "x \<noteq> q + 8" using link_not_payload x by blast
    then show ?thesis unfolding m_def using freed_mem_at[OF rng(2) r(1), of q] apart(1)[OF qL] rng(1) by auto
  qed
  ultimately show ?thesis using inv' by auto
qed

section \<open>Properties\<close>


text \<open>Three allocated blocks of one word, followed by a free block.\<close>

definition small_heap :: "Mmu \<Rightarrow> Heap" where
  "small_heap m = \<lparr>hmem = (\<lambda>x. if x \<in> {4096, 4112, 4128, 4136, 4144, 4160, 4176, 4184, 4192, 4208, 4224, 4232} then 1
       else if x = 4240 \<or> x = 4424 then 20 else 0),
     heap_base = 4096, linked_list_start = 4240, search_start = 4240, search_previous = 0, search_current = 4240,
     heap_end = 4440, hmmu = m\<rparr>"

lemma small_heap_inv: "heap_inv (small_heap m) 4096 ([(1, True)] @ (1, True) # [(1, True), (20, False)]) [4240] 0"
  by (auto simp: heap_inv_def tiled_def chained_def small_heap_def free_at_Cons)


text \<open>A heap of one page. A block of one word is allocated and released: it is merged with the free block
  behind it, and \<open>search_previous\<close> stays at the former address of that free block. A larger block is
  then allocated over that address, and its fifth word is written by its owner. \<open>corrupting_run\<close> returns
  the two blocks and that word after one more allocation.\<close>

definition empty_heap :: "Mmu \<Rightarrow> Heap" where
  "empty_heap m = \<lparr>hmem = (\<lambda>_. 0), heap_base = 0, linked_list_start = 0, search_start = 0, search_previous = 0,
     search_current = 0, heap_end = 0, hmmu = m\<rparr>"

definition corrupting_run :: "Heap \<Rightarrow> (u64 \<times> u64 \<times> u64) option" where
  "corrupting_run h = do {
     h1 \<leftarrow> init_heap h 4096 4096;
     (p, h2) \<leftarrow> rmalloc h1 8;
     h3 \<leftarrow> rfree h2 p;
     (q, h4) \<leftarrow> rmalloc h3 200;
     h5 \<leftarrow> wr h4 q 4 1;
     (r, h6) \<leftarrow> rmalloc h5 8;
     w \<leftarrow> rd h6 q 4;
     Some (q, r, w) }"

text \<open>A release followed by two allocations changes a word of an allocated payload: the owner of the block at 4120
  wrote 1, and the last allocation, which returned another block, left the address 4384 there.\<close>

theorem free_then_allocate_corrupts: "corrupting_run (empty_heap m) = Some (4120, 4360, 4384)"
  by code_simp

end
