(* ===== verification/Heap_Realloc.thy ===== *)
theory Heap_Realloc
  imports Heap
begin

text \<open>
  The rest of \<^verbatim>\<open>src/memory/heap.cpp\<close>: \<open>realloc\<close>, which no part of the kernel calls, and the functions for debugging.
\<close>

section \<open>Definitions\<close>

text \<open>\<open>memcpy\<close> between word addresses of the heap: the whole words, and the low bytes of the word behind them.\<close>

primrec copy_words :: "nat \<Rightarrow> Heap \<Rightarrow> u64 \<Rightarrow> u64 \<Rightarrow> u64 \<Rightarrow> Heap option" where
  "copy_words 0 h dest src i = Some h"
| "copy_words (Suc n) h dest src i = do {
     v \<leftarrow> rd h src i;
     h' \<leftarrow> wr h dest i v;
     copy_words n h' dest src (i + 1) }"

definition heap_memcpy :: "Heap \<Rightarrow> u64 \<Rightarrow> u64 \<Rightarrow> u64 \<Rightarrow> Heap option" where
  "heap_memcpy h dest src n = do {
     h1 \<leftarrow> copy_words (unat (n div 8)) h dest src 0;
     (if n mod 8 = 0 then Some h1
      else do {
        let m = mask (8 * unat (n mod 8));
        v \<leftarrow> rd h1 src (n div 8);
        d \<leftarrow> rd h1 dest (n div 8);
        wr h1 dest (n div 8) ((d AND NOT m) OR (v AND m)) }) }"

text \<open>The loop runs once for \<open>flag\<close> 1 and once for \<open>flag\<close> 0.\<close>

primrec realloc_loop :: "nat \<Rightarrow> Heap \<Rightarrow> u64 \<Rightarrow> u64 \<Rightarrow> u64 \<Rightarrow> Heap option" where
  "realloc_loop 0 h ptr blk_old new_size = Some h"
| "realloc_loop (Suc flag) h ptr blk_old new_size = do {
     (return_blk, h1) \<leftarrow> find_fit h new_size;
     h2 \<leftarrow> (if return_blk \<noteq> 0 then do { s \<leftarrow> rd h1 blk_old 0; heap_memcpy h1 return_blk ptr s } else Some h1);
     h3 \<leftarrow> expand_heap h2 new_size;
     realloc_loop flag h3 ptr blk_old new_size }"

definition realloc :: "Heap \<Rightarrow> u64 \<Rightarrow> u64 \<Rightarrow> (u64 \<times> Heap) option" where
  "realloc h ptr new_size = (let blk_old = at ptr (- 3) in
     if ptr = 0 then rmalloc h new_size
     else do {
       s \<leftarrow> rd h blk_old 0;
       (if s > new_size + OVERHEAD + 1 then do {
          (return_blk, h1) \<leftarrow> split_blk h new_size blk_old;
          h2 \<leftarrow> rebuild_list h1 return_blk;
          Some (return_blk, h2) }
        else do {
          h1 \<leftarrow> realloc_loop 2 h ptr blk_old new_size;
          Some (0, h1) }) })"

definition xorshift64 :: "u64 \<Rightarrow> u64" where
  "xorshift64 state = (let x1 = state XOR push_bit 13 state; x2 = x1 XOR drop_bit 7 x1 in x2 XOR push_bit 17 x2)"

text \<open>The remainder of a division by zero has no value.\<close>

definition randinrange :: "u64 \<Rightarrow> u64 \<Rightarrow> u64 \<Rightarrow> u64 option" where
  "randinrange lower upper rand = (if upper - lower + 1 = 0 then None else Some (rand mod (upper - lower + 1) + lower))"

text \<open>The function returns when the blocks are the same or apart, and loops for ever otherwise.\<close>

definition debug_bounds_check :: "u64 \<Rightarrow> u64 \<Rightarrow> u64 \<Rightarrow> unit option" where
  "debug_bounds_check a b size_b = (let blk1 = at a (- 3); blk2 = at b (- 3) in
     if blk1 = blk2 then Some ()
     else if blk1 \<ge> blk2 \<and> blk1 < at blk2 size_b then None else Some ())"

section \<open>Properties\<close>

text \<open>Growing a block never succeeds: whatever \<open>find_fit\<close> returns, the result is null, and the block it found stays used.\<close>

theorem realloc_never_grows:
  assumes "ptr \<noteq> 0" "rd h (at ptr (- 3)) 0 = Some s" "s \<le> new_size + OVERHEAD + 1" "realloc h ptr new_size = Some (q, h')"
  shows "q = 0"
proof -
  have "\<not> new_size + OVERHEAD + 1 < s" using assms(3) by (simp only: not_less)
  then show ?thesis using assms(1,2,4) by (auto simp: realloc_def Let_def bind_eq_Some_conv)
qed

text \<open>A number in a range that does not wrap around is within it.\<close>

theorem randinrange_in_range:
  assumes "lower \<le> upper" "upper - lower + 1 \<noteq> 0"
  shows "\<exists>x. randinrange lower upper rand = Some x \<and> lower \<le> x \<and> x \<le> upper"
proof -
  let ?d = "upper - lower"
  have d: "unat ?d = unat upper - unat lower" using assms(1) by (rule unat_sub)
  have u: "unat (?d + 1) = unat ?d + 1" using unatSuc[of ?d] assms(2) by (simp add: add.commute)
  define r where "r = rand mod (?d + 1)"
  have "unat r \<le> unat ?d" using u unfolding r_def unat_mod by (metis less_Suc_eq_le mod_less_divisor Suc_eq_plus1 zero_less_Suc)
  then have r: "unat r + unat lower \<le> unat upper" using d assms(1) by (simp add: word_le_nat_alt)
  have "unat upper < 2 ^ 64" using unsigned_less[of upper] by simp
  then have "unat (r + lower) = unat r + unat lower" using r by (intro unat_add_no_wrap) simp
  then show ?thesis using assms(2) r by (auto simp: randinrange_def r_def[symmetric] word_le_nat_alt)
qed

end
