(* ===== verification/Vector.thy ===== *)
theory Vector
  imports Cros_Prelude
begin

text \<open>
  The growing array, \<^verbatim>\<open>src/containers/vector.h\<close>, for element types without a destructor. Fresh
  elements have the value \<open>d\<close>; an access outside the array is the value \<open>None\<close>. The abstract
  content of a vector is the list of its first \<open>_size\<close> elements.
\<close>

section \<open>Operations\<close>

record 'a vector =
  v_array :: "'a list"
  v_capacity :: int
  v_size :: int

definition vector_init :: "'a \<Rightarrow> 'a vector" where
  "vector_init d = \<lparr>v_array = replicate 8 d, v_capacity = 8, v_size = 0\<rparr>"

definition vector_with :: "'a \<Rightarrow> int \<Rightarrow> 'a vector" where
  "vector_with d c = \<lparr>v_array = replicate (nat c) d, v_capacity = c, v_size = 0\<rparr>"

definition vector_index :: "'a vector \<Rightarrow> int \<Rightarrow> 'a option" where
  "vector_index v i = (if 0 \<le> i \<and> nat i < length (v_array v) then Some (v_array v ! nat i) else None)"

definition vector_store :: "'a list \<Rightarrow> int \<Rightarrow> 'a \<Rightarrow> 'a list option" where
  "vector_store xs i x = (if 0 \<le> i \<and> nat i < length xs then Some (xs[nat i := x]) else None)"

text \<open>The element loop of the copy constructor and of \<open>resize\<close>: \<open>k\<close> elements from position \<open>i\<close> on.\<close>

primrec copy_elems :: "nat \<Rightarrow> nat \<Rightarrow> 'a list \<Rightarrow> 'a list \<Rightarrow> 'a list option" where
  "copy_elems 0 i src dest = Some dest"
| "copy_elems (Suc k) i src dest = do {
     x \<leftarrow> (if i < length src then Some (src ! i) else None);
     dest' \<leftarrow> vector_store dest (int i) x;
     copy_elems k (i + 1) src dest' }"

definition vector_copy :: "'a \<Rightarrow> 'a vector \<Rightarrow> 'a vector option" where
  "vector_copy d other = do {
     a \<leftarrow> copy_elems (nat (v_size other)) 0 (v_array other) (replicate (nat (v_capacity other)) d);
     Some \<lparr>v_array = a, v_capacity = v_capacity other, v_size = v_size other\<rparr> }"

definition vector_empty :: "'a vector \<Rightarrow> bool" where "vector_empty v \<longleftrightarrow> v_size v = 0"

definition vector_resize :: "'a \<Rightarrow> 'a vector \<Rightarrow> int \<Rightarrow> 'a vector option" where
  "vector_resize d v new_capacity = do {
     temp \<leftarrow> copy_elems (nat (v_size v)) 0 (v_array v) (replicate (nat new_capacity) d);
     Some (v\<lparr>v_array := temp, v_capacity := new_capacity\<rparr>) }"

definition push_back :: "'a \<Rightarrow> 'a vector \<Rightarrow> 'a \<Rightarrow> 'a vector option" where
  "push_back d v x = do {
     v1 \<leftarrow> (if v_size v = v_capacity v then vector_resize d v (v_capacity v * 2) else Some v);
     a \<leftarrow> vector_store (v_array v1) (v_size v1) x;
     Some (v1\<lparr>v_array := a, v_size := v_size v1 + 1\<rparr>) }"

definition pop_back :: "'a vector \<Rightarrow> 'a vector option" where
  "pop_back v = do { x \<leftarrow> vector_index v (v_size v - 1); Some (v\<lparr>v_size := v_size v - 1\<rparr>) }"

definition vector_back :: "'a vector \<Rightarrow> 'a option" where
  "vector_back v = vector_index v (v_size v - 1)"

definition vector_clear :: "'a vector \<Rightarrow> 'a vector" where
  "vector_clear v = v\<lparr>v_size := 0\<rparr>"

section \<open>Vectors as lists\<close>

definition vec_inv :: "'a vector \<Rightarrow> bool" where
  "vec_inv v \<longleftrightarrow> 0 < v_capacity v \<and> v_capacity v = int (length (v_array v)) \<and> 0 \<le> v_size v \<and> v_size v \<le> v_capacity v"

definition elems :: "'a vector \<Rightarrow> 'a list" where "elems v = take (nat (v_size v)) (v_array v)"

lemma copy_elems_spec:
  "i + k \<le> length src \<Longrightarrow> i + k \<le> length dest \<Longrightarrow>
   copy_elems k i src dest = Some (take i dest @ take k (drop i src) @ drop (i + k) dest)"
proof (induction k arbitrary: i dest)
  case (Suc k)
  have e: "take (Suc k) (drop i src) = src ! i # take k (drop (i + 1) src)"
    using Suc.prems(1) by (simp add: Cons_nth_drop_Suc[symmetric])
  have "copy_elems k (i + 1) src (dest[i := src ! i])
    = Some (take (i + 1) (dest[i := src ! i]) @ take k (drop (i + 1) src) @ drop (i + 1 + k) (dest[i := src ! i]))"
    using Suc.prems by (intro Suc.IH) simp_all
  then show ?case using Suc.prems unfolding e
    by (simp add: vector_store_def take_Suc_conv_app_nth take_update_cancel)
qed simp

lemma resize_elems:
  assumes "vec_inv v" "v_size v \<le> c" "0 < c"
  shows "\<exists>v'. vector_resize d v c = Some v' \<and> vec_inv v' \<and> elems v' = elems v \<and> v_capacity v' = c \<and> v_size v' = v_size v"
proof -
  let ?k = "nat (v_size v)"
  have "?k \<le> length (v_array v)" "?k \<le> nat c" using assms by (auto simp: vec_inv_def)
  then have "copy_elems ?k 0 (v_array v) (replicate (nat c) d) = Some (elems v @ replicate (nat c - ?k) d)"
    using copy_elems_spec[of 0 ?k "v_array v" "replicate (nat c) d"] by (simp add: elems_def)
  moreover have "length (elems v) = ?k" using assms(1) by (auto simp: elems_def vec_inv_def)
  ultimately show ?thesis using assms by (auto simp: vector_resize_def vec_inv_def elems_def)
qed

lemma push_back_elems:
  assumes "vec_inv v"
  shows "\<exists>v'. push_back d v x = Some v' \<and> vec_inv v' \<and> elems v' = elems v @ [x]"
proof -
  have c: "0 < v_capacity v" "v_size v \<le> v_capacity v" using assms unfolding vec_inv_def by blast+
  have "\<exists>w. (if v_size v = v_capacity v then vector_resize d v (v_capacity v * 2) else Some v) = Some w
      \<and> vec_inv w \<and> elems w = elems v \<and> v_size w < v_capacity w"
    using assms c resize_elems[OF assms, of "v_capacity v * 2" d] by force
  then obtain w where w: "(if v_size v = v_capacity v then vector_resize d v (v_capacity v * 2) else Some v) = Some w"
    "vec_inv w" "elems w = elems v" "v_size w < v_capacity w" by blast
  have i: "nat (v_size w) < length (v_array w)" "0 \<le> v_size w" using w(2,4) by (auto simp: vec_inv_def)
  have "take (nat (v_size w + 1)) ((v_array w)[nat (v_size w) := x]) = elems v @ [x]"
    using i w(3) by (simp add: elems_def nat_add_distrib take_Suc_conv_app_nth take_update_cancel)
  then show ?thesis unfolding push_back_def w(1) using w(2,4) i by (auto simp: vector_store_def vec_inv_def elems_def)
qed



end
