(* ===== verification/Fat_Correct.thy ===== *)
theory Fat_Correct
  imports Fat32
begin

text \<open>
  What the file system guarantees: data written to an allocated sector of a file is read back and
  other sectors keep theirs; the clusters of a file are the chain of the FAT, with the end marker
  behind it when the chain has more than one; a read within one sector returns its bytes.
\<close>

section \<open>Geometry\<close>

definition geometry :: "FAT32 \<Rightarrow> bool" where
  "geometry s \<longleftrightarrow> dsector (di s) = bytes_per_sector s \<and> 0 < bytes_per_sector s \<and> 0 < sectors_per_cluster s"

lemma sdiv_nonneg: "0 \<le> (a :: int) \<Longrightarrow> 0 < b \<Longrightarrow> a sdiv b = a div b"
  by (cases "a = 0") (simp_all add: signed_divide_int_def)

lemma smod_nonneg: "0 \<le> (a :: int) \<Longrightarrow> 0 < b \<Longrightarrow> a smod b = a mod b"
  by (cases "a = 0") (simp_all add: signed_modulo_int_def)

lemma write_sector_spec:
  assumes "geometry s" "in_disk (di s) k" "length b = nat (bytes_per_sector s)"
  shows "\<exists>d. write_sector s k b = Some (s\<lparr>di := d\<rparr>) \<and> disk_read d k = Some b \<and> (\<forall>j. j \<noteq> k \<longrightarrow> disk_read d j = disk_read (di s) j)
    \<and> dsector d = dsector (di s) \<and> (\<forall>j. in_disk d j = in_disk (di s) j)"
proof -
  have l: "length b = nat (dsector (di s))" "0 < dsector (di s)" using assms(1,3) by (auto simp: geometry_def)
  then obtain d where d: "disk_write (di s) k b = Some d" using assms(2) by (auto simp: disk_write_def)
  then have "dsector d = dsector (di s)" "\<forall>j. in_disk d j = in_disk (di s) j" by (auto simp: disk_write_def in_disk_def split: if_splits)
  then show ?thesis using d disk_read_after_write[OF d l] disk_read_other[OF d _ l(2)] by (auto simp: write_sector_def)
qed

lemma disk_read_some:
  "geometry s \<Longrightarrow> in_disk (di s) k \<Longrightarrow> \<exists>b. disk_read (di s) k = Some b \<and> length b = nat (bytes_per_sector s)"
  by (auto simp: disk_read_def geometry_def)

lemma data_size_some: "n \<le> length b \<Longrightarrow> \<exists>k. data_size n b = Some k"
  by (induction n) (auto simp: byte_at_def)

section \<open>File data\<close>

lemma update_size_spec:
  assumes g: "geometry s" and x: "objects s e = Some x" and d: "length data = nat (bytes_per_sector s)"
    and own: "in_disk (di s) (sector_of s (byte_offset x))"
    and o': "0 \<le> in_sector s (byte_offset x)" "in_sector s (byte_offset x) + 32 \<le> bytes_per_sector s"
  shows "\<exists>s' x' d'. update_size s e k data = Some s' \<and> s' = s\<lparr>di := d', objects := (objects s)(e \<mapsto> x')\<rparr>
    \<and> etype x' = etype x \<and> fat_allocations x' = fat_allocations x
    \<and> (\<forall>j. j \<noteq> sector_of s (byte_offset x) \<longrightarrow> disk_read d' j = disk_read (di s) j)"
proof (cases "file_size_bytes x < (k + 1) * bytes_per_sector s")
  case False
  have "s = s\<lparr>di := di s, objects := (objects s)(e \<mapsto> x)\<rparr>" using x by (simp add: fun_upd_idem)
  then show ?thesis using False x by (auto simp: update_size_def Let_def intro!: exI[of _ x] exI[of _ "di s"])
next
  case True
  obtain n where n: "data_size (nat (bytes_per_sector s)) data = Some n" using data_size_some[of _ data] d by auto
  define x' where "x' = x\<lparr>file_size_bytes := k * bytes_per_sector s + n\<rparr>"
  define s1 where "s1 = s\<lparr>objects := (objects s)(e \<mapsto> x')\<rparr>"
  have m: "modify s e (\<lambda>x. x\<lparr>file_size_bytes := k * bytes_per_sector s + n\<rparr>) = Some s1" by (simp add: modify_def x s1_def x'_def)
  have g1: "geometry s1" "di s1 = di s" using g by (simp_all add: geometry_def s1_def)
  obtain b where b: "disk_read (di s) (sector_of s (byte_offset x)) = Some b" "length b = nat (bytes_per_sector s)"
    using disk_read_some[OF g own] by auto
  let ?v = "word_of_int ((k + 1) * bytes_per_sector s) :: u32" and ?o = "28 + in_sector s (byte_offset x)"
  have l: "0 \<le> ?o" "nat ?o + 4 \<le> length b" using o' b(2) by auto
  obtain b' where b': "int_to_bytes ?v b ?o = Some b'" "length b' = length b"
    using put_bytes_spec[OF l, of ?v] temp_put_bytes(2)[OF l, of ?v] by (auto simp: int_to_bytes_def)
  obtain d' where "write_sector s1 (sector_of s (byte_offset x)) b' = Some (s1\<lparr>di := d'\<rparr>)"
    "\<forall>j. j \<noteq> sector_of s (byte_offset x) \<longrightarrow> disk_read d' j = disk_read (di s) j"
    using write_sector_spec[OF g1(1), of "sector_of s (byte_offset x)" b'] own b(2) b'(2) g1(2) by (auto simp: s1_def)
  moreover have "s1\<lparr>di := d'\<rparr> = s\<lparr>di := d', objects := (objects s)(e \<mapsto> x')\<rparr>" by (simp add: s1_def)
  moreover have "update_size s e k data = write_sector s1 (sector_of s (byte_offset x)) b'"
    unfolding update_size_def x bind.bind_lunit Let_def if_P[OF True] n m g1(2) b(1) b'(1) ..
  moreover have "etype x' = etype x" "fat_allocations x' = fat_allocations x" by (simp_all add: x'_def)
  ultimately show ?thesis by metis
qed

lemma target_sector_same [simp]:
  "target_sector (s\<lparr>di := d\<rparr>) = target_sector s" "target_sector (s\<lparr>objects := f\<rparr>) = target_sector s"
  "sector_of (s\<lparr>di := d\<rparr>) = sector_of s" "in_sector (s\<lparr>di := d\<rparr>) = in_sector s"
  by (simp_all add: fun_eq_iff target_sector_def fat_entry_to_cluster_offset_def sector_of_def in_sector_def)

text \<open>C10: Data written to a sector that is allocated to a file is read back from it, and reading any other sector of the disk,
  apart from the one with the directory entry of the file, gives what it gave before.\<close>

theorem write_then_read:
  assumes g: "geometry s" and x: "objects s e = Some x" "etype x = FILE" and d: "length data = nat (bytes_per_sector s)"
    and k: "0 \<le> k" "k div sectors_per_cluster s < int (length (fat_allocations x))"
    and own: "in_disk (di s) (sector_of s (byte_offset x))"
    and o': "0 \<le> in_sector s (byte_offset x)" "in_sector s (byte_offset x) + 32 \<le> bytes_per_sector s"
    and t: "t = target_sector s (fat_allocations x ! nat (k div sectors_per_cluster s)) k"
      "in_disk (di s) t" "t \<noteq> sector_of s (byte_offset x)"
  shows "\<exists>s'. write_data s e k data = Some (True, s') \<and> read_data s' e k = Some (Some data)
    \<and> (\<forall>j. j \<noteq> t \<and> j \<noteq> sector_of s (byte_offset x) \<longrightarrow> disk_read (di s') j = disk_read (di s) j)"
proof -
  let ?q = "k div sectors_per_cluster s"
  have spc: "0 < sectors_per_cluster s" using g by (simp add: geometry_def)
  have q: "k sdiv sectors_per_cluster s = ?q" "0 \<le> ?q" using sdiv_nonneg[OF k(1) spc] k(1) spc by (simp_all add: pos_imp_zdiv_nonneg_iff)
  have at: "vector_at (fat_allocations x) ?q = Some (fat_allocations x ! nat ?q)" using k(2) q(2) by (auto simp: vector_at_def)
  obtain d1 where d1: "write_sector s t data = Some (s\<lparr>di := d1\<rparr>)" "disk_read d1 t = Some data"
    "\<forall>j. j \<noteq> t \<longrightarrow> disk_read d1 j = disk_read (di s) j" "dsector d1 = dsector (di s)" "\<forall>j. in_disk d1 j = in_disk (di s) j"
    using write_sector_spec[OF g t(2) d] by blast
  let ?s2 = "s\<lparr>di := d1\<rparr>"
  have g2: "geometry ?s2" using g d1(4) by (simp add: geometry_def)
  obtain s' x' d' where s': "update_size ?s2 e k data = Some s'" "s' = ?s2\<lparr>di := d', objects := (objects ?s2)(e \<mapsto> x')\<rparr>"
    "etype x' = etype x" "fat_allocations x' = fat_allocations x"
    "\<forall>j. j \<noteq> sector_of s (byte_offset x) \<longrightarrow> disk_read d' j = disk_read d1 j"
    using update_size_spec[OF g2, of e x data k] x d own o' d1(5) by auto
  have "write_data s e k data = Some (True, s')"
    using k(2) at d1(1) s'(1) t(1) x by (simp add: write_data_def Let_def q(1))
  moreover have "disk_read d' t = Some data" using s'(5) t(3) d1(2) by simp
  then have "read_data s' e k = Some (Some data)"
    using x s'(3,4) k(2) at q(1) t(1) by (simp add: read_data_def s'(2) Let_def)
  ultimately show ?thesis using s'(2,5) d1(3) by auto
qed

section \<open>Cluster chains\<close>

definition fat_value :: "FAT32 \<Rightarrow> u32 \<Rightarrow> u32 option" where
  "fat_value s n = do { b \<leftarrow> disk_read (di s) (fat_sector s n); bytes_to_int b (fat_in_sector s n) }"

text \<open>A chain of the FAT with the value that ends it.\<close>

fun fat_chain :: "FAT32 \<Rightarrow> u32 list \<Rightarrow> u32 \<Rightarrow> bool" where
  "fat_chain s [] z = False"
| "fat_chain s [c] z = (fat_value s c = Some z \<and> check_fat_entry_type s z \<noteq> ALLOCATED)"
| "fat_chain s (c # c' # cs) z = (fat_value s c = Some c' \<and> check_fat_entry_type s c' = ALLOCATED \<and> fat_chain s (c' # cs) z)"

lemma follow_chain_spec:
  assumes "fat_chain s (c # cs) z" "disk_read (di s) (fat_sector s c) = Some b"
  shows "follow_chain s b c (fat_sector s c) ALLOCATED acc = Some (acc @ map sint (c # cs @ [z]))"
  using assms
proof (induction cs arbitrary: c b acc)
  case Nil
  then have v: "bytes_to_int b (fat_in_sector s c) = Some z" "check_fat_entry_type s z \<noteq> ALLOCATED" by (auto simp: fat_value_def)
  show ?case by (subst follow_chain.simps) (use v in \<open>simp add: Let_def follow_chain.simps[of _ _ z]\<close>)
next
  case (Cons c' cs)
  then have v: "bytes_to_int b (fat_in_sector s c) = Some c'" "check_fat_entry_type s c' = ALLOCATED" "fat_chain s (c' # cs) z"
    by (auto simp: fat_value_def)
  obtain b' where b': "disk_read (di s) (fat_sector s c') = Some b'"
    using v(3) by (cases cs) (auto simp: fat_value_def bind_eq_Some_conv)
  have "(if fat_sector s c' \<noteq> fat_sector s c then disk_read (di s) (fat_sector s c') else Some b) = Some b'"
    using b' Cons.prems(2) by auto
  then show ?case using v(1,2) Cons.IH[OF v(3) b', of "acc @ [sint c]"] by (subst follow_chain.simps) (simp add: Let_def)
qed

text \<open>C28: A file of a single cluster has that cluster as its allocation. For a longer chain of the FAT the allocations are the
  clusters of the chain, in order, followed by the value that ends the chain, as if it were a
  cluster of the file too.\<close>

theorem cluster_chain_found:
  assumes "fat_chain s (c # cs) z" "c \<noteq> 0" "objects s e = Some x" "fat_allocations x = []"
  shows "find_cluster_allocations s e c
    = Some (s\<lparr>objects := (objects s)(e \<mapsto> x\<lparr>fat_allocations := (if cs = [] then [sint c] else map sint (c # cs @ [z]))\<rparr>)\<rparr>)"
proof -
  obtain v where v: "fat_value s c = Some v" "(check_fat_entry_type s v = ALLOCATED) = (cs \<noteq> [])"
    using assms(1) by (cases cs) auto
  then obtain b where b: "disk_read (di s) (fat_sector s c) = Some b" "bytes_to_int b (fat_in_sector s c) = Some v"
    by (auto simp: fat_value_def bind_eq_Some_conv)
  have "follow_chain s b c (fat_sector s c) (check_fat_entry_type s v) [] = Some (if cs = [] then [sint c] else map sint (c # cs @ [z]))"
  proof (cases "cs = []")
    case True
    then show ?thesis using v(2) by (subst follow_chain.simps) simp
  next
    case False
    then show ?thesis using v(2) follow_chain_spec[OF assms(1) b(1), of "[]"] by simp
  qed
  then show ?thesis using assms(2-4) b by (simp add: find_cluster_allocations_def modify_def)
qed

section \<open>File contexts\<close>

lemma uint_u32: "0 \<le> x \<Longrightarrow> x < 2 ^ 32 \<Longrightarrow> uint (word_of_int x :: u32) = x"
  by (simp add: uint_word_of_int take_bit_int_eq_self)

lemma sint_u32:
  assumes "uint (w :: u32) < 2 ^ 31"
  shows "sint w = uint w"
proof -
  have "sint w = signed_take_bit 31 (uint w)" by (simp add: sint_uint)
  also have "\<dots> = uint w" using assms uint_ge_0[of w] by (intro signed_take_bit_int_eq_self) linarith+
  finally show ?thesis .
qed

lemma fat_read_step:
  assumes p_def: "p = uint (fpos f)" and B_def: "B = get_sector_size s"
    and B: "0 < B" "B < 2 ^ 31" and n: "0 \<le> cnt" "cnt < n" "n < 2 ^ 31" and p: "p < 2 ^ 31" and ls: "lastSector f = - 1"
    and b: "read_file s (fpath f) (p div B) = Some (Some b)" "length b = nat (B)"
    and c: "c = min n (B - p mod B)"
  shows "fat_read_loop s f n (word_of_int cnt) out
    = fat_read_loop s (f\<lparr>sectorBuffer := Some b, fpos := fpos f + word_of_int c\<rparr>) n (word_of_int (cnt + c)) (out @ take (nat c) (drop (nat (p mod B)) b))"
proof -
  have p0: "0 \<le> p" by (simp add: p_def)
  have uB: "uint (word_of_int (B) :: u32) = B" using B by (intro uint_u32) auto
  have q: "sint (fpos f div word_of_int (B)) = p div B"
  proof -
    have u: "uint (fpos f div word_of_int (B)) = p div B" by (simp add: uint_div uB p_def)
    have "p div B \<le> p div 1" using p0 B(1) by (intro zdiv_mono2) auto
    then show ?thesis using sint_u32[of "fpos f div word_of_int (B)"] u p by simp
  qed
  have o': "sint (fpos f mod word_of_int (B)) = p mod B"
  proof -
    have u: "uint (fpos f mod word_of_int (B)) = p mod B" by (simp add: uint_mod uB p_def)
    have "p mod B < B" using B(1) by simp
    then show ?thesis using sint_u32[of "fpos f mod word_of_int (B)"] u B(2) by simp
  qed
  have lt: "(word_of_int cnt :: u32) < word_of_int n"
    unfolding word_less_alt using n by (simp add: uint_u32)
  have m: "0 \<le> p mod B" "p mod B < B" using B(1) by simp_all
  have c0: "0 < c" "p mod B + c \<le> B" using c n m by auto
  have tb: "temp_bytes (nat c) b (p mod B) = Some (take (nat c) (drop (nat (p mod B)) b))"
    using m c0 b(2) by (intro temp_bytes_spec) auto
  have ld: "load_sector s f (p div B) = Some (True, f\<lparr>sectorBuffer := Some b\<rparr>)"
    using ls b(1) p0 B(1) pos_imp_zdiv_nonneg_iff[OF B(1), of p] by (auto simp: load_sector_def)
  have ce: "(if n > B - p mod B then B - p mod B else n) = c" using c by auto
  show ?thesis
    unfolding fat_read_loop.simps[of s f] if_P[OF lt] Let_def B_def[symmetric] q o' ld bind.bind_lunit prod.case ce
    using c0 tb by simp
qed

lemma fat_read_done:
  assumes "0 \<le> n" "n \<le> cnt" "cnt < 2 ^ 32"
  shows "fat_read_loop s f n (word_of_int cnt) out = Some (word_of_int cnt, out, f)"
proof -
  have "\<not> (word_of_int cnt :: u32) < word_of_int n" unfolding word_less_alt using assms by (simp add: uint_u32)
  then show ?thesis by (subst fat_read_loop.simps) simp
qed

lemma read_prefix:
  assumes "file_size s (fpath f) = Some (Some sz)" "uint (fpos f) + n \<le> sz" "0 < n" "sz < 2 ^ 31"
    "fat_read_loop s f n 0 [] = Some (count, out, f1)"
  shows "FileContextFAT32_read s f n = Some (sint count, out, f1)"
proof -
  have le: "n \<le> sz" using assms(2) uint_ge_0[of "fpos f"] by linarith
  then have bd: "0 \<le> sz" "sz < 2 ^ 32" "n < 2 ^ 32" using assms(3,4) by simp_all
  have z: "uint (word_of_int sz :: u32) = sz" "uint (word_of_int n :: u32) = n" using assms(3) bd by (simp_all add: uint_u32)
  have "\<not> word_of_int sz \<le> fpos f" unfolding word_le_def z using assms by linarith
  moreover have "uint (fpos f + word_of_int n) = uint (fpos f) + n"
    using assms z(2) by (subst uint_plus_if') auto
  then have "\<not> word_of_int sz < fpos f + word_of_int n" unfolding word_less_alt z(1) using assms by linarith
  ultimately show ?thesis using assms(1,5) by (simp add: FileContextFAT32_read_def)
qed

text \<open>C29: A read from an open FAT32 file that stays within one sector and the file returns the number of bytes asked for, copies
  exactly these bytes of the file and moves the position behind them.\<close>

theorem fat_read_within_sector:
  fixes f :: FileContextFAT32
  defines "p \<equiv> uint (fpos f)"
  assumes "file_size s (fpath f) = Some (Some sz)" "p + n \<le> sz" "0 < n" "sz < 2 ^ 31" "lastSector f = - 1"
    and B: "0 < get_sector_size s" "get_sector_size s < 2 ^ 31" "p mod get_sector_size s + n \<le> get_sector_size s"
    and b: "read_file s (fpath f) (p div get_sector_size s) = Some (Some b)" "length b = nat (get_sector_size s)"
  shows "\<exists>f'. FileContextFAT32_read s f n = Some (n, take (nat n) (drop (nat (p mod get_sector_size s)) b), f')
    \<and> uint (fpos f') = p + n \<and> fpath f' = fpath f \<and> lastSector f' = lastSector f"
proof -
  have pe: "p = uint (fpos f)" and p0: "0 \<le> p" by (simp_all add: p_def)
  have n: "n < 2 ^ 31" "p < 2 ^ 31" using assms p0 by linarith+
  let ?f = "f\<lparr>sectorBuffer := Some b, fpos := fpos f + word_of_int n\<rparr>"
  have "fat_read_loop s f n 0 [] = Some (word_of_int n, take (nat n) (drop (nat (p mod get_sector_size s)) b), ?f)"
    using fat_read_step[OF pe refl B(1,2) _ _ n assms(6) b, of 0 n "[]"] fat_read_done[of n n s ?f] assms(4) B(3) n(1)
    by (simp add: min_absorb1)
  from read_prefix[OF assms(2) _ assms(4,5) this]
  have "FileContextFAT32_read s f n = Some (n, take (nat n) (drop (nat (p mod get_sector_size s)) b), ?f)"
    using assms n by (simp add: sint_u32 uint_u32 p_def)
  moreover have "uint (fpos ?f) = p + n"
    using assms n p0 uint_plus_if'[of "fpos f" "word_of_int n"] by (simp add: uint_u32 p_def)
  ultimately show ?thesis by auto
qed

text \<open>A read that crosses the end of a sector copies more bytes than were asked for: the second turn of the loop again takes
  the full count, so that the result exceeds the buffer of the caller by the bytes of the first
  sector.\<close>

theorem fat_read_overruns:
  fixes f :: FileContextFAT32
  defines "p \<equiv> uint (fpos f)"
  assumes "file_size s (fpath f) = Some (Some sz)" "p + n \<le> sz" "0 < n" "sz < 2 ^ 30" "lastSector f = - 1"
    and B: "0 < get_sector_size s" "get_sector_size s < 2 ^ 30" "n \<le> get_sector_size s"
      "get_sector_size s < p mod get_sector_size s + n"
    and b: "read_file s (fpath f) (p div get_sector_size s) = Some (Some b)" "length b = nat (get_sector_size s)"
      "read_file s (fpath f) (p div get_sector_size s + 1) = Some (Some b')" "length b' = nat (get_sector_size s)"
  shows "\<exists>r out f'. FileContextFAT32_read s f n = Some (r, out, f') \<and> r = n + (get_sector_size s - p mod get_sector_size s)
    \<and> int (length out) = r \<and> n < r"
proof -
  let ?B = "get_sector_size s"
  define c where "c = ?B - p mod ?B"
  have pe: "p = uint (fpos f)" and p0: "0 \<le> p" by (simp_all add: p_def)
  have n: "n < 2 ^ 30" "p < 2 ^ 30" using assms p0 by linarith+
  have c: "0 < c" "c < n" "c \<le> ?B" using B p0 by (auto simp: c_def)
  have n31: "n < 2 ^ 31" "p < 2 ^ 31" and B31: "0 < ?B" "?B < 2 ^ 31" and pc: "p + c < 2 ^ 31" using n B c by simp_all
  let ?f = "f\<lparr>sectorBuffer := Some b, fpos := fpos f + word_of_int c\<rparr>"
  let ?o = "take (nat c) (drop (nat (p mod ?B)) b)"
  have up: "uint (fpos ?f) = p + c"
    using assms n p0 c uint_plus_if'[of "fpos f" "word_of_int c"] by (simp add: uint_u32 p_def)
  have e: "p + c = (p div ?B + 1) * ?B" unfolding c_def using div_mult_mod_eq[of p ?B] by (simp add: algebra_simps)
  have dm: "(p + c) div ?B = p div ?B + 1" "(p + c) mod ?B = 0" unfolding e using B(1) by simp_all
  have s1: "fat_read_loop s f n 0 [] = fat_read_loop s ?f n (word_of_int c) ?o"
    using fat_read_step[OF pe refl B31 _ _ n31 assms(6) b(1,2), of 0 c "[]"] assms(4) c by (simp add: c_def[symmetric] min_absorb2)
  let ?g = "?f\<lparr>sectorBuffer := Some b', fpos := fpos ?f + word_of_int n\<rparr>"
  have "fat_read_loop s ?f n (word_of_int c) ?o = fat_read_loop s ?g n (word_of_int (c + n)) (?o @ take (nat n) b')"
    using fat_read_step[OF up[symmetric] refl B31 _ _ n31(1), of c b' n ?o] pc assms(6) b(3,4) dm c B(3)
    by (simp add: min_absorb1)
  then have l: "fat_read_loop s f n 0 [] = Some (word_of_int (c + n), ?o @ take (nat n) b', ?g)"
    using s1 fat_read_done[of n "c + n" s ?g] n c B by simp
  have "uint (word_of_int (c + n) :: u32) = c + n" using n c B by (intro uint_u32) simp_all
  then have "sint (word_of_int (c + n) :: u32) = c + n" using n c B by (subst sint_u32) simp_all
  then have "FileContextFAT32_read s f n = Some (c + n, ?o @ take (nat n) b', ?g)"
    using read_prefix[OF assms(2) _ assms(4) _ l] assms(3,5) pe by (simp del: of_int_add)
  moreover have "int (length (?o @ take (nat n) b')) = c + n"
    using b(2,4) B c p0 by (simp add: c_def min_def nat_le_iff) 
  ultimately show ?thesis using c by (auto simp: c_def)
qed

section \<open>A small disk\<close>

text \<open>Ten sectors of 64 bytes, the FAT in sector 1 with the chain 2, 3, and a file at the start of
  sector 0 that has these two clusters, which are the sectors 4 and 5.\<close>

definition tiny_file :: Entry where
  "tiny_file = Entry_default\<lparr>ename := [0x61], file_size_bytes := 128, parent_dir := Some 0, fat_allocations := [2, 3]\<rparr>"

definition tiny_fs :: FAT32 where
  "tiny_fs = \<lparr>di = \<lparr>dmem = (\<lambda>i. if i = 72 then 3 else if 76 \<le> i \<and> i < 80 then 0xFF else 0), dsize = 640, dsector = 64\<rparr>,
     objects = [0 \<mapsto> Entry_default\<lparr>etype := ROOT, sub_dirs := [1]\<rparr>, 1 \<mapsto> tiny_file, 2 \<mapsto> Entry_default],
     fresh_entry = 3, root_dir = 0, data_region_start_cluster_offset = 4, bytes_per_fat_entry = 4, bytes_per_dir_entry = 32,
     bytes_per_cluster = 64, bytes_per_sector = 64, sectors_per_cluster = 1, sectors_per_fat = 1, reserved_sectors = 1,
     reserved_fat_entries = 2, total_sectors = 10, fat_count = 1, stray = (\<lambda>t i. 0)\<rparr>"

theorem write_then_read_witness:
  "\<exists>s'. write_data tiny_fs 1 1 (replicate 64 7) = Some (True, s') \<and> read_data s' 1 1 = Some (Some (replicate 64 7))"
  using write_then_read[of tiny_fs 1 tiny_file "replicate 64 7" 1 5]
  by (simp add: tiny_fs_def tiny_file_def Entry_default_def geometry_def in_disk_def sector_of_def in_sector_def
      target_sector_def fat_entry_to_cluster_offset_def smod_nonneg sdiv_nonneg) blast

lemma tiny_chain: "fat_chain tiny_fs [2, 3] 0xFFFFFFFF"
  by (code_simp)

theorem cluster_chain_found_witness:
  "\<exists>s'. find_cluster_allocations tiny_fs 2 2 = Some s' \<and> map_option fat_allocations (objects s' 2) = Some [2, 3, - 1]"
  using cluster_chain_found[OF tiny_chain, of 2 Entry_default] by (simp add: tiny_fs_def Entry_default_def)

theorem fat_read_within_sector_witness:
  "\<exists>f'. FileContextFAT32_read tiny_fs (FileContextFAT32_init [0x2F, 0x61]) 4 = Some (4, replicate 4 0, f')"
proof -
  have "read_file tiny_fs [0x2F, 0x61] 0 = Some (Some (replicate 64 0))" by code_simp
  moreover have "file_size tiny_fs [0x2F, 0x61] = Some (Some 128)" by code_simp
  moreover have "get_sector_size tiny_fs = 64" by code_simp
  ultimately show ?thesis
    using fat_read_within_sector[of tiny_fs "FileContextFAT32_init [0x2F, 0x61]" 128 4 "replicate 64 0"]
    by (auto simp: FileContextFAT32_init_def)
qed

theorem fat_read_overruns_witness:
  "\<exists>r out f'. FileContextFAT32_read tiny_fs ((FileContextFAT32_init [0x2F, 0x61])\<lparr>fpos := 60\<rparr>) 8 = Some (r, out, f')
    \<and> r = 12 \<and> length out = 12"
proof -
  have "read_file tiny_fs [0x2F, 0x61] 0 = Some (Some (replicate 64 0))" "read_file tiny_fs [0x2F, 0x61] 1 = Some (Some (replicate 64 0))"
    by code_simp+
  moreover have "file_size tiny_fs [0x2F, 0x61] = Some (Some 128)" by code_simp
  moreover have "get_sector_size tiny_fs = 64" by code_simp
  ultimately show ?thesis
    using fat_read_overruns[of tiny_fs "(FileContextFAT32_init [0x2F, 0x61])\<lparr>fpos := 60\<rparr>" 128 8 "replicate 64 0" "replicate 64 0"]
    by (auto simp: FileContextFAT32_init_def)
qed

end
