(* ===== verification/Fat_Names.thy ===== *)
theory Fat_Names
  imports Fat_Correct
begin

text \<open>
  Long file names on disk: what \<open>write_long_name_entry\<close> stores, \<open>parse_long_name\<close> reads back, for
  every name of at most thirteen characters, of which the long name entries of a file hold one
  each.
\<close>

section \<open>Buffers\<close>

lemma byte_at_put: "put_byte b i v = Some b' \<Longrightarrow> byte_at b' j = (if j = i then Some v else byte_at b j) \<and> length b' = length b"
  by (auto simp: put_byte_def byte_at_def split: if_splits)

lemma put_byte_some: "0 \<le> i \<Longrightarrow> i < int (length b) \<Longrightarrow> \<exists>b'. put_byte b i v = Some b'"
  by (auto simp: put_byte_def)

lemma put_all_append: "put_all b (ps @ qs) = Option.bind (put_all b ps) (\<lambda>b'. put_all b' qs)"
proof (induction ps arbitrary: b)
  case (Cons p ps)
  then show ?case by (cases p) (auto simp: bind_eq_Some_conv split: bind_splits)
qed simp

text \<open>Assignments within the bounds succeed and change only the positions they name.\<close>

lemma put_all_some:
  assumes "\<forall>(i, v) \<in> set ps. 0 \<le> i \<and> i < int (length b)"
  shows "\<exists>b'. put_all b ps = Some b' \<and> length b' = length b \<and> (\<forall>j. j \<notin> fst ` set ps \<longrightarrow> byte_at b' j = byte_at b j)"
  using assms
proof (induction ps arbitrary: b)
  case (Cons p ps)
  obtain i v where p: "p = (i, v)" by (cases p)
  obtain b1 where b1: "put_byte b i v = Some b1" using Cons.prems put_byte_some[of i b v] by (auto simp: p)
  note e = byte_at_put[OF b1]
  from Cons.IH[of b1] Cons.prems e obtain b' where "put_all b1 ps = Some b'" "length b' = length b"
    "\<forall>j. j \<notin> fst ` set ps \<longrightarrow> byte_at b' j = byte_at b1 j" by auto
  then show ?case using b1 e by (auto simp: p)
qed simp

lemma put_all_single:
  assumes "0 \<le> i" "i < int (length b)"
  shows "\<exists>b'. put_all b [(i, v)] = Some b' \<and> length b' = length b \<and> (\<forall>j. byte_at b' j = (if j = i then Some v else byte_at b j))"
  using put_byte_some[OF assms, of v] byte_at_put by fastforce

section \<open>Pieces\<close>

definition piece_byte :: "u8 list \<Rightarrow> nat \<Rightarrow> u8" where
  "piece_byte part i = (if i < length part then part ! i else if i = length part then 0 else 0xFF)"

lemma piece_put:
  assumes "0 \<le> base" "base + 2 * int n \<le> int (length b)"
  shows "\<exists>b'. put_all b (piece_puts base part n) = Some b' \<and> length b' = length b
    \<and> (\<forall>j. j < base \<or> base + 2 * int n \<le> j \<longrightarrow> byte_at b' j = byte_at b j)
    \<and> (\<forall>i < n. byte_at b' (base + 2 * int i) = Some (piece_byte part i)
         \<and> byte_at b' (base + 2 * int i + 1) = (if length part < i then Some 0xFF else byte_at b (base + 2 * int i + 1)))"
  using assms
proof (induction n)
  case 0
  then show ?case by (simp add: piece_puts_def)
next
  case (Suc n)
  then obtain b1 where b1: "put_all b (piece_puts base part n) = Some b1" "length b1 = length b"
    "\<forall>j. j < base \<or> base + 2 * int n \<le> j \<longrightarrow> byte_at b1 j = byte_at b j"
    "\<forall>i < n. byte_at b1 (base + 2 * int i) = Some (piece_byte part i)
         \<and> byte_at b1 (base + 2 * int i + 1) = (if length part < i then Some 0xFF else byte_at b (base + 2 * int i + 1))"
    by auto
  let ?k = "base + int n * 2"
  obtain b2 where b2: "put_byte b1 ?k (piece_byte part n) = Some b2" using put_byte_some[of ?k b1] Suc.prems b1(2) by auto
  note e2 = byte_at_put[OF b2]
  obtain b3 where b3: "put_byte b2 (?k + 1) 0xFF = Some b3" using put_byte_some[of "?k + 1" b2] Suc.prems b1(2) e2 by auto
  note e3 = byte_at_put[OF b3]
  have "put_all b (piece_puts base part (Suc n)) = Some (if length part < n then b3 else b2)"
    using b1(1) b2 b3 by (auto simp: piece_puts_def put_all_append piece_byte_def)
  moreover have "length (if length part < n then b3 else b2) = length b" using e2 e3 b1(2) by auto
  moreover have "byte_at (if length part < n then b3 else b2) j = byte_at b j" if "j < base \<or> base + 2 * int (Suc n) \<le> j" for j
    using that e2 e3 b1(3) by auto
  moreover have "byte_at (if length part < n then b3 else b2) (base + 2 * int i) = Some (piece_byte part i)
      \<and> byte_at (if length part < n then b3 else b2) (base + 2 * int i + 1)
        = (if length part < i then Some 0xFF else byte_at b (base + 2 * int i + 1))" if i: "i < Suc n" for i
  proof (cases "i = n")
    case True
    then show ?thesis using e2 e3 b1(3) by (auto simp: mult.commute)
  next
    case False
    then have l: "i < n" using i by simp
    have "base + 2 * int i \<noteq> ?k" "base + 2 * int i \<noteq> ?k + 1" "base + 2 * int i + 1 \<noteq> ?k" "base + 2 * int i + 1 \<noteq> ?k + 1"
      using l by presburger+
    then show ?thesis using e2 e3 b1(4) l by auto
  qed
  ultimately show ?case by blast
qed

lemma unicode_simps [simp]:
  "chars_to_unicode 0xFF 0xFF = 0xFFFF" "chars_to_unicode c 0 \<noteq> 0xFFFF"
proof -
  show "chars_to_unicode 0xFF 0xFF = 0xFFFF" by (simp add: chars_to_unicode_def push_bit_eq_mult)
  have "bit (0xFFFF :: u32) 0" by simp
  moreover have "\<not> bit (chars_to_unicode c 0) 0" by (simp add: chars_to_unicode_def bit_simps)
  ultimately show "chars_to_unicode c 0 \<noteq> 0xFFFF" by metis
qed

lemma collect_piece:
  assumes "0 \<notin> set part" "length part \<le> n" "k \<le> n"
    "\<forall>i < n. byte_at b (base + 2 * int i) = Some (piece_byte part i)
       \<and> byte_at b (base + 2 * int i + 1) = Some (if length part < i then 0xFF else 0)"
  shows "collect_unicode b (map (\<lambda>i. base + 2 * int i) [k..<n]) acc = Some (acc @ drop k part)"
  using assms(3)
proof (induction "n - k" arbitrary: k acc)
  case 0
  then show ?case using assms(2) by simp
next
  case (Suc m)
  then have k: "k < n" by simp
  then have up: "[k..<n] = k # [Suc k..<n]" by (simp add: upt_conv_Cons)
  have IH: "collect_unicode b (map (\<lambda>i. base + 2 * int i) [Suc k..<n]) acc' = Some (acc' @ drop (Suc k) part)" for acc'
    using Suc by simp
  have bt: "byte_at b (base + 2 * int k) = Some (piece_byte part k)"
    "byte_at b (base + 2 * int k + 1) = Some (if length part < k then 0xFF else 0)" using assms(4) k by auto
  consider "k < length part" | "k = length part" | "length part < k" by linarith
  then show ?case
  proof cases
    case 1
    then have "part ! k \<noteq> 0" using assms(1) nth_mem[of k part] by metis
    then show ?thesis using bt 1 by (simp add: up IH piece_byte_def txt_add_def Cons_nth_drop_Suc)
  next
    case 2
    then have e: "length part = k" by simp
    show ?thesis unfolding up using bt IH[of acc] by (simp add: piece_byte_def txt_add_def e)
  next
    case 3
    then show ?thesis using bt by (simp add: up piece_byte_def)
  qed
qed

section \<open>Long name entries\<close>

lemma name_parts_take:
  assumes "length t \<le> 13"
  shows "name_parts t = (take 5 t, take 6 (drop 5 t), drop 11 t)"
  using assms by (auto simp: name_parts_def txt_sub_def txt_sub_to_def Let_def)

lemma clear_entry_spec:
  assumes g: "geometry s" and d: "in_disk (di s) (sector_of s off)" and e: "bytes_per_dir_entry s = 32"
    and o': "0 \<le> in_sector s off" "in_sector s off + 32 \<le> bytes_per_sector s"
  shows "\<exists>d b. clear_entry s off = Some (s\<lparr>di := d\<rparr>) \<and> geometry (s\<lparr>di := d\<rparr>) \<and> in_disk d (sector_of s off)
    \<and> disk_read d (sector_of s off) = Some b \<and> length b = nat (bytes_per_sector s)
    \<and> (\<forall>j. 0 \<le> j \<and> j < 32 \<longrightarrow> byte_at b (in_sector s off + j) = Some 0)"
proof -
  let ?o = "in_sector s off"
  obtain b where b: "disk_read (di s) (sector_of s off) = Some b" "length b = nat (bytes_per_sector s)"
    using disk_read_some[OF g d] by auto
  have put: "\<exists>b'. put_all b (map (\<lambda>i. (i + ?o, 0)) [0..int m - 1]) = Some b' \<and> length b' = length b
      \<and> (\<forall>j. 0 \<le> j \<and> j < int m \<longrightarrow> byte_at b' (?o + j) = Some 0)" if "m \<le> 32" for m
    using that
  proof (induction m)
    case (Suc m)
    then obtain b1 where b1: "put_all b (map (\<lambda>i. (i + ?o, 0)) [0..int m - 1]) = Some b1" "length b1 = length b"
      "\<forall>j. 0 \<le> j \<and> j < int m \<longrightarrow> byte_at b1 (?o + j) = Some 0" by auto
    obtain b2 where b2: "put_byte b1 (int m + ?o) 0 = Some b2"
      using put_byte_some[of "int m + ?o" b1 0] o' Suc.prems b1(2) b(2) by auto
    have "[0..int (Suc m) - 1] = [0..int m - 1] @ [int m]" using upto_rec2[of 0 "int m"] by simp
    then have "put_all b (map (\<lambda>i. (i + ?o, 0)) [0..int (Suc m) - 1]) = Some b2" using b1(1) b2 by (simp add: put_all_append)
    moreover have "\<forall>j. 0 \<le> j \<and> j < int (Suc m) \<longrightarrow> byte_at b2 (?o + j) = Some 0"
      using b1(3) byte_at_put[OF b2] by auto
    moreover have "length b2 = length b" using byte_at_put[OF b2] b1(2) by simp
    ultimately show ?case by blast
  qed auto
  have n32: "int 32 = 32" "(32 :: int) - 1 = 31" by simp_all
  obtain b' where b': "put_all b (map (\<lambda>i. (i + ?o, 0)) [0..31]) = Some b'" "length b' = length b"
    "\<forall>j. 0 \<le> j \<and> j < 32 \<longrightarrow> byte_at b' (?o + j) = Some 0"
    using put[OF order_refl] unfolding n32 by blast
  obtain d' where d': "write_sector s (sector_of s off) b' = Some (s\<lparr>di := d'\<rparr>)" "disk_read d' (sector_of s off) = Some b'"
    "dsector d' = dsector (di s)" "\<forall>j. in_disk d' j = in_disk (di s) j"
    using write_sector_spec[OF g d, of b'] b(2) b'(2) by auto
  have "clear_entry s off = Some (s\<lparr>di := d'\<rparr>)"
    unfolding clear_entry_def e n32(2) b(1) bind.bind_lunit b'(1) d'(1) ..
  moreover have "geometry (s\<lparr>di := d'\<rparr>)" using g d'(3) by (simp add: geometry_def)
  ultimately show ?thesis using d'(2,4) b'(2,3) b(2) d by (intro exI[of _ d'] exI[of _ b'] conjI; simp)
qed

text \<open>The bytes of a long name entry in its sector.\<close>

definition long_bytes :: "u8 list \<Rightarrow> int \<Rightarrow> u8 list \<Rightarrow> u8 \<Rightarrow> bool" where
  "long_bytes b o' t ord \<longleftrightarrow> byte_at b o' = Some ord \<and> byte_at b (o' + 11) = Some 0x0F
    \<and> (\<forall>(base, part, n) \<in> {(o' + 1, take 5 t, 5), (o' + 14, take 6 (drop 5 t), 6), (o' + 28, drop 11 t, 2)}.
        \<forall>i < n. byte_at b (base + 2 * int i) = Some (piece_byte part i)
          \<and> byte_at b (base + 2 * int i + 1) = Some (if length part < i then 0xFF else 0))"

lemma put_long_bytes:
  assumes "0 \<le> o'" "o' + 32 \<le> int (length b)" "\<forall>j. 0 \<le> j \<and> j < 32 \<longrightarrow> byte_at b (o' + j) = Some 0"
  shows "\<exists>b'. put_all b ([(o', ord)] @ piece_puts (o' + 1) (take 5 t) 5 @ piece_puts (o' + 14) (take 6 (drop 5 t)) 6
      @ piece_puts (o' + 28) (drop 11 t) 2 @ [(o' + 11, 0x0F), (o' + 13, csum)]) = Some b'
    \<and> length b' = length b \<and> long_bytes b' o' t ord"
proof -
  have z: "byte_at b (o' + j) = Some 0" if "0 \<le> j" "j < 32" for j using assms(3) that by blast
  obtain b0 where b0: "put_all b [(o', ord)] = Some b0" "length b0 = length b" "\<forall>j. byte_at b0 j = (if j = o' then Some ord else byte_at b j)"
    using put_all_single[of o' b ord] assms(1,2) by auto
  obtain b1 where b1: "put_all b0 (piece_puts (o' + 1) (take 5 t) 5) = Some b1" "length b1 = length b0"
    "\<forall>j. j < o' + 1 \<or> o' + 11 \<le> j \<longrightarrow> byte_at b1 j = byte_at b0 j"
    "\<forall>i < 5. byte_at b1 (o' + 1 + 2 * int i) = Some (piece_byte (take 5 t) i)
         \<and> byte_at b1 (o' + 1 + 2 * int i + 1) = (if length (take 5 t) < i then Some 0xFF else byte_at b0 (o' + 1 + 2 * int i + 1))"
    using piece_put[of "o' + 1" 5 b0 "take 5 t"] assms(1,2) b0(2) by auto
  obtain b2 where b2: "put_all b1 (piece_puts (o' + 14) (take 6 (drop 5 t)) 6) = Some b2" "length b2 = length b1"
    "\<forall>j. j < o' + 14 \<or> o' + 26 \<le> j \<longrightarrow> byte_at b2 j = byte_at b1 j"
    "\<forall>i < 6. byte_at b2 (o' + 14 + 2 * int i) = Some (piece_byte (take 6 (drop 5 t)) i)
         \<and> byte_at b2 (o' + 14 + 2 * int i + 1) = (if length (take 6 (drop 5 t)) < i then Some 0xFF else byte_at b1 (o' + 14 + 2 * int i + 1))"
    using piece_put[of "o' + 14" 6 b1 "take 6 (drop 5 t)"] assms(1,2) b0(2) b1(2) by auto
  obtain b3 where b3: "put_all b2 (piece_puts (o' + 28) (drop 11 t) 2) = Some b3" "length b3 = length b2"
    "\<forall>j. j < o' + 28 \<or> o' + 32 \<le> j \<longrightarrow> byte_at b3 j = byte_at b2 j"
    "\<forall>i < 2. byte_at b3 (o' + 28 + 2 * int i) = Some (piece_byte (drop 11 t) i)
         \<and> byte_at b3 (o' + 28 + 2 * int i + 1) = (if length (drop 11 t) < i then Some 0xFF else byte_at b2 (o' + 28 + 2 * int i + 1))"
    using piece_put[of "o' + 28" 2 b2 "drop 11 t"] assms(1,2) b0(2) b1(2) b2(2) by auto
  obtain b4 where b4: "put_byte b3 (o' + 11) 0x0F = Some b4" using put_byte_some[of "o' + 11" b3] assms(1,2) b0(2) b1(2) b2(2) b3(2) by auto
  note e4 = byte_at_put[OF b4]
  obtain b5 where b5: "put_byte b4 (o' + 13) csum = Some b5" using put_byte_some[of "o' + 13" b4] e4 assms(1,2) b0(2) b1(2) b2(2) b3(2) by auto
  note e5 = byte_at_put[OF b5]
  have "byte_at b5 (o' + 1 + 2 * int i) = Some (piece_byte (take 5 t) i)
      \<and> byte_at b5 (o' + 1 + 2 * int i + 1) = Some (if length (take 5 t) < i then 0xFF else 0)" if "i < 5" for i
    using that e5 e4 b3(3) b2(3) b1(4) b0(3) z[of "2 + 2 * int i"] by (auto simp: algebra_simps)
  moreover have "byte_at b5 (o' + 14 + 2 * int i) = Some (piece_byte (take 6 (drop 5 t)) i)
      \<and> byte_at b5 (o' + 14 + 2 * int i + 1) = Some (if length (take 6 (drop 5 t)) < i then 0xFF else 0)" if "i < 6" for i
    using that e5 e4 b3(3) b2(4) b1(3) b0(3) z[of "15 + 2 * int i"] by (auto simp: algebra_simps)
  moreover have "byte_at b5 (o' + 28 + 2 * int i) = Some (piece_byte (drop 11 t) i)
      \<and> byte_at b5 (o' + 28 + 2 * int i + 1) = Some (if length (drop 11 t) < i then 0xFF else 0)" if "i < 2" for i
    using that e5 e4 b3(4) b2(3) b1(3) b0(3) z[of "29 + 2 * int i"] by (auto simp: algebra_simps)
  moreover have "byte_at b5 o' = Some ord" "byte_at b5 (o' + 11) = Some 0x0F" using e5 e4 b3(3) b2(3) b1(3) b0(3) by auto
  ultimately have "long_bytes b5 o' t ord" unfolding long_bytes_def by auto
  moreover have "put_all b ([(o', ord)] @ piece_puts (o' + 1) (take 5 t) 5 @ piece_puts (o' + 14) (take 6 (drop 5 t)) 6
      @ piece_puts (o' + 28) (drop 11 t) 2 @ [(o' + 11, 0x0F), (o' + 13, csum)]) = Some b5"
    unfolding put_all_append b0(1) bind.bind_lunit b1(1) b2(1) b3(1) using b4 b5 by simp
  moreover have "length b5 = length b" using e5 e4 b3(2) b2(2) b1(2) b0(2) by simp
  ultimately show ?thesis by blast
qed

lemma piece_offsets_nat: "piece_offsets base off (int n) = map (\<lambda>i. off + base + 2 * int i) [0..<n]"
proof -
  have "[0..int n - 1] = map int [0..<n]"
  proof (induction n)
    case (Suc n)
    then show ?case using upto_rec2[of 0 "int n"] by simp
  qed simp
  then show ?thesis by (simp add: piece_offsets_def algebra_simps)
qed

lemma collect_long_bytes:
  assumes "long_bytes b o' t ord" "0 \<notin> set t" "length t \<le> 13"
  shows "Option.bind (collect_unicode b (piece_offsets 1 o' 5) []) (\<lambda>t1.
    Option.bind (collect_unicode b (piece_offsets 14 o' 6) t1) (\<lambda>t2. collect_unicode b (piece_offsets 28 o' 2) t2)) = Some t"
proof -
  have z: "0 \<notin> set (take 5 t)" "0 \<notin> set (take 6 (drop 5 t))" "0 \<notin> set (drop 11 t)"
    using assms(2) by (auto dest: in_set_takeD in_set_dropD)
  have c1: "collect_unicode b (piece_offsets 1 o' (int 5)) acc = Some (acc @ take 5 t)" for acc
    unfolding piece_offsets_nat using collect_piece[OF z(1), of 5 0 b "o' + 1" acc] assms(1) by (auto simp: long_bytes_def)
  have c2: "collect_unicode b (piece_offsets 14 o' (int 6)) acc = Some (acc @ take 6 (drop 5 t))" for acc
    unfolding piece_offsets_nat using collect_piece[OF z(2), of 6 0 b "o' + 14" acc] assms(1) by (auto simp: long_bytes_def)
  have c3: "collect_unicode b (piece_offsets 28 o' (int 2)) acc = Some (acc @ drop 11 t)" for acc
    unfolding piece_offsets_nat using collect_piece[OF z(3), of 2 0 b "o' + 28" acc] assms(1,3) by (auto simp: long_bytes_def)
  have "take 5 t @ take 6 (drop 5 t) @ drop 11 t = t"
    by (metis append_take_drop_id drop_drop numeral_plus_numeral add_num_simps(1,2,3,4,5,6,7,8))
  then show ?thesis using c1[of "[]"] c2[of "take 5 t"] c3[of "take 5 t @ take 6 (drop 5 t)"] by simp
qed

text \<open>C27: A long name entry is read back as it was written: for a name of at most thirteen characters, \<open>write_long_name_entry\<close>
  succeeds, the entry on disk then has the attribute of a long name, and parsing it yields the
  name and the order that were written.\<close>

theorem long_name_roundtrip:
  assumes g: "geometry s" and x: "objects s l = Some x" "parent_dir x = Some p" "objects s p = Some px"
    and t: "0 \<notin> set (ename x)" "length (ename x) \<le> 13" and ord: "0 \<le> eorder x" "eorder x < 32"
    and d: "in_disk (di s) (sector_of s (byte_offset x))" and e: "bytes_per_dir_entry s = 32"
    and o': "0 \<le> in_sector s (byte_offset x)" "in_sector s (byte_offset x) + 32 \<le> bytes_per_sector s"
  shows "\<exists>s' s'' y. write_long_name_entry s l = Some s' \<and> parse_attribute s' (byte_offset x) = Some LONG_NAME
    \<and> parse_long_name s' l = Some s'' \<and> objects s'' l = Some y \<and> ename y = ename x \<and> eorder y = eorder x"
proof -
  let ?off = "byte_offset x"
  define ord where "ord = (if elast x then word_of_int (eorder x) OR 0x40 else word_of_int (eorder x) :: u8)"
  obtain d1 b1 where c: "clear_entry s ?off = Some (s\<lparr>di := d1\<rparr>)" "geometry (s\<lparr>di := d1\<rparr>)" "in_disk d1 (sector_of s ?off)"
    "disk_read d1 (sector_of s ?off) = Some b1" "length b1 = nat (bytes_per_sector s)"
    "\<forall>j. 0 \<le> j \<and> j < 32 \<longrightarrow> byte_at b1 (in_sector s ?off + j) = Some 0"
    using clear_entry_spec[OF g d e o'] by blast
  have l: "in_sector s ?off + 32 \<le> int (length b1)" using c(5) o' g by (simp add: geometry_def)
  define csum where "csum = name_checksum (long_to_short_name s (ename px) 8 @ long_to_short_name s (extension x) 3) 0"
  obtain b2 where b2: "put_all b1 ([(in_sector s ?off, ord)] @ piece_puts (in_sector s ?off + 1) (take 5 (ename x)) 5
      @ piece_puts (in_sector s ?off + 14) (take 6 (drop 5 (ename x))) 6 @ piece_puts (in_sector s ?off + 28) (drop 11 (ename x)) 2
      @ [(in_sector s ?off + 11, 0x0F), (in_sector s ?off + 13, csum)]) = Some b2"
    "length b2 = length b1" "long_bytes b2 (in_sector s ?off) (ename x) ord"
    using put_long_bytes[OF o'(1) l c(6)] by blast
  obtain d2 where d2: "write_sector (s\<lparr>di := d1\<rparr>) (sector_of s ?off) b2 = Some (s\<lparr>di := d2\<rparr>)" "disk_read d2 (sector_of s ?off) = Some b2"
    using write_sector_spec[OF c(2), of "sector_of s ?off" b2] c(3,5) b2(2) by auto
  have w: "write_long_name_entry s l = Some (s\<lparr>di := d2\<rparr>)"
  proof -
    have r: "disk_read (di (s\<lparr>di := d1\<rparr>)) (sector_of s ?off) = Some b1" "objects (s\<lparr>di := d1\<rparr>) p = Some px" using c(4) x(3) by simp_all
    show ?thesis
      unfolding write_long_name_entry_def x(1) bind.bind_lunit c(1) name_parts_take[OF t(2)] Let_def prod.case r x(2)
        csum_def[symmetric] ord_def[symmetric] b2(1) d2(1) ..
  qed
  have a: "byte_at b2 (11 + in_sector s ?off) = Some 0x0F" "byte_at b2 (in_sector s ?off) = Some ord"
    using b2(3) by (auto simp: long_bytes_def add.commute)
  have att: "parse_attribute (s\<lparr>di := d2\<rparr>) ?off = Some LONG_NAME" using d2(2) a(1) by (simp add: parse_attribute_def)
  have oe: "uint (ord AND 0x1F) = eorder x"
  proof -
    have "ord AND 0x1F = word_of_int (eorder x) AND 0x1F" by (simp add: ord_def bit.conj_disj_distrib2)
    also have "\<dots> = take_bit 5 (word_of_int (eorder x))" by (simp add: take_bit_eq_mask mask_eq_exp_minus_1)
    finally show ?thesis using ord by (simp add: unsigned_take_bit_eq uint_word_of_int take_bit_int_eq_self)
  qed
  define y where "y = x\<lparr>eorder := uint (ord AND 0x1F), elast := False, ename := ename x, extension := [], file_size_bytes := - 1\<rparr>"
  obtain t1 t2 where ts: "collect_unicode b2 (piece_offsets 1 (in_sector s ?off) 5) [] = Some t1"
    "collect_unicode b2 (piece_offsets 14 (in_sector s ?off) 6) t1 = Some t2"
    "collect_unicode b2 (piece_offsets 28 (in_sector s ?off) 2) t2 = Some (ename x)"
    using collect_long_bytes[OF b2(3) t] by (auto simp: bind_eq_Some_conv)
  have "parse_long_name (s\<lparr>di := d2\<rparr>) l = Some (s\<lparr>di := d2, objects := (objects s)(l \<mapsto> y)\<rparr>)"
    using x(1) d2(2) a(2) ts by (simp add: parse_long_name_def modify_def y_def)
  then show ?thesis using w att oe by (auto simp: y_def)
qed

end
