(* ===== verification/Fat_Alloc.thy ===== *)
theory Fat_Alloc
  imports Fat_Names
begin

text \<open>
  Cluster allocation: \<open>find_free_cluster\<close> returns the first free entry of the FAT below its limit,
  allocating one cluster appends it to the chain of the file, and allocating two at once takes
  the same cluster twice.
\<close>

section \<open>Entries of the FAT\<close>

definition fat_geometry :: "FAT32 \<Rightarrow> bool" where
  "fat_geometry s \<longleftrightarrow> geometry s \<and> bytes_per_fat_entry s = 4 \<and> 4 dvd bytes_per_sector s \<and> 0 \<le> reserved_sectors s"

definition fat_at :: "FAT32 \<Rightarrow> int \<Rightarrow> u32 option" where
  "fat_at s n = do {
     b \<leftarrow> disk_read (di s) (sector_of s (fat_byte_offset s n));
     bytes_to_int b (in_sector s (fat_byte_offset s n)) }"

lemma fat_place:
  assumes "fat_geometry s" "0 \<le> n"
  shows "sector_of s (fat_byte_offset s n) = reserved_sectors s + 4 * n div bytes_per_sector s"
    "in_sector s (fat_byte_offset s n) = 4 * n mod bytes_per_sector s"
    "4 * n mod bytes_per_sector s + 4 \<le> bytes_per_sector s" "4 dvd 4 * n mod bytes_per_sector s"
    "0 \<le> 4 * n mod bytes_per_sector s"
proof -
  have g: "0 < bytes_per_sector s" "4 dvd bytes_per_sector s" "0 \<le> reserved_sectors s" "bytes_per_fat_entry s = 4"
    using assms(1) by (auto simp: fat_geometry_def geometry_def)
  have nn: "0 \<le> reserved_sectors s * bytes_per_sector s + n * 4" using g assms(2) by simp
  show "sector_of s (fat_byte_offset s n) = reserved_sectors s + 4 * n div bytes_per_sector s"
    unfolding sector_of_def fat_byte_offset_def g(4) sdiv_nonneg[OF nn g(1)] using g(1) by (simp add: mult.commute)
  show "in_sector s (fat_byte_offset s n) = 4 * n mod bytes_per_sector s"
    unfolding in_sector_def fat_byte_offset_def g(4) smod_nonneg[OF nn g(1)] by (simp add: mult.commute)
  show "0 \<le> 4 * n mod bytes_per_sector s" using g(1) by simp
  show d: "4 dvd 4 * n mod bytes_per_sector s" using g(2) by (simp add: dvd_mod_iff)
  have "4 * n mod bytes_per_sector s < bytes_per_sector s" using g(1) by simp
  then show "4 * n mod bytes_per_sector s + 4 \<le> bytes_per_sector s" using d g(2) by (auto elim!: dvdE)
qed

lemma fat_same_place:
  assumes "fat_geometry s" "0 \<le> m" "0 \<le> n" "m \<noteq> n" "sector_of s (fat_byte_offset s m) = sector_of s (fat_byte_offset s n)"
  shows "4 * m mod bytes_per_sector s + 4 \<le> 4 * n mod bytes_per_sector s \<or> 4 * n mod bytes_per_sector s + 4 \<le> 4 * m mod bytes_per_sector s"
proof -
  let ?B = "bytes_per_sector s"
  have "4 * m div ?B = 4 * n div ?B" using assms(5) fat_place(1)[OF assms(1,2)] fat_place(1)[OF assms(1,3)] by simp
  then have "4 * m mod ?B \<noteq> 4 * n mod ?B"
    using div_mult_mod_eq[of "4 * m" ?B] div_mult_mod_eq[of "4 * n" ?B] assms(4) by auto
  then show ?thesis using fat_place(4)[OF assms(1,2)] fat_place(4)[OF assms(1,3)] by (auto elim!: dvdE)
qed

lemma bytes_to_int_other:
  assumes "0 \<le> i" "nat i + 4 \<le> length b" "put_bytes 4 v b i = Some b'" "0 \<le> j" "nat j + 4 \<le> length b" "i + 4 \<le> j \<or> j + 4 \<le> i"
  shows "bytes_to_int b' j = bytes_to_int b j"
proof -
  have b': "b' = take (nat i) b @ le_bytes 4 v @ drop (nat i + 4) b" using put_bytes_spec[OF assms(1,2), of v] assms(3) by simp
  have l: "length b' = length b" using temp_put_bytes(2)[OF assms(1-3)] .
  have "take 4 (drop (nat j) b') = take 4 (drop (nat j) b)"
  proof (rule nth_equalityI)
    fix k assume "k < length (take 4 (drop (nat j) b'))"
    then have k: "k < 4" "nat j + k < length b" using l by auto
    have "nat j + k < nat i \<or> nat i + 4 \<le> nat j + k" using assms(1,4,6) k(1) by linarith
    then have "b' ! (nat j + k) = b ! (nat j + k)" unfolding b' using k(2) assms(2) by (auto simp: nth_append min_def)
    then show "take 4 (drop (nat j) b') ! k = take 4 (drop (nat j) b) ! k" using k l by simp
  qed (simp add: l)
  then show ?thesis unfolding bytes_to_int_def using temp_bytes_spec[OF assms(4), of 4 b'] temp_bytes_spec[OF assms(4,5)] assms(5) l by simp
qed

text \<open>Storing one entry of the FAT.\<close>

lemma fat_put:
  assumes g: "fat_geometry s" and n: "0 \<le> n" "fat_at s n = Some w"
    and b: "disk_read (di s) (sector_of s (fat_byte_offset s n)) = Some b"
  shows "\<exists>b' d. int_to_bytes v b (in_sector s (fat_byte_offset s n)) = Some b'
    \<and> write_sector s (sector_of s (fat_byte_offset s n)) b' = Some (s\<lparr>di := d\<rparr>)
    \<and> fat_geometry (s\<lparr>di := d\<rparr>) \<and> fat_at (s\<lparr>di := d\<rparr>) n = Some v
    \<and> (\<forall>m. 0 \<le> m \<and> m \<noteq> n \<longrightarrow> fat_at (s\<lparr>di := d\<rparr>) m = fat_at s m)"
proof -
  let ?k = "sector_of s (fat_byte_offset s n)" and ?i = "in_sector s (fat_byte_offset s n)"
  have g': "geometry s" using g by (simp add: fat_geometry_def)
  have lb: "length b = nat (bytes_per_sector s)" using disk_read_length[OF b] g' by (simp add: geometry_def)
  have i: "0 \<le> ?i" "nat ?i + 4 \<le> length b" using fat_place(2,3,5)[OF g n(1)] lb by linarith+
  obtain b' where b': "put_bytes 4 v b ?i = Some b'" using put_bytes_spec[OF i] by blast
  have lb': "length b' = length b" using temp_put_bytes(2)[OF i b'] .
  have ind: "in_disk (di s) ?k" using b by (auto simp: disk_read_def split: if_splits)
  obtain d where d: "write_sector s ?k b' = Some (s\<lparr>di := d\<rparr>)" "disk_read d ?k = Some b'" "dsector d = dsector (di s)"
    "\<forall>j. j \<noteq> ?k \<longrightarrow> disk_read d j = disk_read (di s) j"
    using write_sector_spec[OF g' ind, of b'] lb lb' by auto
  have same: "sector_of (s\<lparr>di := d\<rparr>) = sector_of s" "in_sector (s\<lparr>di := d\<rparr>) = in_sector s" "fat_byte_offset (s\<lparr>di := d\<rparr>) = fat_byte_offset s"
    by (simp_all add: fun_eq_iff fat_byte_offset_def)
  have "fat_at (s\<lparr>di := d\<rparr>) n = Some v"
    using d(2) temp_put_bytes(1)[OF i b'] le_word_bytes[of 4 v] by (simp add: fat_at_def same bytes_to_int_def)
  moreover have "fat_at (s\<lparr>di := d\<rparr>) m = fat_at s m" if m: "0 \<le> m" "m \<noteq> n" for m
  proof (cases "sector_of s (fat_byte_offset s m) = ?k")
    case True
    have "4 * n mod bytes_per_sector s + 4 \<le> 4 * m mod bytes_per_sector s \<or> 4 * m mod bytes_per_sector s + 4 \<le> 4 * n mod bytes_per_sector s"
      using fat_same_place[OF g m(1) n(1) m(2) True] by blast
    then have "bytes_to_int b' (in_sector s (fat_byte_offset s m)) = bytes_to_int b (in_sector s (fat_byte_offset s m))"
      using fat_place(2,3,5)[OF g m(1)] fat_place(2)[OF g n(1)] lb by (intro bytes_to_int_other[OF i b']) linarith+
    then show ?thesis using True d(2) b by (simp add: fat_at_def same)
  next
    case False
    then show ?thesis using d(4) by (simp add: fat_at_def same)
  qed
  moreover have "fat_geometry (s\<lparr>di := d\<rparr>)" using g d(3) by (simp add: fat_geometry_def geometry_def)
  ultimately show ?thesis using b' d(1) by (auto simp: int_to_bytes_def)
qed

section \<open>The first free cluster\<close>

text \<open>\<open>n\<close> is the first free entry from \<open>a\<close> on.\<close>

definition first_free :: "FAT32 \<Rightarrow> int \<Rightarrow> int \<Rightarrow> bool" where
  "first_free s a n \<longleftrightarrow> a \<le> n \<and> (\<forall>m. a \<le> m \<and> m < n \<longrightarrow> (\<exists>v. fat_at s m = Some v \<and> check_fat_entry_type s v \<noteq> FREE))
     \<and> (\<exists>v. fat_at s n = Some v \<and> check_fat_entry_type s v = FREE)"

lemma free_cluster_loop_first:
  assumes "first_free s a n" "n < limit" "disk_read (di s) (sector_of s (fat_byte_offset s a)) = Some b"
  shows "free_cluster_loop s b limit a = Some n"
  using assms
proof (induction "nat (n - a)" arbitrary: a b)
  case 0
  then have a: "a = n" by (simp add: first_free_def)
  then obtain v where "bytes_to_int b (in_sector s (fat_byte_offset s n)) = Some v" "check_fat_entry_type s v = FREE"
    using 0 by (auto simp: first_free_def fat_at_def)
  then show ?case using a 0 by (subst free_cluster_loop.simps) simp
next
  case (Suc k)
  then have a: "a < n" by simp
  then obtain v where v: "bytes_to_int b (in_sector s (fat_byte_offset s a)) = Some v" "check_fat_entry_type s v \<noteq> FREE"
    using Suc.prems by (auto simp: first_free_def fat_at_def)
  have f: "first_free s (a + 1) n" using Suc.prems(1) a by (auto simp: first_free_def)
  then have "\<exists>w. fat_at s (a + 1) = Some w" by (cases "a + 1 = n") (auto simp: first_free_def)
  then obtain b' where b': "disk_read (di s) (sector_of s (fat_byte_offset s (a + 1))) = Some b'"
    by (auto simp: fat_at_def bind_eq_Some_conv)
  have "(if sector_of s (fat_byte_offset s (a + 1)) \<noteq> sector_of s (fat_byte_offset s a)
      then disk_read (di s) (sector_of s (fat_byte_offset s (a + 1))) else Some b) = Some b'"
    using b' Suc.prems(3) by auto
  moreover have "free_cluster_loop s b' limit (a + 1) = Some n" using Suc.hyps(2) by (intro Suc.hyps(1) f Suc.prems(2) b') simp
  ultimately show ?case using v a Suc.prems(2) by (subst free_cluster_loop.simps) (simp add: Let_def)
qed

lemma find_free_cluster_first:
  assumes "first_free s 2 n" "n < sectors_per_fat s sdiv sectors_per_cluster s"
  shows "find_free_cluster s = Some n"
proof -
  have "\<exists>w. fat_at s 2 = Some w" using assms(1) by (cases "n = 2") (auto simp: first_free_def)
  then obtain b where "disk_read (di s) (sector_of s (fat_byte_offset s 2)) = Some b" by (auto simp: fat_at_def bind_eq_Some_conv)
  then show ?thesis using free_cluster_loop_first[OF assms] by (simp add: find_free_cluster_def)
qed

section \<open>Allocation\<close>

lemma objects_update_simps [simp]:
  "fat_at (s\<lparr>objects := f\<rparr>) = fat_at s" "fat_geometry (s\<lparr>objects := f\<rparr>) = fat_geometry s"
  "fat_byte_offset (s\<lparr>objects := f\<rparr>) = fat_byte_offset s" "fat_byte_offset (s\<lparr>di := d\<rparr>) = fat_byte_offset s"
  "sector_of (s\<lparr>objects := f\<rparr>) = sector_of s" "in_sector (s\<lparr>objects := f\<rparr>) = in_sector s"
  "check_fat_entry_type (s\<lparr>objects := f\<rparr>) = check_fat_entry_type s" "check_fat_entry_type (s\<lparr>di := d\<rparr>) = check_fat_entry_type s"
  "first_free (s\<lparr>objects := f\<rparr>) = first_free s" "fat_at (s\<lparr>objects := f, di := d\<rparr>) = fat_at (s\<lparr>di := d\<rparr>)"
  "fat_geometry (s\<lparr>objects := f, di := d\<rparr>) = fat_geometry (s\<lparr>di := d\<rparr>)"
  by (simp_all add: fun_eq_iff fat_at_def fat_geometry_def geometry_def fat_byte_offset_def sector_of_def in_sector_def
      check_fat_entry_type_def first_free_def)

lemma allocate_step:
  assumes g: "fat_geometry s" and n: "first_free s 2 n" "n < sectors_per_fat s sdiv sectors_per_cluster s"
    and cur: "0 \<le> cur" "fat_at s cur = Some w" "disk_read (di s) (sector_of s (fat_byte_offset s cur)) = Some b"
    and x: "objects s e = Some x" "etype x = FILE"
  shows "\<exists>d b'. allocate_loop (Suc m) s e b cur
      = allocate_loop m (s\<lparr>di := d, objects := (objects s)(e \<mapsto> x\<lparr>fat_allocations := fat_allocations x @ [n]\<rparr>)\<rparr>) e b' n
    \<and> disk_read d (sector_of s (fat_byte_offset s n)) = Some b' \<and> fat_geometry (s\<lparr>di := d\<rparr>)
    \<and> fat_at (s\<lparr>di := d\<rparr>) cur = Some (word_of_int n) \<and> (\<forall>m. 0 \<le> m \<and> m \<noteq> cur \<longrightarrow> fat_at (s\<lparr>di := d\<rparr>) m = fat_at s m)"
proof -
  have n2: "2 \<le> n" using n(1) by (simp add: first_free_def)
  obtain b1 d where p: "int_to_bytes (word_of_int n) b (in_sector s (fat_byte_offset s cur)) = Some b1"
    "write_sector s (sector_of s (fat_byte_offset s cur)) b1 = Some (s\<lparr>di := d\<rparr>)" "fat_geometry (s\<lparr>di := d\<rparr>)"
    "fat_at (s\<lparr>di := d\<rparr>) cur = Some (word_of_int n)" "\<forall>m. 0 \<le> m \<and> m \<noteq> cur \<longrightarrow> fat_at (s\<lparr>di := d\<rparr>) m = fat_at s m"
    using fat_put[OF g cur, of "word_of_int n"] by blast
  have "\<exists>v. fat_at (s\<lparr>di := d\<rparr>) n = Some v" using p(4,5) n n2 by (cases "n = cur") (auto simp: first_free_def)
  then obtain b' where b': "disk_read d (sector_of s (fat_byte_offset s n)) = Some b'"
    by (auto simp: fat_at_def bind_eq_Some_conv)
  have "allocate_loop (Suc m) s e b cur
      = allocate_loop m (s\<lparr>di := d, objects := (objects s)(e \<mapsto> x\<lparr>fat_allocations := fat_allocations x @ [n]\<rparr>)\<rparr>) e b' n"
    using find_free_cluster_first[OF n] n2 p(1,2) b' x by (simp add: Let_def modify_def)
  then show ?thesis using b' p(3-5) by blast
qed

lemma not_free_number:
  assumes "0 < n" "n < 2 ^ 28"
  shows "check_fat_entry_type s (word_of_int n) \<noteq> FREE"
proof -
  have "(word_of_int n :: u32) AND 0xFFFFFFF = take_bit 28 (word_of_int n)" by (simp add: take_bit_eq_mask mask_eq_exp_minus_1)
  moreover have "uint (take_bit 28 (word_of_int n :: u32)) = n"
    using assms by (simp add: unsigned_take_bit_eq uint_word_of_int take_bit_int_eq_self)
  ultimately have "(word_of_int n :: u32) AND 0xFFFFFFF \<noteq> 0" using assms(1) by auto
  then show ?thesis by (simp add: check_fat_entry_type_def)
qed


text \<open>Allocating two clusters at once, as a write beyond the end of a file does, allocates the same cluster twice: the first one
  is still marked as free when the second is searched, so that two sectors of the file share
  their storage.\<close>

theorem allocate_two_takes_one:
  assumes g: "fat_geometry s" and n: "first_free s 2 n" "n < sectors_per_fat s sdiv sectors_per_cluster s" "n < 2 ^ 28"
    and x: "objects s e = Some x" "etype x = FILE" "fat_allocations x \<noteq> []"
    and a: "a = last (fat_allocations x)" "0 \<le> a" "a \<noteq> n" "fat_at s a = Some w"
  shows "\<exists>s'. allocate_more_clusters s e 2 = Some (True, s')
    \<and> objects s' = (objects s)(e \<mapsto> x\<lparr>fat_allocations := fat_allocations x @ [n, n]\<rparr>)"
proof -
  have n2: "2 \<le> n" "\<exists>v. fat_at s n = Some v" using n(1) by (auto simp: first_free_def)
  obtain b where b: "disk_read (di s) (sector_of s (fat_byte_offset s a)) = Some b" using a(4) by (auto simp: fat_at_def bind_eq_Some_conv)
  let ?x1 = "x\<lparr>fat_allocations := fat_allocations x @ [n]\<rparr>"
  let ?obj = "(objects s)(e \<mapsto> ?x1)"
  obtain d b1 where s1: "allocate_loop (Suc (Suc 0)) s e b a = allocate_loop (Suc 0) (s\<lparr>di := d, objects := ?obj\<rparr>) e b1 n"
    "disk_read d (sector_of s (fat_byte_offset s n)) = Some b1" "fat_geometry (s\<lparr>di := d\<rparr>)"
    "fat_at (s\<lparr>di := d\<rparr>) a = Some (word_of_int n)" "\<forall>m. 0 \<le> m \<and> m \<noteq> a \<longrightarrow> fat_at (s\<lparr>di := d\<rparr>) m = fat_at s m"
    using allocate_step[OF g n(1,2) a(2,4) b x(1,2)] by blast
  let ?s1 = "s\<lparr>di := d, objects := ?obj\<rparr>"
  have n0: "0 \<le> n" and g1: "fat_geometry ?s1" using n2 s1(3) by simp_all
  have ff: "first_free ?s1 2 n"
  proof -
    have "\<exists>v. fat_at (s\<lparr>di := d\<rparr>) m = Some v \<and> check_fat_entry_type s v \<noteq> FREE" if "2 \<le> m" "m < n" for m
      using that n(1) s1(4,5) not_free_number[of n s] n(3) n2(1) by (cases "m = a") (auto simp: first_free_def)
    then show ?thesis using n(1) n2(1) s1(5) a(3) by (auto simp: first_free_def)
  qed
  have lim: "n < sectors_per_fat ?s1 sdiv sectors_per_cluster ?s1" using n(2) by simp
  obtain v where v: "fat_at ?s1 n = Some v" using n2 s1(5) a(3) by auto
  have b1: "disk_read (di ?s1) (sector_of ?s1 (fat_byte_offset ?s1 n)) = Some b1" using s1(2) by simp
  have x1: "objects ?s1 e = Some ?x1" "etype ?x1 = FILE" using x(2) by simp_all
  let ?obj2 = "(objects ?s1)(e \<mapsto> ?x1\<lparr>fat_allocations := fat_allocations ?x1 @ [n]\<rparr>)"
  obtain d2 b2 where s2: "allocate_loop (Suc 0) ?s1 e b1 n = allocate_loop 0 (?s1\<lparr>di := d2, objects := ?obj2\<rparr>) e b2 n"
    "disk_read d2 (sector_of ?s1 (fat_byte_offset ?s1 n)) = Some b2" "fat_geometry (?s1\<lparr>di := d2\<rparr>)"
    "fat_at (?s1\<lparr>di := d2\<rparr>) n = Some (word_of_int n)"
    using allocate_step[OF g1 ff lim n0 v b1 x1] by blast
  let ?s2 = "?s1\<lparr>di := d2, objects := ?obj2\<rparr>"
  have b2: "disk_read (di ?s2) (sector_of ?s2 (fat_byte_offset ?s2 n)) = Some b2" "fat_geometry ?s2" "fat_at ?s2 n = Some (word_of_int n)"
    using s2(2-4) by simp_all
  obtain b3 d3 where p: "int_to_bytes 0xFFFFFFFF b2 (in_sector ?s2 (fat_byte_offset ?s2 n)) = Some b3"
    "write_sector ?s2 (sector_of ?s2 (fat_byte_offset ?s2 n)) b3 = Some (?s2\<lparr>di := d3\<rparr>)"
    using fat_put[OF b2(2) n0 b2(3,1), of "0xFFFFFFFF"] by blast
  have two: "allocate_loop 2 s e b a = Some (True, ?s2, b2, n)"
    using s1(1) s2(1) by (simp add: numeral_2_eq_2 del: allocate_loop.simps(2))
  have "allocate_more_clusters s e 2 = Some (True, ?s2\<lparr>di := d3\<rparr>)"
    using x a(1) b two p by (simp add: allocate_more_clusters_def Let_def)
  then show ?thesis by (intro exI[of _ "?s2\<lparr>di := d3\<rparr>"]) simp
qed

section \<open>On the small disk\<close>

text \<open>The small disk with a FAT of sixteen sectors, of which only the first is used, so that the
  search has a range; its first free cluster is number 4.\<close>

definition tiny_fs16 :: FAT32 where "tiny_fs16 = tiny_fs\<lparr>sectors_per_fat := 16\<rparr>"

lemma tiny_place:
  "fat_geometry tiny_fs16" "first_free tiny_fs16 2 4" "4 < sectors_per_fat tiny_fs16 sdiv sectors_per_cluster tiny_fs16"
  "fat_at tiny_fs16 3 = Some 0xFFFFFFFF" "objects tiny_fs16 1 = Some tiny_file"
proof -
  show "fat_geometry tiny_fs16" "objects tiny_fs16 1 = Some tiny_file"
    by (simp_all add: fat_geometry_def geometry_def tiny_fs16_def tiny_fs_def)
  show "4 < sectors_per_fat tiny_fs16 sdiv sectors_per_cluster tiny_fs16" by code_simp
  have f: "fat_at tiny_fs16 2 = Some 3" "fat_at tiny_fs16 3 = Some 0xFFFFFFFF" "fat_at tiny_fs16 4 = Some 0" by code_simp+
  show "fat_at tiny_fs16 3 = Some 0xFFFFFFFF" by (rule f)
  have c: "check_fat_entry_type tiny_fs16 3 \<noteq> FREE" "check_fat_entry_type tiny_fs16 0xFFFFFFFF \<noteq> FREE"
    "check_fat_entry_type tiny_fs16 0 = FREE" by code_simp+
  have "m = 2 \<or> m = 3" if "2 \<le> m" "m < 4" for m :: int using that by arith
  then show "first_free tiny_fs16 2 4" using f c by (auto simp: first_free_def)
qed

lemma tiny_file_simps: "etype tiny_file = FILE" "fat_allocations tiny_file \<noteq> []" "3 = last (fat_allocations tiny_file)"
  "fat_allocations tiny_file = [2, 3]"
  by (simp_all add: tiny_file_def Entry_default_def)


theorem allocate_two_takes_one_witness:
  "\<exists>s'. allocate_more_clusters tiny_fs16 1 2 = Some (True, s') \<and> map_option fat_allocations (objects s' 1) = Some [2, 3, 4, 4]"
proof -
  have "(4 :: int) < 2 ^ 28" "(0 :: int) \<le> 3" "(3 :: int) \<noteq> 4" by simp_all
  from allocate_two_takes_one[OF tiny_place(1-3) this(1) tiny_place(5) tiny_file_simps(1-3) this(2,3) tiny_place(4)]
  obtain s' where "allocate_more_clusters tiny_fs16 1 2 = Some (True, s')"
    "objects s' = (objects tiny_fs16)(1 \<mapsto> tiny_file\<lparr>fat_allocations := fat_allocations tiny_file @ [4, 4]\<rparr>)" by blast
  then show ?thesis using tiny_file_simps(4) by (intro exI[of _ s']) simp
qed

theorem long_name_roundtrip_witness:
  "\<exists>s' s'' y. write_long_name_entry tiny_fs 1 = Some s' \<and> parse_attribute s' 0 = Some LONG_NAME
    \<and> parse_long_name s' 1 = Some s'' \<and> objects s'' 1 = Some y \<and> ename y = [0x61]"
  using long_name_roundtrip[of tiny_fs 1 tiny_file 0 "Entry_default\<lparr>etype := ROOT, sub_dirs := [1]\<rparr>"]
  by (auto simp: tiny_fs_def tiny_file_def Entry_default_def geometry_def in_disk_def sector_of_def in_sector_def)

end
