(* ===== verification/Map_Region.thy ===== *)
theory Map_Region
  imports Mmu_Correct
begin

text \<open>
  Mapping and unmapping a region, the loops of \<^verbatim>\<open>src/memory/mmap.cpp\<close>. The pages of a region that lies
  in one block of two megabytes share their two upper tables, which the first page brings in; every
  page then has its own entry in the last table.
\<close>

section \<open>Pages of one block\<close>

definition same_block :: "u64 \<Rightarrow> u64 \<Rightarrow> bool" where
  "same_block p q \<longleftrightarrow> drop_bit 21 p = drop_bit 21 q"

lemma same_block_39: "same_block p q \<Longrightarrow> drop_bit 39 p = drop_bit 39 q"
proof -
  assume "same_block p q"
  moreover have "drop_bit 39 x = drop_bit 18 (drop_bit 21 x)" for x :: u64 by (simp add: drop_bit_drop_bit)
  ultimately show ?thesis unfolding same_block_def by metis
qed

lemma same_block_index: "same_block p q \<Longrightarrow> 21 \<le> k \<Longrightarrow> k \<le> 30 \<Longrightarrow> take_bit 9 (drop_bit k (low p)) = take_bit 9 (drop_bit k (low q))"
proof -
  assume b: "same_block p q" and k: "21 \<le> k" "k \<le> 30"
  have "take_bit 9 (drop_bit k (low x)) = take_bit 9 (drop_bit (k - 21) (drop_bit 21 x))" for x
    by (rule bit_word_eqI) (use k in \<open>auto simp: low_def bit_simps\<close>)
  then show ?thesis using b unfolding same_block_def by metis
qed

lemma same_block_half:
  assumes "same_block p q"
  shows "half_of p = half_of q" "top_table s p = top_table s q" "canonical p = canonical q"
  using same_block_39[OF assms] by (simp_all add: half_of_def top_table_def canonical_def user_iff kernel_iff)

lemma same_block_tables:
  assumes "same_block p q"
  shows "entry1 pm T (low p) = entry1 pm T (low q)" "entry2 pm T (low p) = entry2 pm T (low q)"
    "tables_apart pm T (low p) = tables_apart pm T (low q)"
    "page_ok s p = page_ok s q"
proof -
  note i = same_block_index[OF assms, of 30] same_block_index[OF assms, of 21]
  show e1: "entry1 pm T (low p) = entry1 pm T (low q)" for pm T using i(1) by (simp add: entry1_def entry_loc_def)
  show e2: "entry2 pm T (low p) = entry2 pm T (low q)" for pm T
    unfolding entry2_def e1 using i(2) by (simp add: entry_loc_def)
  show "tables_apart pm T (low p) = tables_apart pm T (low q)" by (simp add: tables_apart_def e1 e2)
  show "page_ok s p = page_ok s q" unfolding page_ok_def same_block_half[OF assms] using i(1) by simp
qed

text \<open>The pages of a region, numbered from its start.\<close>

definition nth_page :: "u64 \<Rightarrow> nat \<Rightarrow> u64" where
  "nth_page addr i = addr + of_nat (4096 * i)"

definition block_index :: "u64 \<Rightarrow> nat" where
  "block_index addr = unat addr div 4096 mod 512"

lemma nth_page_unat:
  assumes "block_index addr + i < 512"
  shows "unat (nth_page addr i) = unat addr + 4096 * i"
    "unat (nth_page addr i) div 2 ^ 21 = unat addr div 2 ^ 21"
    "unat (nth_page addr i) div 4096 mod 512 = block_index addr + i"
proof -
  define a where "a = unat addr div 2 ^ 21"
  define r where "r = unat addr mod 4096"
  have split: "unat addr = 2 ^ 21 * a + 4096 * block_index addr + r" and r: "r < 4096"
  proof -
    define q where "q = unat addr div 4096"
    have "a = q div 512" by (simp add: a_def q_def div_mult2_eq[symmetric])
    then have "q = 512 * a + block_index addr" by (simp add: block_index_def q_def[symmetric])
    moreover have "unat addr = 4096 * q + r" by (simp add: q_def r_def)
    ultimately show "unat addr = 2 ^ 21 * a + 4096 * block_index addr + r" by simp
  qed (simp add: r_def)
  have "unat addr < 2 ^ 64" using unsigned_less[of addr] by simp
  then have "a < 2 ^ 43" unfolding a_def by (simp add: less_mult_imp_div_less)
  then have le: "unat addr + 4096 * i < 2 ^ 64" using split r assms by simp
  have u: "unat (of_nat (4096 * i) :: u64) = 4096 * i" using assms by (subst unat_of_nat_no_wrap) simp_all
  show sum: "unat (nth_page addr i) = unat addr + 4096 * i"
    unfolding nth_page_def using le u by (subst unat_add_no_wrap) simp_all
  then have e: "unat (nth_page addr i) = 2 ^ 21 * a + (4096 * (block_index addr + i) + r)" using split by simp
  have lt: "4096 * (block_index addr + i) + r < 2 ^ 21" using assms r by simp
  show "unat (nth_page addr i) div 2 ^ 21 = unat addr div 2 ^ 21"
    unfolding e using lt by (simp add: a_def)
  have "unat (nth_page addr i) = 4096 * (512 * a + (block_index addr + i)) + r" using e by simp
  then have "unat (nth_page addr i) div 4096 = 512 * a + (block_index addr + i)" using r by simp
  then show "unat (nth_page addr i) div 4096 mod 512 = block_index addr + i" using assms by simp
qed

lemma nth_page_block: "block_index addr + i < 512 \<Longrightarrow> same_block (nth_page addr i) addr"
  unfolding same_block_def word_unat_eq_iff unat_drop by (rule nth_page_unat(2))

lemma leaf_neq:
  assumes "block_index addr + i < 512" "block_index addr + j < 512" "i \<noteq> j"
  shows "leaf_loc pm T (low (nth_page addr i)) \<noteq> leaf_loc pm T (low (nth_page addr j))"
proof
  have b: "same_block (nth_page addr i) (nth_page addr j)"
    using nth_page_block[OF assms(1)] nth_page_block[OF assms(2)] by (simp add: same_block_def)
  have ix: "unat (take_bit 9 (drop_bit 12 (low (nth_page addr k)))) = block_index addr + k" if "block_index addr + k < 512" for k
  proof -
    have "take_bit 9 (drop_bit 12 (low (nth_page addr k))) = take_bit 9 (drop_bit 12 (nth_page addr k))"
      by (rule bit_word_eqI) (auto simp: low_def bit_simps)
    moreover have "unat (take_bit 9 w) = unat w mod 512" for w :: u64
      by (simp add: take_bit_eq_mod unat_mod)
    ultimately show ?thesis using nth_page_unat(3)[OF that] by (simp add: unat_drop)
  qed
  assume "leaf_loc pm T (low (nth_page addr i)) = leaf_loc pm T (low (nth_page addr j))"
  then have "take_bit 9 (drop_bit 12 (low (nth_page addr i))) = take_bit 9 (drop_bit 12 (low (nth_page addr j)))"
    unfolding leaf_loc_def same_block_tables(2)[OF b] by (rule entry_loc_inj)
  then show False using ix[OF assms(1)] ix[OF assms(2)] assms(3) by simp
qed

section \<open>Writing the entries of a region\<close>

definition page_slot :: "u64 \<Rightarrow> u64" where
  "page_slot page = slot (half_of page) 0 (low page)"

definition leaf :: "Mmu \<Rightarrow> u64 \<Rightarrow> u64" where
  "leaf s page = leaf_loc (pmem s) (top_table s page) (low page)"

definition entries :: "Mmu \<Rightarrow> u64 \<Rightarrow> u64 set" where
  "entries s page = path (pmem s) (top_table s page) (low page)"

text \<open>The tables above the block of \<open>addr\<close> are there.\<close>

definition block_ready :: "Mmu \<Rightarrow> u64 \<Rightarrow> bool" where
  "block_ready s addr \<longleftrightarrow> page_ok s addr \<and> tables_apart (pmem s) (top_table s addr) (low addr)"

lemma block_ready_same: "same_block p q \<Longrightarrow> block_ready s p = block_ready s q"
  by (simp add: block_ready_def same_block_tables[of p q] same_block_half[of p q])

lemma block_write:
  assumes "block_ready s p"
  shows "run s (Write (page_slot p) v) = Some (s\<lparr>pmem := (pmem s)(leaf s p := v)\<rparr>)"
    "block_ready (s\<lparr>pmem := (pmem s)(leaf s p := v)\<rparr>) p"
    "same_block q p \<Longrightarrow> leaf (s\<lparr>pmem := (pmem s)(leaf s p := v)\<rparr>) q = leaf s q"
    "same_block q p \<Longrightarrow> entries (s\<lparr>pmem := (pmem s)(leaf s p := v)\<rparr>) q = entries s q"
proof -
  let ?T = "top_table s p" and ?s = "s\<lparr>pmem := (pmem s)(leaf s p := v)\<rparr>"
  have a: "page_ok s p" "tables_apart (pmem s) ?T (low p)" using assms by (simp_all add: block_ready_def)
  note w = write_leaf[OF a refl refl, of v, folded leaf_def page_slot_def]
  show "run s (Write (page_slot p) v) = Some ?s" using w(1) by (simp add: page_slot_def)
  have T: "top_table ?s x = top_table s x" for x by (simp add: top_table_def)
  show "block_ready ?s p" unfolding block_ready_def T
    using a(2) w(2,3,6) by (simp add: tables_apart_def)
  assume q: "same_block q p"
  have e: "entry2 (pmem ?s) ?T (low q) = entry2 (pmem s) ?T (low q)" "entry1 (pmem ?s) ?T (low q) = entry1 (pmem s) ?T (low q)"
    using w(2,3) same_block_tables(1,2)[OF q] by simp_all
  then show "leaf ?s q = leaf s q" unfolding leaf_def T same_block_half(2)[OF q] leaf_loc_def by simp
  then show "entries ?s q = entries s q" using e(2) unfolding entries_def path_def leaf_def T same_block_half(2)[OF q] by simp
qed

primrec write_pages :: "Mmu \<Rightarrow> u64 \<Rightarrow> (nat \<Rightarrow> u64) \<Rightarrow> nat \<Rightarrow> Mmu" where
  "write_pages s addr v 0 = s"
| "write_pages s addr v (Suc k) =
     (write_pages s addr v k)\<lparr>pmem := (pmem (write_pages s addr v k))(leaf s (nth_page addr k) := v k)\<rparr>"

lemma write_pages_spec:
  assumes "block_ready s addr" "block_index addr + k \<le> 512"
  shows "block_ready (write_pages s addr v k) addr"
    "same_block q addr \<Longrightarrow> leaf (write_pages s addr v k) q = leaf s q \<and> entries (write_pages s addr v k) q = entries s q"
    "i < k \<Longrightarrow> pmem (write_pages s addr v k) (leaf s (nth_page addr i)) = v i"
    "(\<forall>i < k. x \<noteq> leaf s (nth_page addr i)) \<Longrightarrow> pmem (write_pages s addr v k) x = pmem s x"
    "k < 512 - block_index addr \<Longrightarrow>
       run (write_pages s addr v k) (Write (page_slot (nth_page addr k)) (v k)) = Some (write_pages s addr v (Suc k))"
proof -
  have "block_ready (write_pages s addr v k) addr
    \<and> (\<forall>q. same_block q addr \<longrightarrow> leaf (write_pages s addr v k) q = leaf s q \<and> entries (write_pages s addr v k) q = entries s q)
    \<and> (\<forall>i < k. pmem (write_pages s addr v k) (leaf s (nth_page addr i)) = v i)" using assms
  proof (induction k)
    case (Suc k)
    let ?p = "nth_page addr k" and ?w = "write_pages s addr v k"
    have k: "block_index addr + k < 512" using Suc.prems(2) by simp
    note p = nth_page_block[OF k]
    from Suc have ih: "block_ready ?w addr" "\<forall>q. same_block q addr \<longrightarrow> leaf ?w q = leaf s q \<and> entries ?w q = entries s q"
      "\<forall>i < k. pmem ?w (leaf s (nth_page addr i)) = v i" by auto
    have r: "block_ready ?w ?p" using block_ready_same[OF p] ih(1) by simp
    have l: "leaf ?w ?p = leaf s ?p" using ih(2) p by blast
    note w = block_write[OF r, where v = "v k", unfolded l]
    have "leaf s (nth_page addr i) \<noteq> leaf s ?p" if "i < k" for i
      unfolding leaf_def using leaf_neq[of addr i k] that k nth_page_block[of addr i] p
      by (simp add: same_block_half(2)[of _ addr])
    then show ?case using w(2-4) ih p block_ready_same[OF p]
      by (auto simp: less_Suc_eq same_block_def)
  qed simp
  then show spec: "block_ready (write_pages s addr v k) addr"
    "same_block q addr \<Longrightarrow> leaf (write_pages s addr v k) q = leaf s q \<and> entries (write_pages s addr v k) q = entries s q"
    "i < k \<Longrightarrow> pmem (write_pages s addr v k) (leaf s (nth_page addr i)) = v i" for q i by blast+
  show "(\<forall>i < k. x \<noteq> leaf s (nth_page addr i)) \<Longrightarrow> pmem (write_pages s addr v k) x = pmem s x"
    by (induction k) auto
  assume "k < 512 - block_index addr"
  then have b: "same_block (nth_page addr k) addr" using nth_page_block by simp
  have "block_ready (write_pages s addr v k) (nth_page addr k)" using block_ready_same[OF b] spec(1) by simp
  from block_write(1)[OF this, of "v k"] spec(2)[OF b]
  show "run (write_pages s addr v k) (Write (page_slot (nth_page addr k)) (v k)) = Some (write_pages s addr v (Suc k))" by simp
qed

lemma write_pages_regs: "ttbr0_table (write_pages s addr v k) = ttbr0_table s" "ttbr1_table (write_pages s addr v k) = ttbr1_table s"
  by (induction k) simp_all

section \<open>The loops\<close>

definition pages_of :: "u64 \<Rightarrow> nat" where "pages_of sz = (unat sz + 4095) div 4096"

lemma page_counter:
  assumes "4096 * k < 2 ^ 64"
  shows "of_nat (4096 * k) < sz \<longleftrightarrow> k < pages_of sz"
  using assms by (auto simp: word_less_nat_alt unat_of_nat_no_wrap pages_of_def simp del: of_nat_mult)

lemma set_page_slot: "canonical p \<Longrightarrow> setPageEntry s 0 p frame flags = run s (Write (page_slot p) (makePageDescriptor frame flags))"
  "canonical p \<Longrightarrow> clearEntry s 0 p = run s (Write (page_slot p) 0)"
  using entry_ptr_slot[of p 0] by (simp_all add: setPageEntry_def clearEntry_def page_slot_def)

lemma region_loops:
  assumes r: "block_ready s addr" and n: "block_index addr + pages_of sz \<le> 512" and k: "k \<le> pages_of sz"
  shows "v = (\<lambda>i. makePageDescriptor (nth_page frame i) flags) \<Longrightarrow>
     map_region_from (write_pages s addr v k) (of_nat (4096 * k)) addr sz frame flags = Some (write_pages s addr v (pages_of sz))"
    "v = (\<lambda>i. 0) \<Longrightarrow>
     unmap_region_from (write_pages s addr v k) (of_nat (4096 * k)) addr sz = Some (write_pages s addr v (pages_of sz))"
proof -
  have step: "of_nat (4096 * j) < sz \<longleftrightarrow> j < pages_of sz" if "j \<le> pages_of sz" for j
    by (rule page_counter) (use that n in simp)
  have next_k: "(of_nat (4096 * j) + getBlockSize 0 :: u64) = of_nat (4096 * Suc j)" for j by (simp add: getBlockSize_def)
  have can: "canonical (nth_page addr j)" if "j < pages_of sz" for j
    using that n r same_block_half(3)[OF nth_page_block, of addr j] by (auto simp: block_ready_def page_ok_def)
  show "map_region_from (write_pages s addr v k) (of_nat (4096 * k)) addr sz frame flags = Some (write_pages s addr v (pages_of sz))"
    if "v = (\<lambda>i. makePageDescriptor (nth_page frame i) flags)" using k
  proof (induction "pages_of sz - k" arbitrary: k)
    case 0
    then show ?case using step[of k] by (subst map_region_from.simps) simp
  next
    case (Suc d)
    then have "k < pages_of sz" "d = pages_of sz - Suc k" by simp_all
    then show ?case
      using Suc(1)[of "Suc k"] step[of k] write_pages_spec(5)[OF r, of k v] n set_page_slot(1)[OF can, of k] that next_k[of k]
      by (subst map_region_from.simps) (simp add: nth_page_def del: of_nat_mult mult_Suc_right write_pages.simps)
  qed
  show "unmap_region_from (write_pages s addr v k) (of_nat (4096 * k)) addr sz = Some (write_pages s addr v (pages_of sz))"
    if "v = (\<lambda>i. 0)" using k
  proof (induction "pages_of sz - k" arbitrary: k)
    case 0
    then show ?case using step[of k] by (subst unmap_region_from.simps) simp
  next
    case (Suc d)
    then have "k < pages_of sz" "d = pages_of sz - Suc k" by simp_all
    then show ?case
      using Suc(1)[of "Suc k"] step[of k] write_pages_spec(5)[OF r, of k v] n set_page_slot(2)[OF can, of k] that next_k[of k]
      by (subst unmap_region_from.simps) (simp add: nth_page_def del: of_nat_mult mult_Suc_right write_pages.simps)
  qed
qed

section \<open>Properties\<close>

lemma ready_canonical: "block_ready s p \<Longrightarrow> canonical p"
  unfolding block_ready_def using page_okD(1) by blast

lemma translate_ready:
  assumes "block_ready s p" "bit (pmem s (leaf s p)) 0" "bit (pmem s (leaf s p)) 1"
  shows "translate s p = Inr (pmem s (leaf s p), next_table (pmem s (leaf s p)) + take_bit 12 p)"
proof -
  have "take_bit 12 (low p) = take_bit 12 p" by (simp add: low_def take_bit_take_bit)
  then show ?thesis using assms walk_leaf[of "pmem s" "top_table s p" "low p"] translate_page[OF ready_canonical[OF assms(1)]]
    by (simp add: block_ready_def leaf_def)
qed

lemma translate_cleared:
  assumes "block_ready s p" "\<not> bit (pmem s (leaf s p)) 0"
  shows "translate s p = Inl 3"
  using assms translate_page[OF ready_canonical[OF assms(1)]]
  unfolding block_ready_def tables_apart_def is_table_def walk_def leaf_def leaf_loc_def entry1_def entry2_def
  by (simp add: Let_def)

lemma same_page_leaf:
  assumes "drop_bit 12 x = drop_bit 12 p"
  shows "same_block x p" "leaf s x = leaf s p"
proof -
  have "drop_bit 21 w = drop_bit 9 (drop_bit 12 w)" for w :: u64 by (simp add: drop_bit_drop_bit)
  then show b: "same_block x p" using assms unfolding same_block_def by metis
  have "take_bit 9 (drop_bit 12 (low w)) = take_bit 9 (drop_bit 12 w)" for w
    by (rule bit_word_eqI) (auto simp: low_def bit_simps)
  then show "leaf s x = leaf s p"
    unfolding leaf_def leaf_loc_def same_block_half(2)[OF b] same_block_tables(2)[OF b] entry_loc_def using assms by simp
qed

lemma is_frame_unat: "is_frame f \<longleftrightarrow> unat f mod 4096 = 0 \<and> unat f < 2 ^ 48"
proof -
  have "take_bit 12 f = 0 \<longleftrightarrow> unat f mod 4096 = 0"
    by (simp add: take_bit_eq_mod unat_eq_zero[symmetric] unat_mod del: unat_eq_zero)
  moreover have "drop_bit 48 f = 0 \<longleftrightarrow> unat f div 2 ^ 48 = 0" using unat_drop[of 48 f] by (metis unat_eq_zero)
  ultimately show ?thesis by (simp add: is_frame_def div_eq_0_iff)
qed

lemma is_frame_nth:
  assumes "is_frame frame" "unat frame + 4096 * n \<le> 2 ^ 48" "i < n"
  shows "is_frame (nth_page frame i)"
proof -
  have "unat (of_nat (4096 * i) :: u64) = 4096 * i" using assms by (subst unat_of_nat_no_wrap) simp_all
  then have "unat (nth_page frame i) = unat frame + 4096 * i"
    unfolding nth_page_def using assms by (subst unat_add_no_wrap) simp_all
  then show ?thesis using assms by (simp add: is_frame_unat)
qed

lemma region_written:
  assumes r: "block_ready s addr" and n: "block_index addr + n \<le> 512" and i: "i < n"
    and x: "drop_bit 12 x = drop_bit 12 (nth_page addr i)"
  shows "block_ready (write_pages s addr v n) x" "pmem (write_pages s addr v n) (leaf (write_pages s addr v n) x) = v i"
proof -
  have b: "same_block x addr" "same_block (nth_page addr i) addr"
    using same_page_leaf(1)[OF x] nth_page_block[of addr i] n i by (auto simp: same_block_def)
  show "block_ready (write_pages s addr v n) x" using block_ready_same[OF b(1)] write_pages_spec(1)[OF r n] by simp
  show "pmem (write_pages s addr v n) (leaf (write_pages s addr v n) x) = v i"
    using write_pages_spec(2)[OF r n b(1)] write_pages_spec(3)[OF r n i] same_page_leaf(2)[OF x] by simp
qed

lemma region_maps:
  assumes m: "mappable s addr f g" and sz: "sz \<noteq> 0" and n: "block_index addr + pages_of sz \<le> 512"
    and fr: "is_frame frame" "unat frame + 4096 * pages_of sz \<le> 2 ^ 48"
  shows "\<exists>s'. map_region s addr sz frame flags = Some (0, s')
    \<and> (\<forall>i < pages_of sz. \<forall>x. drop_bit 12 x = drop_bit 12 (nth_page addr i) \<longrightarrow>
         translate s' x = Inr (makePageDescriptor (nth_page frame i) flags, nth_page frame i + take_bit 12 x))
    \<and> (\<forall>a. pmem s' a \<noteq> pmem s a \<longrightarrow> (\<exists>i < pages_of sz. a \<in> entries s' (nth_page addr i)))
    \<and> ttbr0_table s' = ttbr0_table s \<and> ttbr1_table s' = ttbr1_table s"
proof -
  define v where "v = (\<lambda>i. makePageDescriptor (nth_page frame i) flags)"
  have p0: "0 < pages_of sz" using sz by (simp add: pages_of_def unat_gt_0 div_greater_zero_iff word_gt_0 Suc_le_eq)
  obtain s1 where s1: "run s (Write (page_slot addr) (v 0)) = run s1 (Write (page_slot addr) (v 0))"
    "block_ready s1 addr" "\<forall>a. pmem s1 a \<noteq> pmem s a \<longrightarrow> a \<in> entries s1 addr"
    "ttbr0_table s1 = ttbr0_table s" "ttbr1_table s1 = ttbr1_table s"
    using write_through_faults[OF m, of "v 0"] unfolding block_ready_def page_slot_def entries_def by metis
  have can: "canonical addr" using s1(2) by (rule ready_canonical)
  have first: "nth_page addr 0 = addr" "nth_page frame 0 = frame" by (simp_all add: nth_page_def)
  let ?w = "write_pages s1 addr v (pages_of sz)"
  have "map_region_from s 0 addr sz frame flags = map_region_from s1 0 addr sz frame flags"
    using s1(1) sz set_page_slot(1)[OF can] first
    by (subst (1 2) map_region_from.simps) (simp add: v_def word_gt_0)
  then have run: "map_region s addr sz frame flags = Some (0, ?w)"
    using region_loops(1)[OF s1(2) n, of 0 v frame flags] by (simp add: map_region_def v_def)
  have "translate ?w x = Inr (v i, nth_page frame i + take_bit 12 x)"
    if "i < pages_of sz" "drop_bit 12 x = drop_bit 12 (nth_page addr i)" for i x
    using translate_ready[of ?w x] region_written[OF s1(2) n that, of v] is_frame_nth[OF fr that(1)]
    by (simp add: v_def pageDescriptor_bits pageDescriptor_bits(2)[unfolded One_nat_def] next_table_pageDescriptor)
  moreover have "\<exists>i < pages_of sz. a \<in> entries ?w (nth_page addr i)" if "pmem ?w a \<noteq> pmem s a" for a
  proof (cases "pmem ?w a = pmem s1 a")
    case True
    have "same_block addr addr" by (simp add: same_block_def)
    then have "entries ?w addr = entries s1 addr" using write_pages_spec(2)[OF s1(2) n] by blast
    then show ?thesis using s1(3) that True p0 first by (metis (no_types, lifting))
  next
    case False
    then obtain i where i: "i < pages_of sz" "a = leaf s1 (nth_page addr i)" using write_pages_spec(4)[OF s1(2) n] by blast
    then have "same_block (nth_page addr i) addr" using nth_page_block n by simp
    then have "entries ?w (nth_page addr i) = entries s1 (nth_page addr i)" using write_pages_spec(2)[OF s1(2) n] by blast
    then show ?thesis using i by (auto simp: entries_def path_def leaf_def)
  qed
  moreover have "ttbr0_table ?w = ttbr0_table s" "ttbr1_table ?w = ttbr1_table s" using s1(4,5) write_pages_regs by simp_all
  ultimately show ?thesis using run by (auto simp: v_def)
qed

text \<open>\<open>map_region\<close> maps every page of a region that lies in one block of two megabytes: after the first page has brought in
  the tables that are missing, every byte of page \<open>i\<close> translates to the frame \<open>i\<close> of the given run of
  frames, with the permissions, and only entries on the way to these pages changed.\<close>

theorem map_region_maps:
  assumes m: "mappable s addr f g" and sz: "sz \<noteq> 0" and n: "block_index addr + pages_of sz \<le> 512"
    and fr: "is_frame frame" "unat frame + 4096 * pages_of sz \<le> 2 ^ 48"
  shows "\<exists>s'. map_region s addr sz frame flags = Some (0, s')
    \<and> (\<forall>i < pages_of sz. \<forall>x. drop_bit 12 x = drop_bit 12 (nth_page addr i) \<longrightarrow>
         translate s' x = Inr (makePageDescriptor (nth_page frame i) flags, nth_page frame i + take_bit 12 x))
    \<and> (\<forall>a. pmem s' a \<noteq> pmem s a \<longrightarrow> (\<exists>i < pages_of sz. a \<in> entries s' (nth_page addr i)))"
  using region_maps[OF assms, of flags] by blast

lemma region_unmaps:
  assumes r: "block_ready s addr" and n: "block_index addr + pages_of sz \<le> 512"
  shows "\<exists>s'. unmap_region s addr sz = Some (0, s')
    \<and> (\<forall>i < pages_of sz. \<forall>x. drop_bit 12 x = drop_bit 12 (nth_page addr i) \<longrightarrow> translate s' x = Inl 3)
    \<and> (\<forall>a. pmem s' a \<noteq> pmem s a \<longrightarrow> (\<exists>i < pages_of sz. a = leaf s (nth_page addr i)))
    \<and> ttbr0_table s' = ttbr0_table s \<and> ttbr1_table s' = ttbr1_table s"
proof -
  let ?w = "write_pages s addr (\<lambda>_. 0) (pages_of sz)"
  have "unmap_region s addr sz = Some (0, ?w)"
    using region_loops(2)[OF r n, of 0 "\<lambda>_. 0"] by (simp add: unmap_region_def)
  moreover have "translate ?w x = Inl 3" if "i < pages_of sz" "drop_bit 12 x = drop_bit 12 (nth_page addr i)" for i x
    by (rule translate_cleared) (use region_written[OF r n that, of "\<lambda>_. 0"] in simp_all)
  moreover have "\<forall>a. pmem ?w a \<noteq> pmem s a \<longrightarrow> (\<exists>i < pages_of sz. a = leaf s (nth_page addr i))"
    using write_pages_spec(4)[OF r n, of _ "\<lambda>_. 0"] by metis
  ultimately show ?thesis using write_pages_regs by blast
qed

text \<open>\<open>unmap_region\<close> on such a region whose tables are there leaves every page of it unmapped and changes only the last entries
  of its pages.\<close>

theorem unmap_region_unmaps:
  assumes r: "block_ready s addr" and n: "block_index addr + pages_of sz \<le> 512"
  shows "\<exists>s'. unmap_region s addr sz = Some (0, s')
    \<and> (\<forall>i < pages_of sz. \<forall>x. drop_bit 12 x = drop_bit 12 (nth_page addr i) \<longrightarrow> translate s' x = Inl 3)
    \<and> (\<forall>a. pmem s' a \<noteq> pmem s a \<longrightarrow> (\<exists>i < pages_of sz. a = leaf s (nth_page addr i)))"
  using region_unmaps[OF assms] by blast

theorem map_region_maps_witness:
  "\<exists>s'. map_region sample_mmu 0x400000 0x2800 0x10000 (PAGE_RW OR PAGE_USER) = Some (0, s')
    \<and> translate s' 0x402040 = Inr (makePageDescriptor 0x12000 (PAGE_RW OR PAGE_USER), 0x12040)"
proof -
  have "(0x2800 :: u64) \<noteq> 0" "block_index 0x400000 + pages_of 0x2800 \<le> 512" "is_frame 0x10000"
    "unat (0x10000 :: u64) + 4096 * pages_of 0x2800 \<le> 2 ^ 48"
    by (simp_all add: block_index_def pages_of_def is_frame_unat)
  from map_region_maps[OF sample_mappable this, of "PAGE_RW OR PAGE_USER"]
  obtain s' where s': "map_region sample_mmu 0x400000 0x2800 0x10000 (PAGE_RW OR PAGE_USER) = Some (0, s')"
    "\<forall>i < pages_of 0x2800. \<forall>x. drop_bit 12 x = drop_bit 12 (nth_page 0x400000 i) \<longrightarrow>
       translate s' x = Inr (makePageDescriptor (nth_page 0x10000 i) (PAGE_RW OR PAGE_USER), nth_page 0x10000 i + take_bit 12 x)"
    by blast
  have "2 < pages_of 0x2800" "drop_bit 12 (0x402040 :: u64) = drop_bit 12 (nth_page 0x400000 2)"
    "nth_page 0x10000 2 = 0x12000" "(0x12000 :: u64) + take_bit 12 0x402040 = 0x12040"
    by (simp_all add: pages_of_def nth_page_def take_bit_eq_mod)
  then show ?thesis using s' by metis
qed

theorem unmap_region_unmaps_witness:
  "\<exists>s'. unmap_region (sample_mmu\<lparr>pmem := (pmem sample_mmu)(0x8000 := makeTableDescriptor 0x2000,
        0x2010 := makeTableDescriptor 0x3000, 0x3000 := makePageDescriptor 0x9000 3)\<rparr>) 0x400000 0x2000 = Some (0, s')
    \<and> translate s' 0x401000 = Inl 3"
proof -
  let ?s = "sample_mmu\<lparr>pmem := (pmem sample_mmu)(0x8000 := makeTableDescriptor 0x2000,
        0x2010 := makeTableDescriptor 0x3000, 0x3000 := makePageDescriptor 0x9000 3)\<rparr>"
  have "block_ready ?s 0x400000" by code_simp
  moreover have "block_index 0x400000 + pages_of 0x2000 \<le> 512" "1 < pages_of 0x2000" "nth_page 0x400000 1 = 0x401000"
    by (simp_all add: block_index_def pages_of_def nth_page_def)
  ultimately show ?thesis using unmap_region_unmaps[of ?s "0x400000" "0x2000"] by metis
qed

end
