(* ===== verification/Loader.thy ===== *)
theory Loader
  imports Map_Region Context
begin

text \<open>
  The loader of program images, \<^verbatim>\<open>src/loader/elf.cpp\<close> with the layouts of \<^verbatim>\<open>src/loader/elf.h\<close> for a 64-bit
  machine. The file lies in memory and its headers are read from there each time. The translation
  tables and the contents of memory by virtual address are two parts of the state.
\<close>

section \<open>Headers\<close>

datatype ELFEndianness = LITTLE | BIG

datatype ELFISA = NA | X86 | MIPS | PPC | PPC64 | ARM | X86_64 | AARCH64

fun isa_value :: "ELFISA \<Rightarrow> u16" where
  "isa_value NA = 0x00"
| "isa_value X86 = 0x03"
| "isa_value MIPS = 0x08"
| "isa_value PPC = 0x14"
| "isa_value PPC64 = 0x15"
| "isa_value ARM = 0x28"
| "isa_value X86_64 = 0x3E"
| "isa_value AARCH64 = 0xB7"

definition HOST_ISA :: ELFISA where "HOST_ISA = AARCH64"

datatype ELFSegmentType = UNUSED | LOAD | DYNAMIC

fun segment_value :: "ELFSegmentType \<Rightarrow> u32" where
  "segment_value UNUSED = 0"
| "segment_value LOAD = 1"
| "segment_value DYNAMIC = 2"

record ELFFileHeader =
  eh_magic :: u32
  eh_ident :: "u8 list"
  eh_type :: u16
  eh_machine :: u16
  eh_version :: u32
  eh_entry :: u64
  eh_phoffset :: u64
  eh_shoffset :: u64
  eh_flags :: u32
  eh_header_size :: u16
  eh_phsize :: u16
  eh_phcount :: u16
  eh_shsize :: u16
  eh_shcount :: u16
  eh_shstrndx :: u16

definition load16 :: "memory \<Rightarrow> u64 \<Rightarrow> u16" where "load16 m a = le_word (load_bytes m a 2)"
definition load32 :: "memory \<Rightarrow> u64 \<Rightarrow> u32" where "load32 m a = le_word (load_bytes m a 4)"

definition file_header :: "memory \<Rightarrow> u64 \<Rightarrow> ELFFileHeader" where
  "file_header m a = \<lparr>eh_magic = load32 m a, eh_ident = load_bytes m (a + 4) 12, eh_type = load16 m (a + 16),
     eh_machine = load16 m (a + 18), eh_version = load32 m (a + 20), eh_entry = load_long m (a + 24),
     eh_phoffset = load_long m (a + 32), eh_shoffset = load_long m (a + 40), eh_flags = load32 m (a + 48),
     eh_header_size = load16 m (a + 52), eh_phsize = load16 m (a + 54), eh_phcount = load16 m (a + 56),
     eh_shsize = load16 m (a + 58), eh_shcount = load16 m (a + 60), eh_shstrndx = load16 m (a + 62)\<rparr>"

record ELFProgramHeader =
  ph_type :: u32
  ph_flags :: u32
  ph_offset :: u64
  ph_vaddr :: u64
  ph_paddr :: physaddr_t
  ph_filesize :: u64
  ph_memsize :: u64
  ph_align :: u64

definition program_header :: "memory \<Rightarrow> u64 \<Rightarrow> ELFProgramHeader" where
  "program_header m a = \<lparr>ph_type = load32 m a, ph_flags = load32 m (a + 4), ph_offset = load_long m (a + 8),
     ph_vaddr = load_long m (a + 16), ph_paddr = load_long m (a + 24), ph_filesize = load_long m (a + 32),
     ph_memsize = load_long m (a + 40), ph_align = load_long m (a + 48)\<rparr>"

section \<open>The file\<close>

record ELF =
  elf_header :: u64
  sectionIndex :: nat

definition ELF_init :: "u64 \<Rightarrow> ELF" where "ELF_init file = \<lparr>elf_header = file, sectionIndex = 0\<rparr>"

definition fileLocation :: "ELF \<Rightarrow> u64" where "fileLocation elf = elf_header elf"

definition fileHeader :: "memory \<Rightarrow> ELF \<Rightarrow> ELFFileHeader" where
  "fileHeader m elf = file_header m (elf_header elf)"

definition isValid :: "memory \<Rightarrow> ELF \<Rightarrow> bool" where
  "isValid m elf \<longleftrightarrow> eh_magic (fileHeader m elf) = 0x464c457f \<and> eh_phcount (fileHeader m elf) > 0"

text \<open>The program headers are taken to have the size of the class, whatever the file header says.\<close>

definition currentSection :: "memory \<Rightarrow> ELF \<Rightarrow> ELFProgramHeader" where
  "currentSection m elf = program_header m (elf_header elf + eh_phoffset (fileHeader m elf) + 56 * of_nat (sectionIndex elf))"

definition nextSection :: "memory \<Rightarrow> ELF \<Rightarrow> bool \<times> ELF" where
  "nextSection m elf = (let i = (if sectionIndex elf + 1 \<ge> unat (eh_phcount (fileHeader m elf)) then 0 else sectionIndex elf + 1)
     in (i > 0, elf\<lparr>sectionIndex := i\<rparr>))"

section \<open>Loading\<close>

text \<open>The region that is mapped for a section at \<open>dest\<close>; \<open>old\<close> is the frame that is there already, or 0.\<close>

definition section_region :: "u64 \<Rightarrow> u64 \<Rightarrow> physaddr_t \<Rightarrow> u64 \<times> u64" where
  "section_region dest sectionSize old = (let diff = dest mod page_size in
     if old = 0 then (dest - diff, sectionSize + diff)
     else (dest + (page_size - diff), sectionSize - (page_size - diff)))"

text \<open>One pass of the loop, with \<open>False\<close> when there is no memory. The size is converted to \<open>int\<close> by the
  call of \<open>memset\<close>.\<close>

definition load_section :: "Mmu \<Rightarrow> memory \<Rightarrow> ELF \<Rightarrow> (bool \<times> Mmu \<times> memory) option" where
  "load_section s m elf = (let ph = currentSection m elf in
     if ph_type ph \<noteq> segment_value LOAD then Some (True, s, m)
     else do {
       let sectionSize = ph_memsize ph;
       (frame, pa) \<leftarrow> pa_reserve (frame_pool s) sectionSize;
       let s1 = s\<lparr>frame_pool := pa\<rparr>;
       (if frame = NOMEM then Some (False, s1, m)
        else do {
          let fileSize = ph_filesize ph;
          let dest = ph_vaddr ph;
          let src = fileLocation elf + ph_offset ph;
          old \<leftarrow> getPageFrame s1 dest;
          let (mapPtr, mapSize) = section_region dest sectionSize old;
          (r, s2) \<leftarrow> map_region s1 mapPtr mapSize frame (PAGE_RW OR PAGE_USER OR PAGE_EXE);
          let m1 = memset m dest (sint (ucast sectionSize :: u32)) 0;
          Some (True, s2, memcpy m1 dest src (unat fileSize)) }) })"

partial_function (option) load_sections :: "Mmu \<Rightarrow> memory \<Rightarrow> ELF \<Rightarrow> (int \<times> Mmu \<times> memory) option" where
  "load_sections s m elf = do {
     (ok, s1, m1) \<leftarrow> load_section s m elf;
     (if \<not> ok then Some (- 1, s1, m1)
      else let (more, elf') = nextSection m1 elf in
        if more then load_sections s1 m1 elf' else Some (0, s1, m1)) }"

declare load_sections.simps [code]

definition buildProgramImage :: "Mmu \<Rightarrow> memory \<Rightarrow> ELF \<Rightarrow> (int \<times> Mmu \<times> memory) option" where
  "buildProgramImage s m elf = (if \<not> isValid m elf then Some (- 1, s, m) else load_sections s m elf)"

section \<open>The contents of a loaded section\<close>

lemma memcpy_store:
  assumes "unat d + n \<le> 2 ^ 64" "unat s + n \<le> 2 ^ 64" "unat s + n \<le> unat d \<or> unat d + n \<le> unat s"
  shows "memcpy m d s n = store_bytes m d (load_bytes m s n)"
  using assms
proof (induction n arbitrary: m d s)
  case (Suc n)
  show ?case
  proof (cases n)
    case (Suc k)
    have u: "unat (d + 1) = unat d + 1" "unat (s + 1) = unat s + 1"
      using Suc.prems Suc by (intro unat_suc; simp)+
    have "load_bytes (m(d := m s)) (s + 1) n = load_bytes m (s + 1) n"
      by (rule load_bytes_same[of "unat d" "unat d + 1"])
        (use Suc.prems u in \<open>auto simp: same_outside_def clear_of_def word_unat_eq_iff[symmetric]\<close>)
    moreover have "memcpy (m(d := m s)) (d + 1) (s + 1) n = store_bytes (m(d := m s)) (d + 1) (load_bytes (m(d := m s)) (s + 1) n)"
      by (rule Suc.IH) (use Suc.prems u in auto)
    ultimately show ?thesis by (simp add: memcpy_def load_bytes_Suc)
  qed (simp add: memcpy_def load_bytes_Suc load_bytes_def)
qed (simp add: memcpy_def load_bytes_def)

text \<open>\<open>memset\<close> and \<open>memcpy\<close> of a section: the bytes of the file, then zeros, and nothing else.\<close>

lemma section_contents:
  fixes d src :: u64 and m :: memory
  assumes "unat d + n \<le> 2 ^ 64" "k \<le> n" "clear_of (unat d) (unat d + n) src k"
  defines "m' \<equiv> memcpy (memset m d (int n) 0) d src k"
  shows "load_bytes m' d k = load_bytes m src k" "load_bytes m' (d + of_nat k) (n - k) = replicate (n - k) 0"
    "same_outside (unat d) (unat d + n) m m'"
proof -
  let ?z = "memset m d (int n) 0"
  have z: "same_outside (unat d) (unat d + n) m ?z" "load_bytes ?z d n = replicate n 0"
    using store_bytes_same_outside[of d "replicate n 0" m] load_store_bytes[of d "replicate n 0" m] assms(1)
    by (simp_all add: memset_def)
  have src: "load_bytes ?z src k = load_bytes m src k" by (rule load_bytes_same[OF z(1) assms(3)])
  have m': "m' = store_bytes ?z d (load_bytes m src k)" unfolding m'_def src[symmetric]
    by (rule memcpy_store) (use assms(1-3) in \<open>auto simp: clear_of_def\<close>)
  have l: "length (load_bytes m src k) = k" by (simp add: load_bytes_def)
  have k: "unat d + length (load_bytes m src k) \<le> 2 ^ 64" using assms(1,2) l by simp
  show "load_bytes m' d k = load_bytes m src k" using load_store_bytes[OF k, of ?z] m' l by simp
  have s': "same_outside (unat d) (unat d + k) ?z m'" unfolding m' using store_bytes_same_outside[OF k, of ?z] l by simp
  show "same_outside (unat d) (unat d + n) m m'"
    by (rule same_outside_trans[OF z(1) s']) (use assms(2) in simp_all)
  show "load_bytes m' (d + of_nat k) (n - k) = replicate (n - k) 0"
  proof (cases "k < n")
    case True
    then have u: "unat (d + of_nat k) = unat d + k" using assms(1) by (intro unat_add_of_nat) simp
    have "load_bytes m' (d + of_nat k) (n - k) = load_bytes ?z (d + of_nat k) (n - k)"
      by (rule load_bytes_same[OF s']) (use assms(1,2) u in \<open>simp add: clear_of_def\<close>)
    also have "\<dots> = drop k (load_bytes ?z d n)"
      using assms(2) by (auto simp: load_bytes_def algebra_simps intro!: nth_equalityI)
    finally show ?thesis using z(2) by simp
  qed (simp add: load_bytes_def)
qed

lemma int_size: "unat (sz :: u64) < 2 ^ 31 \<Longrightarrow> sint (ucast sz :: u32) = int (unat sz)"
proof -
  assume a: "unat sz < 2 ^ 31"
  have "int (unat sz) < 2 ^ 31" using a by (metis of_nat_less_iff of_nat_numeral of_nat_power)
  then have b: "uint sz < 2 ^ 31" unfolding uint_nat .
  have u: "uint (ucast sz :: u32) = uint sz"
    unfolding unsigned_ucast_eq using b by (intro take_bit_int_eq_self) simp_all
  have "- (2 ^ 31) \<le> uint sz" by (rule order_trans[of _ 0]) simp_all
  then have "sint (ucast sz :: u32) = uint sz"
    unfolding sint_uint u using b signed_take_bit_int_eq_self[of 31 "uint sz"] by simp
  then show ?thesis by simp
qed

text \<open>What is needed to load a section into fresh pages: frames for it, a first page that is not mapped yet,
  a region within one block of two megabytes, sizes that fit an \<open>int\<close>, and a file that does not overlap with
  it.\<close>

definition section_end :: "ELFProgramHeader \<Rightarrow> nat" where
  "section_end ph = unat (ph_vaddr ph) + unat (ph_memsize ph)"

definition first_page :: "ELFProgramHeader \<Rightarrow> u64" where
  "first_page ph = ph_vaddr ph - ph_vaddr ph mod page_size"

definition section_pages :: "ELFProgramHeader \<Rightarrow> nat" where
  "section_pages ph = pages_of (ph_memsize ph + ph_vaddr ph mod page_size)"

definition section_loadable :: "Mmu \<Rightarrow> ELF \<Rightarrow> ELFProgramHeader \<Rightarrow> physaddr_t \<Rightarrow> PageAllocator \<Rightarrow> u64 \<Rightarrow> u64 \<Rightarrow> bool" where
  "section_loadable s elf ph frame pa f g \<longleftrightarrow> ph_type ph = segment_value LOAD
     \<and> pa_reserve (frame_pool s) (ph_memsize ph) = Some (frame, pa) \<and> is_frame frame
     \<and> getPageFrame (s\<lparr>frame_pool := pa\<rparr>) (ph_vaddr ph) = Some 0
     \<and> mappable (s\<lparr>frame_pool := pa\<rparr>) (first_page ph) f g
     \<and> ph_memsize ph + ph_vaddr ph mod page_size \<noteq> 0
     \<and> block_index (first_page ph) + section_pages ph \<le> 512 \<and> unat frame + 4096 * section_pages ph \<le> 2 ^ 48
     \<and> unat (ph_memsize ph) < 2 ^ 31 \<and> ph_filesize ph \<le> ph_memsize ph \<and> section_end ph \<le> 2 ^ 64
     \<and> clear_of (unat (ph_vaddr ph)) (section_end ph) (elf_header elf + ph_offset ph) (unat (ph_filesize ph))"

text \<open>What loading it does: the bytes of the file followed by zeros, nothing else in memory, and every page mapped to
  its frame.\<close>

definition loaded :: "memory \<Rightarrow> ELF \<Rightarrow> ELFProgramHeader \<Rightarrow> physaddr_t \<Rightarrow> Mmu \<Rightarrow> memory \<Rightarrow> bool" where
  "loaded m elf ph frame s' m' \<longleftrightarrow>
     load_bytes m' (ph_vaddr ph) (unat (ph_filesize ph)) = load_bytes m (elf_header elf + ph_offset ph) (unat (ph_filesize ph))
     \<and> load_bytes m' (ph_vaddr ph + ph_filesize ph) (unat (ph_memsize ph) - unat (ph_filesize ph))
         = replicate (unat (ph_memsize ph) - unat (ph_filesize ph)) 0
     \<and> same_outside (unat (ph_vaddr ph)) (section_end ph) m m'
     \<and> (\<forall>i < section_pages ph. \<forall>x. drop_bit 12 x = drop_bit 12 (nth_page (first_page ph) i) \<longrightarrow>
          translate s' x = Inr (makePageDescriptor (nth_page frame i) (PAGE_RW OR PAGE_USER OR PAGE_EXE),
                                nth_page frame i + take_bit 12 x))"

lemma load_section_loads:
  assumes ph: "ph = currentSection m elf" and ok: "section_loadable s elf ph frame pa f g"
  shows "\<exists>s' m'. load_section s m elf = Some (True, s', m') \<and> loaded m elf ph frame s' m'"
proof -
  let ?p = "PAGE_RW OR PAGE_USER OR PAGE_EXE" and ?sz = "ph_memsize ph + ph_vaddr ph mod page_size"
  note l = ok[unfolded section_loadable_def section_pages_def section_end_def]
  obtain s' where s': "map_region (s\<lparr>frame_pool := pa\<rparr>) (first_page ph) ?sz frame ?p = Some (0, s')"
    "\<forall>i < pages_of ?sz. \<forall>x. drop_bit 12 x = drop_bit 12 (nth_page (first_page ph) i) \<longrightarrow>
       translate s' x = Inr (makePageDescriptor (nth_page frame i) ?p, nth_page frame i + take_bit 12 x)"
    using region_maps[of "s\<lparr>frame_pool := pa\<rparr>" "first_page ph" f g ?sz frame ?p] l by blast
  have nomem: "frame \<noteq> NOMEM" using l by (auto simp: is_frame_def NOMEM_def)
  have region: "section_region (ph_vaddr ph) (ph_memsize ph) 0 = (first_page ph, ?sz)"
    by (simp add: section_region_def first_page_def Let_def)
  have sz: "sint (ucast (ph_memsize ph) :: u32) = int (unat (ph_memsize ph))" using l by (intro int_size) blast
  let ?m = "memcpy (memset m (ph_vaddr ph) (int (unat (ph_memsize ph))) 0) (ph_vaddr ph) (elf_header elf + ph_offset ph) (unat (ph_filesize ph))"
  have "load_section s m elf = Some (True, s', ?m)"
    unfolding load_section_def ph[symmetric] Let_def
    using l nomem region s'(1) by (simp add: sz fileLocation_def)
  moreover have "loaded m elf ph frame s' ?m"
    using section_contents[of "ph_vaddr ph" "unat (ph_memsize ph)" "unat (ph_filesize ph)" "elf_header elf + ph_offset ph" m] l s'(2)
    unfolding loaded_def section_pages_def section_end_def by (simp add: word_le_nat_alt)
  ultimately show ?thesis by blast
qed

section \<open>Properties\<close>


text \<open>A file at \<open>0x700000\<close> with one section of 16 bytes at \<open>0x400FF8\<close>, the first 8 of which are in the file; the bytes
  that are not listed are zero.\<close>

definition sample_bytes :: "(u64 \<times> u8) list" where
  "sample_bytes = [(0x700000, 0x7f), (0x700001, 0x45), (0x700002, 0x4c), (0x700003, 0x46), (0x700018, 0xF8), (0x700019, 0x0F),
     (0x70001A, 0x40), (0x700020, 64), (0x700038, 1), (0x700040, 1), (0x700048, 120), (0x700050, 0xF8), (0x700051, 0x0F),
     (0x700052, 0x40), (0x700060, 8), (0x700068, 16), (0x700078, 1), (0x700079, 2), (0x70007A, 3), (0x70007B, 4),
     (0x70007C, 5), (0x70007D, 6), (0x70007E, 7), (0x70007F, 8)]"

definition sample_file :: memory where
  "sample_file x = (case map_of sample_bytes x of None \<Rightarrow> 0 | Some b \<Rightarrow> b)"

definition loader_pool :: PageAllocator where
  "loader_pool = the (PageAllocator_init [\<lparr>reg_type = AVAILABLE, reg_location = 0x2000, reg_size = 0x4000\<rparr>]
     (\<lambda>_. Block_default) 4096)"

definition loader_mmu :: Mmu where
  "loader_mmu = \<lparr>pmem = (\<lambda>_. 0)(0x8FF8 := makeTableDescriptor 0x8000, 0x8000 := makeTableDescriptor 0x9000,
     0x9010 := makeTableDescriptor 0xA000), ttbr0_table = 0x8000, ttbr1_table = 0, frame_pool = loader_pool\<rparr>"

lemmas sample_loads = load16_def load32_def load_long_def load_bytes_def upt_conv_Cons sample_file_def sample_bytes_def push_bit_eq_mult

lemma sample_header:
  "eh_magic (fileHeader sample_file (ELF_init 0x700000)) = 0x464c457f"
  "eh_phcount (fileHeader sample_file (ELF_init 0x700000)) = 1"
  "eh_phoffset (fileHeader sample_file (ELF_init 0x700000)) = 64"
  by (simp_all add: fileHeader_def file_header_def ELF_init_def sample_loads)

definition sample_section :: ELFProgramHeader where
  "sample_section = \<lparr>ph_type = 1, ph_flags = 0, ph_offset = 120, ph_vaddr = 0x400FF8, ph_paddr = 0, ph_filesize = 8,
     ph_memsize = 16, ph_align = 0\<rparr>"

lemma sample_current: "currentSection sample_file (ELF_init 0x700000) = sample_section"
proof -
  have "load32 sample_file 0x700040 = 1" "load32 sample_file 0x700044 = 0" "load_long sample_file 0x700048 = 120"
    "load_long sample_file 0x700050 = 0x400FF8" "load_long sample_file 0x700058 = 0" "load_long sample_file 0x700060 = 8"
    "load_long sample_file 0x700068 = 16" "load_long sample_file 0x700070 = 0"
    by (simp_all add: sample_loads)
  then show ?thesis unfolding currentSection_def sample_header
    by (simp add: ELF_init_def program_header_def sample_section_def)
qed

text \<open>The run of the loader on this file: the frame reserved for the section, what is mapped behind its first page, and the
  next frame that the allocator hands out.\<close>

lemma sample_mapping:
  "do { (frame, pa) \<leftarrow> pa_reserve (frame_pool loader_mmu) 16;
        let s1 = loader_mmu\<lparr>frame_pool := pa\<rparr>;
        old \<leftarrow> getPageFrame s1 0x400FF8;
        (r, s2) \<leftarrow> map_region s1 (fst (section_region 0x400FF8 16 old)) (snd (section_region 0x400FF8 16 old)) frame
                     (PAGE_RW OR PAGE_USER OR PAGE_EXE);
        (nxt, pb) \<leftarrow> pa_reserve (frame_pool s2) 4096;
        Some (frame, old, translate s2 0x401000, nxt) }
   = Some (0x2000, 0, Inr (makePageDescriptor 0x3000 7, 0x3000), 0x3000)" by code_simp

text \<open>A section that does not start at the beginning of a page can be mapped beyond the frames that were reserved for it: the
  section of 16 bytes at \<open>0x400FF8\<close> gets one frame, its second page is mapped to the frame behind it,
  and that frame is the next one the allocator hands out.\<close>

theorem loader_maps_free_frame:
  "\<exists>s' m' pa. load_section loader_mmu sample_file (ELF_init 0x700000) = Some (True, s', m')
     \<and> translate s' 0x401000 = Inr (makePageDescriptor 0x3000 7, 0x3000)
     \<and> pa_reserve (frame_pool s') 4096 = Some (0x3000, pa)"
proof -
  obtain pa s2 r pb where r: "pa_reserve (frame_pool loader_mmu) 16 = Some (0x2000, pa)"
    "getPageFrame (loader_mmu\<lparr>frame_pool := pa\<rparr>) 0x400FF8 = Some 0"
    "map_region (loader_mmu\<lparr>frame_pool := pa\<rparr>) (fst (section_region 0x400FF8 16 0)) (snd (section_region 0x400FF8 16 0)) 0x2000
       (PAGE_RW OR PAGE_USER OR PAGE_EXE) = Some (r, s2)"
    "translate s2 0x401000 = Inr (makePageDescriptor 0x3000 7, 0x3000)" "pa_reserve (frame_pool s2) 4096 = Some (0x3000, pb)"
    using sample_mapping by (auto simp: bind_eq_Some_conv Let_def)
  have "ph_type sample_section = segment_value LOAD" "ph_memsize sample_section = 16" "ph_vaddr sample_section = 0x400FF8"
    "(0x2000 :: u64) \<noteq> NOMEM" by (simp_all add: sample_section_def NOMEM_def)
  then have "\<exists>m'. load_section loader_mmu sample_file (ELF_init 0x700000) = Some (True, s2, m')"
    unfolding load_section_def sample_current Let_def using r(1-3) by (simp add: case_prod_beta)
  then show ?thesis using r(4,5) by blast
qed

text \<open>A section that starts in a page that is mapped already and ends before the next page: the size of the region to map wraps
  around.\<close>

lemma section_region_wraps: "section_region 0x400100 16 0x9000 = (0x401000, 0xFFFFFFFFFFFFF110)"
  by (simp add: section_region_def page_size_def Let_def)

text \<open>Only the magic number and the number of sections are checked, not the machine.\<close>

lemma isValid_ignores_machine:
  "fileHeader m elf = fileHeader m' elf\<lparr>eh_machine := v\<rparr> \<Longrightarrow> isValid m elf = isValid m' elf"
  by (simp add: isValid_def)

lemma loader_mappable:
  "\<exists>pa. pa_reserve (frame_pool loader_mmu) 16 = Some (0x2000, pa)
     \<and> getPageFrame (loader_mmu\<lparr>frame_pool := pa\<rparr>) 0x400FF8 = Some 0
     \<and> mappable (loader_mmu\<lparr>frame_pool := pa\<rparr>) 0x400000 0x3000 0x4000"
proof -
  have "do { (frame, pa) \<leftarrow> pa_reserve (frame_pool loader_mmu) 16; (f, pb) \<leftarrow> pa_reserve pa page_size;
      (g, pc) \<leftarrow> pa_reserve pb page_size; let s1 = loader_mmu\<lparr>frame_pool := pa\<rparr>;
      Some (frame, f, g, getPageFrame s1 0x400FF8, page_ok s1 0x400000, top_table s1 0x400000,
        tables_apart (pmem s1) 0x8000 (low 0x400000), next_table (entry1 (pmem s1) 0x8000 (low 0x400000))) }
    = Some (0x2000, 0x3000, 0x4000, Some 0, True, 0x8000, True, 0x9000)" by code_simp
  then obtain pa pb pc where r: "pa_reserve (frame_pool loader_mmu) 16 = Some (0x2000, pa)"
    "pa_reserve pa page_size = Some (0x3000, pb)" "pa_reserve pb page_size = Some (0x4000, pc)"
    "getPageFrame (loader_mmu\<lparr>frame_pool := pa\<rparr>) 0x400FF8 = Some 0" "page_ok (loader_mmu\<lparr>frame_pool := pa\<rparr>) 0x400000"
    "top_table (loader_mmu\<lparr>frame_pool := pa\<rparr>) 0x400000 = 0x8000"
    "tables_apart (pmem loader_mmu) 0x8000 (low 0x400000)" "next_table (entry1 (pmem loader_mmu) 0x8000 (low 0x400000)) = 0x9000"
    by (auto simp: bind_eq_Some_conv Let_def)
  have "is_frame 0x3000" "is_frame 0x4000" by (simp_all add: is_frame_unat)
  then have "mappable (loader_mmu\<lparr>frame_pool := pa\<rparr>) 0x400000 0x3000 0x4000"
    unfolding mappable_def Let_def r(6) using r by (auto simp: tables_apart_def Let_def)
  then show ?thesis using r(1,4) by blast
qed

lemma sample_loadable: "\<exists>pa. section_loadable loader_mmu (ELF_init 0x700000) sample_section 0x2000 pa 0x3000 0x4000"
proof -
  obtain pa where r: "pa_reserve (frame_pool loader_mmu) 16 = Some (0x2000, pa)"
    "getPageFrame (loader_mmu\<lparr>frame_pool := pa\<rparr>) 0x400FF8 = Some 0"
    "mappable (loader_mmu\<lparr>frame_pool := pa\<rparr>) 0x400000 0x3000 0x4000" using loader_mappable by blast
  have "first_page sample_section = 0x400000" "section_pages sample_section = 2" "section_end sample_section = 0x401008"
    "is_frame 0x2000"
    by (simp_all add: first_page_def section_pages_def section_end_def sample_section_def page_size_def pages_of_def is_frame_unat)
  then show ?thesis unfolding section_loadable_def using r
    by (simp add: sample_section_def block_index_def page_size_def clear_of_def ELF_init_def)
qed


end
