(* ===== verification/System.thy ===== *)
theory System
  imports Kernel Heap Loader
begin

text \<open>
  The kernel with its memory: the parts of \<^verbatim>\<open>src/kernel.cpp\<close> that use the translation tables, the heap,
  the loader, the file system and the log. The state is the kernel, the heap with the translation
  tables behind it, and the counter of \<open>createAddressSpace\<close>. The table register of the user half is
  the one that \<open>loadAddressSpace\<close> sets. An array on the heap lies in kernel memory at the address
  \<open>rmalloc\<close> returns; the words the allocator itself keeps are in the heap.
\<close>

section \<open>State\<close>

record System =
  kern :: Kernel
  kheap :: Heap
  idCounter :: int

definition sys_world :: "System \<Rightarrow> world" where "sys_world s = kworld (kern s)"
definition set_world :: "System \<Rightarrow> world \<Rightarrow> System" where "set_world s w = s\<lparr>kern := (kern s)\<lparr>kworld := w\<rparr>\<rparr>"

definition sys_tables :: "System \<Rightarrow> Mmu" where
  "sys_tables s = (hmmu (kheap s))\<lparr>ttbr0_table := next_table (ttbr0 (sys_world s))\<rparr>"
definition set_tables :: "System \<Rightarrow> Mmu \<Rightarrow> System" where "set_tables s m = s\<lparr>kheap := (kheap s)\<lparr>hmmu := m\<rparr>\<rparr>"

definition sys_mem :: "System \<Rightarrow> memory" where "sys_mem s = umem (sys_world s)"
definition set_mem :: "System \<Rightarrow> memory \<Rightarrow> System" where "set_mem s m = set_world s (store_umem (sys_world s) m)"

definition sys_rmalloc :: "System \<Rightarrow> u64 \<Rightarrow> (u64 \<times> System) option" where
  "sys_rmalloc s sz = do { (p, h) \<leftarrow> rmalloc ((kheap s)\<lparr>hmmu := sys_tables s\<rparr>) sz; Some (p, s\<lparr>kheap := h\<rparr>) }"

definition sys_rfree :: "System \<Rightarrow> u64 \<Rightarrow> System option" where
  "sys_rfree s p = do { h \<leftarrow> rfree (kheap s) p; Some (s\<lparr>kheap := h\<rparr>) }"

text \<open>The operators \<open>new\<close> and \<open>delete\<close> of \<^verbatim>\<open>src/memory/new.cpp\<close>.\<close>

definition operator_new :: "System \<Rightarrow> u64 \<Rightarrow> (u64 \<times> System) option" where "operator_new s sz = sys_rmalloc s sz"
definition operator_delete :: "System \<Rightarrow> u64 \<Rightarrow> System option" where "operator_delete s p = sys_rfree s p"

definition on_kernel :: "(Kernel \<Rightarrow> Kernel option) \<Rightarrow> System \<Rightarrow> System option" where
  "on_kernel f s = do { k \<leftarrow> f (kern s); Some (s\<lparr>kern := k\<rparr>) }"

definition sys_return :: "System \<Rightarrow> int \<Rightarrow> System option" where
  "sys_return s v = on_kernel (\<lambda>k. setCallerReturn k (word_of_int v)) s"

definition sys_log :: "System \<Rightarrow> LogLevel \<Rightarrow> string \<Rightarrow> slot list \<Rightarrow> System option" where
  "sys_log s level fmt args = on_kernel (\<lambda>k. klog k level fmt args) s"

text \<open>A string in memory, without and with its terminating zero.\<close>

definition c_string :: "memory \<Rightarrow> u64 \<Rightarrow> u8 list option" where
  "c_string m p = (if p = 0 then None else do { n \<leftarrow> strlen m p; Some (load_bytes m p n) })"

section \<open>Initialisation\<close>

text \<open>\<open>heap_start\<close> is the address of \<open>__end\<close>, behind the kernel image, and \<open>blocks\<close> what memory holds there.\<close>

definition page_align :: "u64 \<Rightarrow> u64" where
  "page_align a = (a + (page_size - 1)) AND NOT (page_size - 1)"

definition initMemory :: "System \<Rightarrow> u64 \<Rightarrow> (nat \<Rightarrow> Block) \<Rightarrow> MemoryMap \<Rightarrow> u64 \<Rightarrow> (int \<times> System) option" where
  "initMemory s heap_start blocks memoryMap kernelSize = do {
     s0 \<leftarrow> sys_log s DEBUG ''Constructing page allocator at %016x'' [Word heap_start];
     pa \<leftarrow> PageAllocator_init memoryMap blocks page_size;
     ms \<leftarrow> mapSize memoryMap page_size;
     let pageMapEnd = page_align (heap_start + ms);
     let heapSize = (high_mem + kernelSize) - pageMapEnd;
     s1 \<leftarrow> sys_log s0 DEBUG ''Constructing kernel heap at %016x with size %016x'' [Word pageMapEnd, Word heapSize];
     h \<leftarrow> init_heap ((kheap s1)\<lparr>hmmu := (hmmu (kheap s1))\<lparr>frame_pool := pa\<rparr>\<rparr>) pageMapEnd heapSize;
     Some (0, s1\<lparr>kheap := h\<rparr>) }"

text \<open>The file system in the RAM image \<open>img\<close> of \<open>n\<close> bytes at the address \<open>addr\<close>; \<open>old\<close> is what memory holds where the new
  object is built, and \<open>prev\<close> the address of the previous one, if any.\<close>

definition initRamFS :: "nat \<Rightarrow> System \<Rightarrow> u64 \<Rightarrow> u64 \<Rightarrow> FAT32 \<Rightarrow> (int \<Rightarrow> u8) \<Rightarrow> int \<Rightarrow> (int \<times> System) option" where
  "initRamFS depth s addr prev old img n = do {
     s0 \<leftarrow> sys_log s DEBUG ''Creating ramfs %016x'' [Word addr];
     s1 \<leftarrow> (if ramfs (sys_world s0) \<noteq> None then sys_log s0 INFO ''Deleting previous ramfs %016x'' [Word prev] else Some s0);
     fs \<leftarrow> FAT32_new depth old img n;
     Some (0, set_world s1 ((sys_world s1)\<lparr>ramfs := Some fs\<rparr>)) }"

definition getRamFS :: "System \<Rightarrow> FAT32 option" where "getRamFS s = ramfs (sys_world s)"

section \<open>System calls on memory, files and the log\<close>

text \<open>The string of the user is the format of the output.\<close>

definition syscall_printk :: "System \<Rightarrow> u64 \<Rightarrow> System option" where
  "syscall_printk s str = do {
     t \<leftarrow> c_string (sys_mem s) str;
     u \<leftarrow> printf (Some (uart_dev (sys_world s))) (t @ [0]) [];
     u' \<leftarrow> u;
     sys_return (set_world s ((sys_world s)\<lparr>uart_dev := u'\<rparr>)) (error_value ENONE) }"

definition syscall_mmap :: "System \<Rightarrow> u64 \<Rightarrow> u64 \<Rightarrow> u32 \<Rightarrow> System option" where
  "syscall_mmap s ptr sz flags = do {
     (frame, pa) \<leftarrow> pa_reserve (frame_pool (sys_tables s)) sz;
     let t = (sys_tables s)\<lparr>frame_pool := pa\<rparr>;
     (if frame = NOMEM then sys_return (set_tables s t) (error_value ENOMEM)
      else do {
        (r, t') \<leftarrow> map_region t ptr sz frame (flags OR PAGE_USER);
        sys_return (set_tables s t') r }) }"

definition syscall_munmap :: "System \<Rightarrow> u64 \<Rightarrow> u64 \<Rightarrow> System option" where
  "syscall_munmap s ptr sz = do {
     (r, t) \<leftarrow> unmap_region (sys_tables s) ptr sz;
     sys_return (set_tables s t) (error_value ENONE) }"

definition syscall_open :: "System \<Rightarrow> u64 \<Rightarrow> int \<Rightarrow> System option" where
  "syscall_open s pathname flags =
     (case getRamFS s of
        None \<Rightarrow> sys_return s (error_value EIO)
      | Some fs \<Rightarrow> do {
          name \<leftarrow> c_string (sys_mem s) pathname;
          type \<leftarrow> file_type fs name;
          (if type \<noteq> Some FILE then sys_return s (error_value ENOFILE)
           else do {
             let (fc, w) = new_context (sys_world s) (FatFile (FileContextFAT32_init name));
             (fd, k) \<leftarrow> with_active (kern (set_world s w)) (\<lambda>p w. storeFileContext p w fc);
             sys_return (s\<lparr>kern := k\<rparr>) fd }) })"

text \<open>\<open>clone\<close> takes the kernel stack of the new process from the heap.\<close>

definition sys_clone :: "System \<Rightarrow> u64 \<Rightarrow> u64 \<Rightarrow> u64 \<Rightarrow> int \<Rightarrow> System option" where
  "sys_clone s fn stack userdata flags = do {
     (base, s1) \<leftarrow> sys_rmalloc s (2 ^ 16);
     on_kernel (\<lambda>k. syscall_clone k base fn stack userdata flags) s1 }"

section \<open>exec\<close>

text \<open>Reading the file into the buffer, a sector at a time; \<open>False\<close> on an I/O error. A buffer at the null pointer and a
  sector that is shorter than what is copied of it are \<open>None\<close>.\<close>

function read_image :: "FAT32 \<Rightarrow> u8 list \<Rightarrow> memory \<Rightarrow> u64 \<Rightarrow> int \<Rightarrow> int \<Rightarrow> (bool \<times> memory) option" where
  "read_image fs pathname m exeData sz i =
     (if i < sz then do {
        r \<leftarrow> read_file fs pathname (i sdiv 512);
        (case r of
           None \<Rightarrow> Some (False, m)
         | Some data \<Rightarrow>
             let c = (if sz - i \<ge> 512 then 512 else sz - i) in
             if exeData = 0 \<or> length data < nat c then None
             else read_image fs pathname (store_bytes m (exeData + word_of_int i) (take (nat c) data)) exeData sz (i + 512)) }
      else Some (True, m))"
  by pat_completeness auto
termination
  by (relation "measure (\<lambda>(fs, pathname, m, exeData, sz, i). nat (sz - i))") auto

text \<open>A standard stream is opened on the log when the descriptor is free.\<close>

definition open_stdio :: "Kernel \<Rightarrow> int \<Rightarrow> Kernel option" where
  "open_stdio k fd = do {
     (a, p) \<leftarrow> active k;
     old \<leftarrow> getFileContext p fd;
     (if old \<noteq> None then Some k
      else do {
        let (fc, w) = uart_open (kworld k);
        (r, k1) \<leftarrow> with_active (k\<lparr>kworld := w\<rparr>) (\<lambda>p w. storeFileContext_at p w fc fd);
        (if r \<noteq> 0 then do { w' \<leftarrow> fc_delete (kworld k1) fc; Some (k1\<lparr>kworld := w'\<rparr>) } else Some k1) }) }"

definition store_args :: "Kernel \<Rightarrow> u64 \<Rightarrow> u64 \<Rightarrow> Kernel option" where
  "store_args k argv envp = do {
     (r, k') \<leftarrow> with_active k (\<lambda>p w. do {
        (m, c) \<leftarrow> storeProgramArgs (umem w) (proc_ctx p) argv envp;
        Some (0 :: int, p\<lparr>proc_ctx := c\<rparr>, store_umem w m) });
     Some k' }"

text \<open>A new address space, of which \<open>createAddressSpace\<close> returns null when there is no frame.\<close>

definition new_space :: "System \<Rightarrow> (nat \<times> System) option" where
  "new_space s = do {
     (r, t, idc) \<leftarrow> createAddressSpace (sys_tables s) (idCounter s);
     (frame, i) \<leftarrow> r;
     let w = sys_world s;
     let a = fresh_addr w;
     w' \<leftarrow> loadAddressSpace (w\<lparr>spaces := (spaces w)(a \<mapsto> AddressSpace_init frame i), fresh_addr := a + 1\<rparr>) (Some a);
     Some (a, set_world (set_tables (s\<lparr>idCounter := idc\<rparr>) t) w') }"

text \<open>The second half of \<open>exec\<close>. What \<open>buildProgramImage\<close> returns is not looked at, nor whether there are frames for the
  stack.\<close>

definition exec_image :: "System \<Rightarrow> u64 \<Rightarrow> u64 \<Rightarrow> u64 \<Rightarrow> (int \<times> System) option" where
  "exec_image s exeData argv envp = do {
     (a, s1) \<leftarrow> new_space s;
     (r, t, m) \<leftarrow> buildProgramImage (sys_tables s1) (sys_mem s1) (ELF_init exeData);
     let s2 = set_mem (set_tables s1 t) m;
     (stk, pa) \<leftarrow> pa_reserve (frame_pool (sys_tables s2)) 0x10000;
     (r2, t2) \<leftarrow> map_region ((sys_tables s2)\<lparr>frame_pool := pa\<rparr>) 0x7FBFFF0000 0x10000 stk (PAGE_USER OR PAGE_RW);
     (base, s3) \<leftarrow> sys_rmalloc (set_tables s2 t2) (2 ^ 16);
     (if base = 0 then do { s4 \<leftarrow> sys_rfree s3 exeData; Some (error_value ENOMEM, s4) }
      else do {
        let entry = eh_entry (fileHeader (sys_mem s3) (ELF_init exeData));
        (r3, k1) \<leftarrow> with_active (kern s3) (\<lambda>p w. Process_exec p w entry 0x7FC0000000 (base + 2 ^ 16) (Some a));
        k2 \<leftarrow> store_args k1 argv envp;
        k3 \<leftarrow> open_stdio k2 0;
        k4 \<leftarrow> open_stdio k3 1;
        k5 \<leftarrow> open_stdio k4 1;
        k6 \<leftarrow> open_stdio k5 2;
        s4 \<leftarrow> sys_rfree (s3\<lparr>kern := k6\<rparr>) exeData;
        Some (error_value ENONE, s4) }) }"

definition Kernel_exec :: "System \<Rightarrow> u64 \<Rightarrow> u64 \<Rightarrow> u64 \<Rightarrow> (int \<times> System) option" where
  "Kernel_exec s pathname argv envp =
     (if getActiveProcess (kern s) = None then Some (- 1, s)
      else do {
        (a, p) \<leftarrow> active (kern s);
        (if proc_state p \<noteq> ACTIVE \<or> argv = 0 \<or> envp = 0 then Some (- 1, s)
         else do {
           fs \<leftarrow> getRamFS s;
           name \<leftarrow> c_string (sys_mem s) pathname;
           type \<leftarrow> file_type fs name;
           size \<leftarrow> (if type = None then Some None else file_size fs name);
           (case size of
              None \<Rightarrow> do {
                s' \<leftarrow> sys_log s INFO ''kernel.exec() failure: %s not found.'' [Str (name @ [0])];
                Some (error_value ENOFILE, s') }
            | Some sz \<Rightarrow> do {
                (exeData, s1) \<leftarrow> sys_rmalloc s (word_of_int sz);
                (ok, m) \<leftarrow> read_image fs name (sys_mem s1) exeData sz 0;
                let s2 = set_mem s1 m;
                (if \<not> ok then do {
                   s3 \<leftarrow> sys_log s2 WARNING ''kernel.exec() failure: I/O error.'' [];
                   Some (error_value EIO, s3) }
                 else exec_image s2 exeData argv envp) }) }) })"

text \<open>The system call first copies the arguments into kernel memory: arrays of pointers with a null at the end, and the strings. A
  store to an array at the null pointer is \<open>None\<close>.\<close>

definition put_long :: "System \<Rightarrow> u64 \<Rightarrow> u64 \<Rightarrow> u64 \<Rightarrow> System option" where
  "put_long s arr i v = (if arr = 0 then None else Some (set_mem s (store_long (sys_mem s) (arr + 8 * i) v)))"

definition copy_string :: "System \<Rightarrow> u64 \<Rightarrow> (u64 \<times> System) option" where
  "copy_string s str = do {
     n \<leftarrow> strlen (sys_mem s) str;
     (p, s1) \<leftarrow> operator_new s (of_nat (n + 1));
     m \<leftarrow> strcpy (sys_mem s1) p str;
     Some (p, set_mem s1 m) }"

primrec copy_strings :: "nat \<Rightarrow> System \<Rightarrow> u64 \<Rightarrow> u64 \<Rightarrow> nat \<Rightarrow> System option" where
  "copy_strings 0 s from arr i = Some s"
| "copy_strings (Suc n) s from arr i = do {
     let str = load_long (sys_mem s) (from + 8 * of_nat i);
     s1 \<leftarrow> (if str \<noteq> 0 then do { (p, s1) \<leftarrow> copy_string s str; put_long s1 arr (of_nat i) p }
            else put_long s arr (of_nat i) 0);
     copy_strings n s1 from arr (i + 1) }"

definition copy_args :: "System \<Rightarrow> u64 \<Rightarrow> nat \<Rightarrow> (u64 \<times> System) option" where
  "copy_args s from n = do {
     (arr, s1) \<leftarrow> operator_new s (8 * of_nat (n + 1));
     s2 \<leftarrow> copy_strings (n + 1) s1 from arr 0;
     Some (arr, s2) }"

partial_function (option) delete_strings :: "System \<Rightarrow> u64 \<Rightarrow> nat \<Rightarrow> System option" where
  "delete_strings s arr i = do {
     let p = load_long (sys_mem s) (arr + 8 * of_nat i);
     (if p \<noteq> 0 then do { s1 \<leftarrow> operator_delete s p; delete_strings s1 arr (i + 1) } else Some s) }"

declare delete_strings.simps [code]

definition syscall_exec :: "System \<Rightarrow> u64 \<Rightarrow> u64 \<Rightarrow> u64 \<Rightarrow> System option" where
  "syscall_exec s pathname argv envp =
     (if pathname = 0 \<or> argv = 0 \<or> envp = 0 then sys_return s (error_value EINVAL)
      else do {
        argc \<leftarrow> count_args (sys_mem s) argv 0;
        envc \<leftarrow> count_args (sys_mem s) envp 0;
        (argvCopy, s1) \<leftarrow> copy_args s argv argc;
        (envpCopy, s2) \<leftarrow> copy_args s1 envp envc;
        n \<leftarrow> strlen (sys_mem s2) pathname;
        (pathCopy, s3) \<leftarrow> sys_rmalloc s2 (of_nat (n + 1));
        m \<leftarrow> strcpy (sys_mem s3) pathCopy pathname;
        (status, s4) \<leftarrow> Kernel_exec (set_mem s3 m) pathname argvCopy envpCopy;
        s5 \<leftarrow> (if status \<noteq> error_value ENONE then sys_return s4 status else Some s4);
        s6 \<leftarrow> delete_strings s5 argvCopy 0;
        s7 \<leftarrow> delete_strings s6 envpCopy 0;
        s8 \<leftarrow> operator_delete s7 envpCopy;
        s9 \<leftarrow> operator_delete s8 argvCopy;
        sys_rfree s9 pathCopy })"

section \<open>The table of system calls\<close>

text \<open>The handlers are called with four machine words; a parameter of a shorter type takes the low bits. \<open>junk\<close> is what memory
  holds where a new pipe is built.\<close>

definition as_int :: "u64 \<Rightarrow> int" where "as_int a = sint (ucast a :: u32)"

type_synonym handler = "u64 \<Rightarrow> u64 \<Rightarrow> u64 \<Rightarrow> u64 \<Rightarrow> System \<Rightarrow> System option"

definition syscall_table :: "u8 list \<Rightarrow> handler list" where
  "syscall_table junk =
    [\<lambda>a b c d s. syscall_printk s a,
     \<lambda>a b c d s. syscall_mmap s a b (ucast c),
     \<lambda>a b c d s. syscall_munmap s a b,
     \<lambda>a b c d s. sys_clone s a b c (as_int d),
     \<lambda>a b c d. on_kernel syscall_terminate,
     \<lambda>a b c d s. syscall_exec s a b c,
     \<lambda>a b c d. on_kernel syscall_yield,
     \<lambda>a b c d. on_kernel (\<lambda>k. syscall_sigraise k (ucast a) (as_int b)),
     \<lambda>a b c d. on_kernel syscall_sigret,
     \<lambda>a b c d. on_kernel syscall_sigwait,
     \<lambda>a b c d. on_kernel (\<lambda>k. syscall_sigaction k (as_int a) b c d),
     \<lambda>a b c d s. syscall_open s a (as_int b),
     \<lambda>a b c d. on_kernel (\<lambda>k. syscall_close k (as_int a)),
     \<lambda>a b c d. on_kernel (\<lambda>k. syscall_create k a (as_int b)),
     \<lambda>a b c d. on_kernel (\<lambda>k. syscall_unlink k (as_int a)),
     \<lambda>a b c d. on_kernel (\<lambda>k. syscall_read k (as_int a) b c),
     \<lambda>a b c d. on_kernel (\<lambda>k. syscall_write k (as_int a) b c),
     \<lambda>a b c d. on_kernel (\<lambda>k. syscall_fddup k (as_int a) (as_int b)),
     \<lambda>a b c d. on_kernel (\<lambda>k. syscall_create_pipe k junk a)]"

text \<open>The entry from the exception vector. There is no check of the number of the call; beyond the table the code jumps to an
  arbitrary address. It returns the context to resume.\<close>

definition call_handler :: "u8 list \<Rightarrow> u64 \<Rightarrow> handler" where
  "call_handler junk i arg1 arg2 arg3 arg4 s =
     (if unat i < length (syscall_table junk) then (syscall_table junk ! unat i) arg1 arg2 arg3 arg4 s else None)"

definition do_syscall :: "u8 list \<Rightarrow> System \<Rightarrow> u64 \<Rightarrow> u64 \<Rightarrow> u64 \<Rightarrow> u64 \<Rightarrow> u64 \<Rightarrow> Context \<Rightarrow> (Context \<times> System) option" where
  "do_syscall junk s i arg1 arg2 arg3 arg4 ctx = do {
     s1 \<leftarrow> on_kernel (\<lambda>k. do { (a, p) \<leftarrow> active k; set_proc k a (storeContext p ctx) }) s;
     s2 \<leftarrow> call_handler junk i arg1 arg2 arg3 arg4 s1;
     (b, q) \<leftarrow> active (kern s2);
     Some (proc_ctx q, s2) }"

end
