(* ===== verification/Syscall_Abi.thy ===== *)
theory Syscall_Abi
  imports System
begin

text \<open>
  The system calls as programs make them: the numbers of \<^verbatim>\<open>include/types/syscallid.h\<close> and the wrappers of
  \<^verbatim>\<open>include/sys/syscall.h\<close>. A wrapper puts the number of the call and four words into registers and traps;
  it is modelled by these five words. An \<open>int\<close> is a 32-bit word and is sign-extended by the
  conversion to \<open>unsigned long\<close>.
\<close>

section \<open>Numbers\<close>

datatype syscallid_t = SYS_PRINTK | SYS_MMAP | SYS_MUNMAP | SYS_CLONE | SYS_TERMINATE | SYS_EXEC | SYS_YIELD
  | SYS_SIGRAISE | SYS_SIGRET | SYS_SIGWAIT | SYS_SIGACTION | SYS_OPEN | SYS_CLOSE | SYS_CREATE | SYS_UNLINK
  | SYS_READ | SYS_WRITE | SYS_FDDUP | SYS_CREATE_PIPE

fun syscall_number :: "syscallid_t \<Rightarrow> u64" where
  "syscall_number SYS_PRINTK = 0"
| "syscall_number SYS_MMAP = 1"
| "syscall_number SYS_MUNMAP = 2"
| "syscall_number SYS_CLONE = 3"
| "syscall_number SYS_TERMINATE = 4"
| "syscall_number SYS_EXEC = 5"
| "syscall_number SYS_YIELD = 6"
| "syscall_number SYS_SIGRAISE = 7"
| "syscall_number SYS_SIGRET = 8"
| "syscall_number SYS_SIGWAIT = 9"
| "syscall_number SYS_SIGACTION = 10"
| "syscall_number SYS_OPEN = 11"
| "syscall_number SYS_CLOSE = 12"
| "syscall_number SYS_CREATE = 13"
| "syscall_number SYS_UNLINK = 14"
| "syscall_number SYS_READ = 15"
| "syscall_number SYS_WRITE = 16"
| "syscall_number SYS_FDDUP = 17"
| "syscall_number SYS_CREATE_PIPE = 18"

section \<open>Wrappers\<close>

type_synonym trap = "u64 \<times> u64 \<times> u64 \<times> u64 \<times> u64"
type_synonym c_int = u32

definition trap :: "syscallid_t \<Rightarrow> u64 \<Rightarrow> u64 \<Rightarrow> u64 \<Rightarrow> u64 \<Rightarrow> trap" where
  "trap i a b c d = (syscall_number i, a, b, c, d)"

definition usr_printk :: "u64 \<Rightarrow> trap" where "usr_printk str = trap SYS_PRINTK str 0 0 0"
definition usr_mmap :: "u64 \<Rightarrow> u64 \<Rightarrow> c_int \<Rightarrow> trap" where "usr_mmap ptr sz flags = trap SYS_MMAP ptr sz (scast flags) 0"
definition usr_munmap :: "u64 \<Rightarrow> u64 \<Rightarrow> trap" where "usr_munmap ptr sz = trap SYS_MUNMAP ptr sz 0 0"
definition usr_clone :: "u64 \<Rightarrow> u64 \<Rightarrow> u64 \<Rightarrow> c_int \<Rightarrow> trap" where
  "usr_clone fn stack userdata flags = trap SYS_CLONE fn stack userdata (scast flags)"
definition usr_terminate :: trap where "usr_terminate = trap SYS_TERMINATE 0 0 0 0"
definition usr_exec :: "u64 \<Rightarrow> u64 \<Rightarrow> u64 \<Rightarrow> trap" where "usr_exec pathname argv envp = trap SYS_EXEC pathname argv envp 0"
definition usr_yield :: trap where "usr_yield = trap SYS_YIELD 0 0 0 0"
definition usr_sigraise :: "pid_t \<Rightarrow> c_int \<Rightarrow> trap" where "usr_sigraise pid signal = trap SYS_SIGRAISE (ucast pid) (scast signal) 0 0"
definition usr_sigret :: trap where "usr_sigret = trap SYS_SIGRET 0 0 0 0"
definition usr_sigwait :: trap where "usr_sigwait = trap SYS_SIGWAIT 0 0 0 0"
definition usr_sigaction :: "c_int \<Rightarrow> u64 \<Rightarrow> u64 \<Rightarrow> u64 \<Rightarrow> trap" where
  "usr_sigaction signal handler trampoline userdata = trap SYS_SIGACTION (scast signal) handler trampoline userdata"
definition usr_openf :: "u64 \<Rightarrow> c_int \<Rightarrow> trap" where "usr_openf pathname flags = trap SYS_OPEN pathname (scast flags) 0 0"
definition usr_closef :: "c_int \<Rightarrow> trap" where "usr_closef fd = trap SYS_CLOSE (scast fd) 0 0 0"
definition usr_create :: "u64 \<Rightarrow> c_int \<Rightarrow> trap" where "usr_create pathname flags = trap SYS_CREATE pathname (scast flags) 0 0"
definition usr_unlink :: "c_int \<Rightarrow> trap" where "usr_unlink fd = trap SYS_UNLINK (scast fd) 0 0 0"
definition usr_read :: "c_int \<Rightarrow> u64 \<Rightarrow> u64 \<Rightarrow> trap" where "usr_read fd buf sz = trap SYS_READ (scast fd) buf sz 0"
definition usr_write :: "c_int \<Rightarrow> u64 \<Rightarrow> u64 \<Rightarrow> trap" where "usr_write fd buf sz = trap SYS_WRITE (scast fd) buf sz 0"
definition usr_fddup :: "c_int \<Rightarrow> c_int \<Rightarrow> trap" where "usr_fddup oldfd newfd = trap SYS_FDDUP (scast oldfd) (scast newfd) 0 0"
definition usr_create_pipe :: "u64 \<Rightarrow> trap" where "usr_create_pipe pipefd = trap SYS_CREATE_PIPE pipefd 0 0 0"

lemmas wrapper_defs = usr_printk_def usr_mmap_def usr_munmap_def usr_clone_def usr_terminate_def usr_exec_def usr_yield_def
  usr_sigraise_def usr_sigret_def usr_sigwait_def usr_sigaction_def usr_openf_def usr_closef_def usr_create_def usr_unlink_def
  usr_read_def usr_write_def usr_fddup_def usr_create_pipe_def

section \<open>The trap\<close>

text \<open>The handler that the kernel runs for a trap, without the saving and loading of the context around it.\<close>

definition handle_trap :: "u8 list \<Rightarrow> trap \<Rightarrow> System \<Rightarrow> System option" where
  "handle_trap junk t s = (case t of (i, a, b, c, d) \<Rightarrow> call_handler junk i a b c d s)"

lemma as_int_scast [simp]: "as_int (scast (x :: u32)) = sint x"
proof -
  have "ucast (scast x :: u64) = x" by (rule bit_word_eqI) (simp add: bit_simps)
  then show ?thesis by (simp add: as_int_def)
qed

lemma ucast_scast [simp]: "(ucast (scast (x :: u32) :: u64) :: u32) = x"
  by (rule bit_word_eqI) (simp add: bit_simps)

lemma ucast_ucast [simp]: "(ucast (ucast (x :: u32) :: u64) :: u32) = x"
  by (rule bit_word_eqI) (simp add: bit_simps)

lemma table_length: "length (syscall_table junk) = 19"
  by (simp add: syscall_table_def)

text \<open>C12: Every system call wrapper of the C library reaches the handler of its name in the kernel, with the values its arguments
  had: the numbers of the calls agree with the order of the table, and the conversions of the
  arguments to words and back lose nothing.\<close>

theorem wrappers_reach_handlers:
  shows "handle_trap junk (usr_printk str) s = syscall_printk s str
    \<and> handle_trap junk (usr_mmap ptr sz flags) s = syscall_mmap s ptr sz flags
    \<and> handle_trap junk (usr_munmap ptr sz) s = syscall_munmap s ptr sz
    \<and> handle_trap junk (usr_clone fn stack userdata flags) s = sys_clone s fn stack userdata (sint flags)
    \<and> handle_trap junk usr_terminate s = on_kernel syscall_terminate s
    \<and> handle_trap junk (usr_exec pathname argv envp) s = syscall_exec s pathname argv envp
    \<and> handle_trap junk usr_yield s = on_kernel syscall_yield s
    \<and> handle_trap junk (usr_sigraise pid signal) s = on_kernel (\<lambda>k. syscall_sigraise k pid (sint signal)) s
    \<and> handle_trap junk usr_sigret s = on_kernel syscall_sigret s
    \<and> handle_trap junk usr_sigwait s = on_kernel syscall_sigwait s
    \<and> handle_trap junk (usr_sigaction signal hnd trampoline userdata) s
        = on_kernel (\<lambda>k. syscall_sigaction k (sint signal) hnd trampoline userdata) s
    \<and> handle_trap junk (usr_openf pathname flags) s = syscall_open s pathname (sint flags)
    \<and> handle_trap junk (usr_closef fd) s = on_kernel (\<lambda>k. syscall_close k (sint fd)) s
    \<and> handle_trap junk (usr_create pathname flags) s = on_kernel (\<lambda>k. syscall_create k pathname (sint flags)) s
    \<and> handle_trap junk (usr_unlink fd) s = on_kernel (\<lambda>k. syscall_unlink k (sint fd)) s
    \<and> handle_trap junk (usr_read fd buf sz) s = on_kernel (\<lambda>k. syscall_read k (sint fd) buf sz) s
    \<and> handle_trap junk (usr_write fd buf sz) s = on_kernel (\<lambda>k. syscall_write k (sint fd) buf sz) s
    \<and> handle_trap junk (usr_fddup fd newfd) s = on_kernel (\<lambda>k. syscall_fddup k (sint fd) (sint newfd)) s
    \<and> handle_trap junk (usr_create_pipe pipefd) s = on_kernel (\<lambda>k. syscall_create_pipe k junk pipefd) s"
  by (simp add: wrapper_defs trap_def handle_trap_def call_handler_def syscall_table_def)

text \<open>A number beyond the table is not rejected: the kernel reads a handler from behind the table.\<close>

lemma unknown_call: "19 \<le> unat i \<Longrightarrow> handle_trap junk (i, a, b, c, d) s = None"
  by (simp add: handle_trap_def call_handler_def table_length)

end
