(* ===== verification/Linked_List.thy ===== *)
theory Linked_List
  imports Cros_Prelude
begin

text \<open>
  The doubly linked list, \<^verbatim>\<open>src/containers/linked_list.h\<close>. A node holds a reference to an element: the
  address of an object, whose value is in \<open>lobjs\<close>; \<open>default_value\<close> is the object at \<open>ldefault\<close>. Nodes lie in
  the store \<open>lnodes\<close>: \<open>new\<close> takes an unused address and \<open>delete\<close> removes the node; deleting null does
  nothing, and deleting or using a node that is not there is \<open>None\<close>. \<open>to_string\<close>, which only
  compiles for elements that are numbers, is left out.
\<close>

section \<open>State and operations\<close>

record lnode =
  nvalue :: nat
  nprev :: "nat option"
  nnext :: "nat option"

record 'a linked_list =
  lhead :: "nat option"
  ltail :: "nat option"
  lsize :: int
  lnodes :: "nat \<Rightarrow> lnode option"
  lfresh :: nat
  lobjs :: "nat \<Rightarrow> 'a"
  ldefault :: nat

definition list_init :: "(nat \<Rightarrow> 'a) \<Rightarrow> nat \<Rightarrow> 'a linked_list" where
  "list_init objs d = \<lparr>lhead = None, ltail = None, lsize = 0, lnodes = (\<lambda>_. None), lfresh = 0, lobjs = objs, ldefault = d\<rparr>"

definition list_empty :: "'a linked_list \<Rightarrow> bool" where "list_empty l \<longleftrightarrow> lsize l = 0"
definition list_size :: "'a linked_list \<Rightarrow> int" where "list_size l = lsize l"

definition new_list_node :: "'a linked_list \<Rightarrow> nat \<Rightarrow> nat \<times> 'a linked_list" where
  "new_list_node l r = (lfresh l, l\<lparr>lnodes := (lnodes l)(lfresh l \<mapsto> \<lparr>nvalue = r, nprev = None, nnext = None\<rparr>), lfresh := lfresh l + 1\<rparr>)"

definition node_at :: "'a linked_list \<Rightarrow> nat option \<Rightarrow> lnode option" where
  "node_at l p = Option.bind p (lnodes l)"

definition set_next :: "'a linked_list \<Rightarrow> nat option \<Rightarrow> nat option \<Rightarrow> 'a linked_list option" where
  "set_next l p v = do { a \<leftarrow> p; n \<leftarrow> lnodes l a; Some (l\<lparr>lnodes := (lnodes l)(a \<mapsto> n\<lparr>nnext := v\<rparr>)\<rparr>) }"

definition set_prev :: "'a linked_list \<Rightarrow> nat option \<Rightarrow> nat option \<Rightarrow> 'a linked_list option" where
  "set_prev l p v = do { a \<leftarrow> p; n \<leftarrow> lnodes l a; Some (l\<lparr>lnodes := (lnodes l)(a \<mapsto> n\<lparr>nprev := v\<rparr>)\<rparr>) }"

definition delete_node :: "'a linked_list \<Rightarrow> nat option \<Rightarrow> 'a linked_list option" where
  "delete_node l p = (case p of None \<Rightarrow> Some l
     | Some a \<Rightarrow> if lnodes l a = None then None else Some (l\<lparr>lnodes := (lnodes l)(a := None)\<rparr>))"

definition list_push_front :: "'a linked_list \<Rightarrow> nat \<Rightarrow> 'a linked_list option" where
  "list_push_front l data = (let (x, l1) = new_list_node l data in do {
     l2 \<leftarrow> (if lhead l1 = None then Some (l1\<lparr>lhead := Some x, ltail := Some x\<rparr>)
            else if lhead l1 = ltail l1 then do {
              l2 \<leftarrow> set_next (l1\<lparr>lhead := Some x\<rparr>) (Some x) (ltail l1);
              set_prev l2 (ltail l2) (lhead l2) }
            else do {
              l2 \<leftarrow> set_prev l1 (lhead l1) (Some x);
              l3 \<leftarrow> set_next l2 (Some x) (lhead l2);
              Some (l3\<lparr>lhead := Some x\<rparr>) });
     Some (l2\<lparr>lsize := lsize l2 + 1\<rparr>) })"

definition list_push_back :: "'a linked_list \<Rightarrow> nat \<Rightarrow> 'a linked_list option" where
  "list_push_back l data = (let (x, l1) = new_list_node l data in do {
     l2 \<leftarrow> (if ltail l1 = None then Some (l1\<lparr>ltail := Some x, lhead := Some x\<rparr>)
            else if ltail l1 = lhead l1 then do {
              l2 \<leftarrow> set_prev (l1\<lparr>ltail := Some x\<rparr>) (Some x) (lhead l1);
              set_next l2 (lhead l2) (ltail l2) }
            else do {
              l2 \<leftarrow> set_next l1 (ltail l1) (Some x);
              l3 \<leftarrow> set_prev l2 (Some x) (ltail l2);
              Some (l3\<lparr>ltail := Some x\<rparr>) });
     Some (l2\<lparr>lsize := lsize l2 + 1\<rparr>) })"

text \<open>The reference \<open>data\<close> is bound to \<open>default_value\<close>, so that the assignment of the removed element to it overwrites
  \<open>default_value\<close>; the result is that reference.\<close>

definition store_default :: "'a linked_list \<Rightarrow> nat \<Rightarrow> 'a linked_list" where
  "store_default l r = l\<lparr>lobjs := (lobjs l)(ldefault l := lobjs l r)\<rparr>"

definition list_pop_front :: "'a linked_list \<Rightarrow> (nat \<times> 'a linked_list) option" where
  "list_pop_front l = do {
     l1 \<leftarrow> (if lhead l = None then Some l
            else do {
              n \<leftarrow> node_at l (lhead l);
              let l1 = store_default l (nvalue n);
              (if lhead l1 = ltail l1 then do {
                 l2 \<leftarrow> delete_node l1 (lhead l1);
                 Some (l2\<lparr>lhead := None, ltail := None\<rparr>) }
               else do {
                 let l2 = l1\<lparr>lhead := nnext n\<rparr>;
                 m \<leftarrow> node_at l2 (lhead l2);
                 l3 \<leftarrow> delete_node l2 (nprev m);
                 set_prev l3 (lhead l3) None }) });
     Some (ldefault l, l1\<lparr>lsize := lsize l1 - 1\<rparr>) }"

definition list_pop_back :: "'a linked_list \<Rightarrow> (nat \<times> 'a linked_list) option" where
  "list_pop_back l = do {
     l1 \<leftarrow> (if ltail l = None then Some l
            else do {
              n \<leftarrow> node_at l (ltail l);
              let l1 = store_default l (nvalue n);
              (if ltail l1 = lhead l1 then do {
                 l2 \<leftarrow> delete_node l1 (ltail l1);
                 Some (l2\<lparr>ltail := None, lhead := None\<rparr>) }
               else do {
                 let l2 = l1\<lparr>ltail := nprev n\<rparr>;
                 m \<leftarrow> node_at l2 (ltail l2);
                 l3 \<leftarrow> delete_node l2 (nnext m);
                 set_next l3 (ltail l3) None }) });
     Some (ldefault l, l1\<lparr>lsize := lsize l1 - 1\<rparr>) }"

definition list_peek_front :: "'a linked_list \<Rightarrow> nat option" where
  "list_peek_front l = (if lhead l = None then Some (ldefault l) else map_option nvalue (node_at l (lhead l)))"

definition list_peek_back :: "'a linked_list \<Rightarrow> nat option" where
  "list_peek_back l = (if ltail l = None then Some (ldefault l) else map_option nvalue (node_at l (ltail l)))"

text \<open>The loop that follows \<open>index\<close> next pointers; it does nothing for a negative index.\<close>

primrec follow :: "nat \<Rightarrow> 'a linked_list \<Rightarrow> nat option \<Rightarrow> nat option option" where
  "follow 0 l cur = Some cur"
| "follow (Suc i) l cur = do { n \<leftarrow> node_at l cur; follow i l (nnext n) }"

definition list_insert :: "'a linked_list \<Rightarrow> int \<Rightarrow> nat \<Rightarrow> 'a linked_list option" where
  "list_insert l index data =
     (if index > lsize l then Some l
      else do {
        cur \<leftarrow> follow (nat index) l (lhead l);
        let (x, l1) = new_list_node l data;
        l2 \<leftarrow> (if index = lsize l1 \<and> lsize l1 = 0 then Some (l1\<lparr>lhead := Some x, ltail := Some x\<rparr>)
               else if index = lsize l1 \<and> lsize l1 = 1 then do {
                 l2 \<leftarrow> set_next (l1\<lparr>ltail := Some x\<rparr>) (lhead l1) (Some x);
                 set_prev l2 (ltail l2) (lhead l2) }
               else if index = lsize l1 \<and> lsize l1 > 1 then do {
                 l2 \<leftarrow> set_next l1 (ltail l1) (Some x);
                 l3 \<leftarrow> set_prev l2 (Some x) (ltail l2);
                 Some (l3\<lparr>ltail := Some x\<rparr>) }
               else if index = 0 then do {
                 l2 \<leftarrow> set_prev l1 (lhead l1) (Some x);
                 l3 \<leftarrow> set_next l2 (Some x) (lhead l2);
                 Some (l3\<lparr>lhead := Some x\<rparr>) }
               else do {
                 n \<leftarrow> node_at l1 cur;
                 l2 \<leftarrow> set_next l1 (nprev n) (Some x);
                 n2 \<leftarrow> node_at l2 cur;
                 l3 \<leftarrow> set_prev l2 (Some x) (nprev n2);
                 l4 \<leftarrow> set_prev l3 cur (Some x);
                 set_next l4 (Some x) cur });
        Some (l2\<lparr>lsize := lsize l2 + 1\<rparr>) })"

text \<open>The assignment goes to the element that the node refers to.\<close>

definition list_replace :: "'a linked_list \<Rightarrow> int \<Rightarrow> nat \<Rightarrow> 'a linked_list option" where
  "list_replace l index data =
     (if index \<ge> lsize l then Some l
      else do {
        cur \<leftarrow> follow (nat index) l (lhead l);
        n \<leftarrow> node_at l cur;
        Some (l\<lparr>lobjs := (lobjs l)(nvalue n := lobjs l data)\<rparr>) })"

definition list_remove :: "'a linked_list \<Rightarrow> int \<Rightarrow> 'a linked_list option" where
  "list_remove l index =
     (if index \<ge> lsize l then Some l
      else do {
        cur \<leftarrow> follow (nat index) l (lhead l);
        l1 \<leftarrow> (if lhead l = ltail l then do {
                 l1 \<leftarrow> delete_node l (lhead l);
                 Some (l1\<lparr>lhead := None, ltail := None\<rparr>) }
               else if cur = lhead l then do {
                 n \<leftarrow> node_at l (lhead l);
                 let l1 = l\<lparr>lhead := nnext n\<rparr>;
                 m \<leftarrow> node_at l1 (lhead l1);
                 l2 \<leftarrow> delete_node l1 (nprev m);
                 set_prev l2 (lhead l2) None }
               else if cur = ltail l then do {
                 n \<leftarrow> node_at l (ltail l);
                 let l1 = l\<lparr>ltail := nprev n\<rparr>;
                 m \<leftarrow> node_at l1 (ltail l1);
                 l2 \<leftarrow> delete_node l1 (nnext m);
                 set_next l2 (ltail l2) None }
               else do {
                 n \<leftarrow> node_at l cur;
                 l1 \<leftarrow> set_next l (nprev n) (nnext n);
                 n1 \<leftarrow> node_at l1 cur;
                 l2 \<leftarrow> set_prev l1 (nnext n1) (nprev n1);
                 delete_node l2 cur });
        Some (l1\<lparr>lsize := lsize l1 - 1\<rparr>) })"

partial_function (option) clear_loop :: "'a linked_list \<Rightarrow> nat option \<Rightarrow> 'a linked_list option" where
  "clear_loop l cur =
     (if cur \<noteq> None then do {
        n \<leftarrow> node_at l cur;
        (if nnext n \<noteq> None then do {
           m \<leftarrow> node_at l (nnext n);
           l1 \<leftarrow> delete_node l (nprev m);
           clear_loop l1 (nnext n) }
         else do { l1 \<leftarrow> delete_node l cur; clear_loop l1 None }) }
      else Some l)"

declare clear_loop.simps [code]

definition list_clear :: "'a linked_list \<Rightarrow> 'a linked_list option" where
  "list_clear l = do { l1 \<leftarrow> clear_loop l (lhead l); Some (l1\<lparr>lhead := None, ltail := None, lsize := 0\<rparr>) }"

definition list_index :: "'a linked_list \<Rightarrow> int \<Rightarrow> nat option" where
  "list_index l index =
     (if index \<ge> lsize l then Some (ldefault l)
      else do { cur \<leftarrow> follow (nat index) l (lhead l); n \<leftarrow> node_at l cur; Some (nvalue n) })"

section \<open>Segments\<close>

text \<open>A segment pairs the addresses of nodes with the references they hold. Its first node points back to \<open>p\<close> and its
  last one on to \<open>e\<close>.\<close>

fun first_node :: "(nat \<times> nat) list \<Rightarrow> nat option \<Rightarrow> nat option" where
  "first_node [] e = e"
| "first_node (x # xs) e = Some (fst x)"

fun last_node :: "nat option \<Rightarrow> (nat \<times> nat) list \<Rightarrow> nat option" where
  "last_node p [] = p"
| "last_node p (x # xs) = last_node (Some (fst x)) xs"

fun seg :: "(nat \<Rightarrow> lnode option) \<Rightarrow> nat option \<Rightarrow> (nat \<times> nat) list \<Rightarrow> nat option \<Rightarrow> bool" where
  "seg s p [] e \<longleftrightarrow> True"
| "seg s p (x # xs) e \<longleftrightarrow>
     s (fst x) = Some \<lparr>nvalue = snd x, nprev = p, nnext = first_node xs e\<rparr> \<and> seg s (Some (fst x)) xs e"

definition list_rep :: "'a linked_list \<Rightarrow> (nat \<times> nat) list \<Rightarrow> bool" where
  "list_rep l xs \<longleftrightarrow> distinct (map fst xs) \<and> lhead l = first_node xs None \<and> ltail l = last_node None xs \<and>
     lsize l = int (length xs) \<and> (\<forall>a. a \<notin> fst ` set xs \<longrightarrow> lnodes l a = None) \<and> (\<forall>x\<in>set xs. fst x < lfresh l) \<and>
     seg (lnodes l) None xs None"

definition list_of :: "'a linked_list \<Rightarrow> nat list \<Rightarrow> bool" where
  "list_of l rs \<longleftrightarrow> (\<exists>xs. list_rep l xs \<and> map snd xs = rs)"

lemma first_node_append [simp]: "first_node (xs @ ys) e = first_node xs (first_node ys e)"
  by (cases xs) auto

lemma last_node_append [simp]: "last_node p (xs @ ys) = last_node (last_node p xs) ys"
  by (induction xs arbitrary: p) auto

lemma seg_append [simp]:
  "seg s p (xs @ ys) e \<longleftrightarrow> seg s p xs (first_node ys e) \<and> seg s (last_node p xs) ys e"
  by (induction xs arbitrary: p) auto

lemma seg_frame [simp]: "a \<notin> fst ` set xs \<Longrightarrow> seg (s(a := v)) p xs e = seg s p xs e"
  by (induction xs arbitrary: p) auto

lemma last_node_in: "xs \<noteq> [] \<Longrightarrow> \<exists>a. last_node p xs = Some a \<and> a \<in> fst ` set xs"
  by (induction xs arbitrary: p) (auto, metis last_node.simps(1) list.set_intros(1) image_eqI)

lemma last_node_eq: "a \<notin> fst ` set xs \<Longrightarrow> xs \<noteq> [] \<Longrightarrow> last_node p xs \<noteq> Some a"
  by (metis last_node_in option.inject)

lemma node_of_seg: "seg s p xs e \<Longrightarrow> a \<in> fst ` set xs \<Longrightarrow> s a \<noteq> None"
  by (induction xs arbitrary: p) auto

lemma follow_seg:
  "seg (lnodes l) p xs e \<Longrightarrow> i \<le> length xs \<Longrightarrow> follow i l (first_node xs e) = Some (first_node (drop i xs) e)"
proof (induction i arbitrary: p xs)
  case (Suc i)
  then show ?case by (cases xs) (auto simp: node_at_def)
qed simp

lemma single_node:
  assumes "list_rep l xs"
  shows "lhead l = ltail l \<longleftrightarrow> length xs \<le> 1"
proof (cases xs)
  case Nil
  then show ?thesis using assms by (simp add: list_rep_def)
next
  case (Cons x ys)
  show ?thesis
  proof (cases "ys = []")
    case False
    then obtain a where "last_node (Some (fst x)) ys = Some a" "a \<in> fst ` set ys" using last_node_in by blast
    then show ?thesis using assms Cons False by (auto simp: list_rep_def Suc_le_eq)
  qed (use assms Cons in \<open>simp add: list_rep_def\<close>)
qed

lemma fresh_node: "list_rep l xs \<Longrightarrow> lfresh l \<notin> fst ` set xs"
  by (force simp: list_rep_def)

lemmas list_defs = new_list_node_def set_next_def set_prev_def node_at_def delete_node_def store_default_def Let_def

section \<open>Operations on segments\<close>

lemma push_front_rep:
  assumes r: "list_rep l xs"
  shows "\<exists>l'. list_push_front l r = Some l' \<and> list_rep l' ((lfresh l, r) # xs)"
proof (cases xs)
  case Nil
  then show ?thesis using r by (auto simp: list_push_front_def list_defs list_rep_def)
next
  case (Cons y ys)
  have "lfresh l \<noteq> fst y" "lfresh l \<notin> fst ` set ys" using fresh_node[OF r] Cons by auto
  then show ?thesis using r Cons single_node[OF r]
    by (cases ys) (auto simp: list_push_front_def list_defs list_rep_def)
qed

lemma push_back_rep:
  assumes r: "list_rep l xs"
  shows "\<exists>l'. list_push_back l r = Some l' \<and> list_rep l' (xs @ [(lfresh l, r)])"
proof (cases xs rule: rev_cases)
  case Nil
  then show ?thesis using r by (auto simp: list_push_back_def list_defs list_rep_def)
next
  case (snoc ys y)
  have "lfresh l \<noteq> fst y" "lfresh l \<notin> fst ` set ys" using fresh_node[OF r] snoc by auto
  then show ?thesis using r snoc single_node[OF r]
    by (cases ys) (auto simp: list_push_back_def list_defs list_rep_def)
qed

lemma list_rep_store_default [simp]: "list_rep (store_default l r) xs = list_rep l xs"
  by (simp add: list_rep_def store_default_def)

lemma pop_front_rep:
  assumes r: "list_rep l (x # xs)"
  shows "\<exists>l'. list_pop_front l = Some (ldefault l, l') \<and> list_rep l' xs \<and> lobjs l' = (lobjs l)(ldefault l := lobjs l (snd x))"
proof (cases xs)
  case Nil
  then show ?thesis using r by (auto simp: list_pop_front_def list_defs list_rep_def)
next
  case (Cons y ys)
  then show ?thesis using r single_node[OF r] by (auto simp: list_pop_front_def list_defs list_rep_def)
qed

lemma pop_back_rep:
  assumes r: "list_rep l (xs @ [x])"
  shows "\<exists>l'. list_pop_back l = Some (ldefault l, l') \<and> list_rep l' xs \<and> lobjs l' = (lobjs l)(ldefault l := lobjs l (snd x))"
proof (cases xs rule: rev_cases)
  case Nil
  then show ?thesis using r by (auto simp: list_pop_back_def list_defs list_rep_def)
next
  case (snoc ys y)
  then show ?thesis using r single_node[OF r] by (auto simp: list_pop_back_def list_defs list_rep_def)
qed

lemma insert_middle_rep:
  assumes r: "list_rep l (us @ u # w # ws)"
  shows "\<exists>l'. list_insert l (int (length us + 1)) r' = Some l' \<and> list_rep l' (us @ u # (lfresh l, r') # w # ws)"
proof -
  have f: "lfresh l \<notin> fst ` set (us @ u # w # ws)" by (rule fresh_node[OF r])
  have "follow (length us + 1) l (lhead l) = Some (Some (fst w))"
    using follow_seg[of l None "us @ u # w # ws" None "length us + 1"] r by (simp add: list_rep_def)
  then show ?thesis using r f by (auto simp: list_insert_def list_defs list_rep_def nat_add_distrib image_Un less_SucI simp del: follow.simps)
qed

lemma remove_middle_rep:
  assumes r: "list_rep l (us @ u # x # w # ws)"
  shows "\<exists>l'. list_remove l (int (length us + 1)) = Some l' \<and> list_rep l' (us @ u # w # ws)"
proof -
  have "follow (length us + 1) l (lhead l) = Some (Some (fst x))"
    using follow_seg[of l None "us @ u # x # w # ws" None "length us + 1"] r by (simp add: list_rep_def)
  moreover have "lhead l \<noteq> ltail l" using single_node[OF r] by simp
  moreover have "Some (fst x) \<noteq> lhead l"
    using r by (cases us) (auto simp: list_rep_def)
  moreover have "Some (fst x) \<noteq> ltail l"
    using r last_node_eq[of "fst x" "w # ws"] by (auto simp: list_rep_def)
  ultimately have "list_remove l (int (length us + 1)) = Some (l\<lparr>lsize := lsize l - 1, lnodes := (lnodes l)
      (fst u \<mapsto> \<lparr>nvalue = snd u, nprev = last_node None us, nnext = Some (fst w)\<rparr>,
       fst w \<mapsto> \<lparr>nvalue = snd w, nprev = Some (fst u), nnext = first_node ws None\<rparr>, fst x := None)\<rparr>)"
    using r by (simp add: list_remove_def list_defs list_rep_def nat_add_distrib del: follow.simps)
  then show ?thesis using r by (auto simp: list_rep_def image_Un)
qed

lemma index_rep:
  assumes r: "list_rep l xs" and i: "i < length xs"
  shows "list_index l (int i) = Some (snd (xs ! i))"
proof -
  have "follow i l (lhead l) = Some (Some (fst (xs ! i)))"
    using follow_seg[of l None xs None i] r i by (simp add: list_rep_def Cons_nth_drop_Suc[symmetric])
  moreover have "seg (lnodes l) None (take i xs @ xs ! i # drop (Suc i) xs) None"
    using r i by (simp only: id_take_nth_drop[symmetric] list_rep_def)
  ultimately show ?thesis using r i by (auto simp: list_index_def list_defs list_rep_def)
qed

lemma insert_at_end:
  assumes r: "list_rep l xs"
  shows "\<exists>l'. list_insert l (int (length xs)) r' = Some l' \<and> list_rep l' (xs @ [(lfresh l, r')])"
proof (cases xs rule: rev_cases)
  case Nil
  then show ?thesis using r by (auto simp: list_insert_def list_defs list_rep_def)
next
  case (snoc ys y)
  have f: "lfresh l \<noteq> fst y" "lfresh l \<notin> fst ` set ys" using fresh_node[OF r] snoc by auto
  have "follow (length xs) l (lhead l) = Some None"
    using follow_seg[of l None xs None "length xs"] r by (simp add: list_rep_def)
  then show ?thesis using r snoc f
    by (cases ys) (auto simp: list_insert_def list_defs list_rep_def less_SucI nat_add_distrib simp del: follow.simps)
qed

lemma insert_at_front:
  assumes r: "list_rep l (x # xs)"
  shows "\<exists>l'. list_insert l 0 r' = Some l' \<and> list_rep l' ((lfresh l, r') # x # xs)"
  using r fresh_node[OF r] by (auto simp: list_insert_def list_defs list_rep_def)

lemma take_last: "0 < i \<Longrightarrow> i < length xs \<Longrightarrow> take i xs = take (i - 1) xs @ [xs ! (i - 1)]"
  by (cases i) (simp_all add: take_Suc_conv_app_nth)

lemma split_around:
  "0 < i \<Longrightarrow> i < length xs \<Longrightarrow> take (i - 1) xs @ xs ! (i - 1) # xs ! i # drop (Suc i) xs = xs"
  by (metis Suc_pred' append_take_drop_id Cons_nth_drop_Suc less_imp_diff_less)

lemma insert_rep:
  assumes r: "list_rep l xs" and i: "i \<le> length xs"
  shows "\<exists>l'. list_insert l (int i) r' = Some l' \<and> list_rep l' (take i xs @ (lfresh l, r') # drop i xs)"
proof -
  consider "i = length xs" | "i = 0" "xs \<noteq> []" | "0 < i" "i < length xs" using i by fastforce
  then show ?thesis
  proof cases
    case 1
    then show ?thesis using insert_at_end[OF r] by simp
  next
    case 2
    then show ?thesis using insert_at_front[of l "hd xs" "tl xs"] r by simp
  next
    case 3
    then have "drop i xs = xs ! i # drop (Suc i) xs" by (simp add: Cons_nth_drop_Suc)
    then show ?thesis
      using insert_middle_rep[of l "take (i - 1) xs" "xs ! (i - 1)" "xs ! i" "drop (Suc i) xs"] r 3
        split_around[of i xs] take_last[of i xs] by simp
  qed
qed

lemma remove_first_rep:
  assumes r: "list_rep l (x # xs)"
  shows "\<exists>l'. list_remove l 0 = Some l' \<and> list_rep l' xs"
  using r single_node[OF r] by (cases xs) (auto simp: list_remove_def list_defs list_rep_def)

lemma remove_last_rep:
  assumes r: "list_rep l (ys @ [y, x])"
  shows "\<exists>l'. list_remove l (int (length ys + 1)) = Some l' \<and> list_rep l' (ys @ [y])"
proof -
  have "follow (length ys + 1) l (lhead l) = Some (Some (fst x))"
    using follow_seg[of l None "ys @ [y, x]" None "length ys + 1"] r by (simp add: list_rep_def)
  moreover have "lhead l \<noteq> ltail l" using single_node[OF r] by simp
  ultimately show ?thesis
    using r by (auto simp: list_remove_def list_defs list_rep_def nat_add_distrib simp del: follow.simps)
qed

lemma remove_rep:
  assumes r: "list_rep l xs" and i: "i < length xs"
  shows "\<exists>l'. list_remove l (int i) = Some l' \<and> list_rep l' (take i xs @ drop (Suc i) xs)"
proof (cases "i = 0")
  case True
  then show ?thesis using remove_first_rep[of l "hd xs" "tl xs"] r i by (cases xs) auto
next
  case False
  then have xs: "take (i - 1) xs @ xs ! (i - 1) # xs ! i # drop (Suc i) xs = xs"
    and t: "take i xs = take (i - 1) xs @ [xs ! (i - 1)]"
    using i split_around take_last by auto
  have n: "length (take (i - 1) xs) + 1 = i" using i False by simp
  show ?thesis
  proof (cases "drop (Suc i) xs")
    case Nil
    then show ?thesis using remove_last_rep[of l "take (i - 1) xs" "xs ! (i - 1)" "xs ! i"] r xs t n by simp
  next
    case (Cons w ws)
    then show ?thesis using remove_middle_rep[of l "take (i - 1) xs" "xs ! (i - 1)" "xs ! i" w ws] r xs t n by simp
  qed
qed

lemma clear_loop_seg:
  assumes "seg (lnodes l) p xs None" "distinct (map fst xs)"
  shows "clear_loop l (first_node xs None) = Some (l\<lparr>lnodes := (lnodes l) |` (- fst ` set xs)\<rparr>)"
  using assms
proof (induction xs arbitrary: l p)
  case Nil
  then show ?case by (simp add: clear_loop.simps)
next
  case (Cons x xs)
  let ?l = "l\<lparr>lnodes := (lnodes l)(fst x := None)\<rparr>"
  have "clear_loop ?l (first_node xs None) = Some (?l\<lparr>lnodes := (lnodes ?l) |` (- fst ` set xs)\<rparr>)"
    by (rule Cons.IH[of _ "Some (fst x)"]) (use Cons.prems seg_frame in \<open>auto simp del: fun_upd_apply\<close>)
  moreover have "(lnodes ?l) |` (- fst ` set xs) = (lnodes l) |` (- fst ` set (x # xs))"
    by (auto simp: restrict_map_def fun_eq_iff)
  moreover have "clear_loop l (Some (fst x)) = clear_loop ?l (first_node xs None)"
    using Cons.prems by (cases xs) (simp_all add: list_defs clear_loop.simps[of l "Some (fst x)"])
  ultimately show ?case by simp
qed

lemma clear_rep:
  assumes r: "list_rep l xs"
  shows "\<exists>l'. list_clear l = Some l' \<and> list_rep l' [] \<and> lnodes l' = Map.empty"
proof -
  have "(lnodes l) |` (- fst ` set xs) = Map.empty"
    using r by (auto simp: restrict_map_def fun_eq_iff list_rep_def)
  then show ?thesis using clear_loop_seg[of l None xs] r by (simp add: list_clear_def list_rep_def)
qed

section \<open>Sequences\<close>

text \<open>What the list promises its client: a sequence with insertion and removal at an index. The client runs any list of
  operations; an index outside of the sequence leaves it unchanged.\<close>

datatype seq_op = Insert_at nat nat | Remove_at nat | Push_first nat | Push_last nat | Remove_all

primrec seq_step :: "seq_op \<Rightarrow> nat list \<Rightarrow> nat list" where
  "seq_step (Insert_at i r) rs = (if i \<le> length rs then take i rs @ r # drop i rs else rs)"
| "seq_step (Remove_at i) rs = take i rs @ drop (Suc i) rs"
| "seq_step (Push_first r) rs = r # rs"
| "seq_step (Push_last r) rs = rs @ [r]"
| "seq_step Remove_all rs = []"

locale sequence_store =
  fixes rep :: "'s \<Rightarrow> nat list \<Rightarrow> bool"
    and apply_op :: "'s \<Rightarrow> seq_op \<Rightarrow> 's option"
    and elem_at :: "'s \<Rightarrow> nat \<Rightarrow> nat option"
  assumes op_ok: "rep s rs \<Longrightarrow> \<exists>s'. apply_op s op = Some s' \<and> rep s' (seq_step op rs)"
    and elem_ok: "rep s rs \<Longrightarrow> i < length rs \<Longrightarrow> elem_at s i = Some (rs ! i)"
begin

primrec run_ops :: "seq_op list \<Rightarrow> 's \<Rightarrow> 's option" where
  "run_ops [] s = Some s"
| "run_ops (op # ops) s = Option.bind (apply_op s op) (run_ops ops)"

lemma run_refines: "rep s rs \<Longrightarrow> \<exists>s'. run_ops ops s = Some s' \<and> rep s' (fold seq_step ops rs)"
proof (induction ops arbitrary: s rs)
  case (Cons op ops)
  obtain s1 where "apply_op s op = Some s1" "rep s1 (seq_step op rs)" using op_ok[OF Cons.prems] by blast
  then show ?case using Cons.IH[of s1 "seq_step op rs"] by simp
qed simp

lemma run_reads:
  assumes "rep s rs"
  shows "\<exists>s'. run_ops ops s = Some s' \<and> rep s' (fold seq_step ops rs) \<and>
           (\<forall>i < length (fold seq_step ops rs). elem_at s' i = Some (fold seq_step ops rs ! i))"
  using run_refines[OF assms] elem_ok by blast

end

primrec list_op :: "'a linked_list \<Rightarrow> seq_op \<Rightarrow> 'a linked_list option" where
  "list_op l (Insert_at i r) = list_insert l (int i) r"
| "list_op l (Remove_at i) = list_remove l (int i)"
| "list_op l (Push_first r) = list_push_front l r"
| "list_op l (Push_last r) = list_push_back l r"
| "list_op l Remove_all = list_clear l"

lemma list_op_ok:
  assumes "list_of l rs"
  shows "\<exists>l'. list_op l op = Some l' \<and> list_of l' (seq_step op rs)"
proof -
  obtain xs where r: "list_rep l xs" and rs: "rs = map snd xs" using assms by (auto simp: list_of_def)
  have n: "lsize l = int (length xs)" using r by (simp add: list_rep_def)
  show ?thesis
  proof (cases op)
    case (Insert_at i x)
    show ?thesis
    proof (cases "i \<le> length xs")
      case True
      then show ?thesis using insert_rep[OF r True, of x] Insert_at rs
        by (auto simp: list_of_def take_map drop_map intro!: exI[of _ "take i xs @ (lfresh l, x) # drop i xs"])
    qed (use Insert_at rs r n in \<open>auto simp: list_of_def list_insert_def\<close>)
  next
    case (Remove_at i)
    show ?thesis
    proof (cases "i < length xs")
      case True
      then show ?thesis using remove_rep[OF r True] Remove_at rs
        by (auto simp: list_of_def take_map drop_map intro!: exI[of _ "take i xs @ drop (Suc i) xs"])
    qed (use Remove_at rs r n in \<open>auto simp: list_of_def list_remove_def\<close>)
  next
    case (Push_first x)
    then show ?thesis using push_front_rep[OF r, of x] rs by (fastforce simp: list_of_def)
  next
    case (Push_last x)
    then show ?thesis using push_back_rep[OF r, of x] rs by (fastforce simp: list_of_def)
  next
    case Remove_all
    then show ?thesis using clear_rep[OF r] rs by (force simp: list_of_def)
  qed
qed

interpretation listseq: sequence_store list_of list_op "\<lambda>l i. list_index l (int i)"
proof
  show "\<exists>l'. list_op l op = Some l' \<and> list_of l' (seq_step op rs)" if "list_of l rs"
    for l :: "'a linked_list" and rs op using that by (rule list_op_ok)
  show "list_index l (int i) = Some (rs ! i)" if "list_of l rs" "i < length rs" for l :: "'a linked_list" and rs i
    using that by (auto simp: list_of_def index_rep)
qed

fun run_list :: "seq_op list \<Rightarrow> 'a linked_list \<Rightarrow> 'a linked_list option" where
  "run_list [] l = Some l"
| "run_list (op # ops) l = Option.bind (list_op l op) (run_list ops)"

lemma run_list_ops: "listseq.run_ops ops l = run_list ops l"
  by (induction ops arbitrary: l) (auto cong: Option.bind_cong)

lemma list_of_size: "list_of l rs \<Longrightarrow> list_size l = int (length rs)"
  by (auto simp: list_of_def list_rep_def list_size_def)

lemma list_of_init: "list_of (list_init objs d) []"
  by (simp add: list_of_def list_rep_def list_init_def)

text \<open>C39: Any sequence of insertions, removals, pushes and clears on a linked list runs without touching a node that is not
  there, and the list then holds what the same operations make of a sequence: its size is the length and indexing
  gives the elements.\<close>

theorem linked_list_refines_sequence:
  assumes "list_of l rs"
  shows "\<exists>l'. run_list ops l = Some l' \<and> list_of l' (fold seq_step ops rs) \<and>
           list_size l' = int (length (fold seq_step ops rs)) \<and>
           (\<forall>i < length (fold seq_step ops rs). list_index l' (int i) = Some (fold seq_step ops rs ! i))"
  using listseq.run_reads[OF assms, of ops] list_of_size unfolding run_list_ops by blast

theorem linked_list_refines_sequence_witness:
  "\<exists>l'. run_list [Push_last 5, Push_last 6, Push_first 4, Insert_at 1 9, Remove_at 2, Insert_at 7 1] (list_init (\<lambda>_. 0 :: int) 0) = Some l'
     \<and> list_size l' = 3 \<and> list_index l' 1 = Some 9"
proof -
  let ?ops = "[Push_last 5, Push_last 6, Push_first 4, Insert_at 1 9, Remove_at 2, Insert_at 7 1]"
  have "fold seq_step ?ops [] = [4, 9, 6]" by simp
  then show ?thesis
    using linked_list_refines_sequence[OF list_of_init, of ?ops "\<lambda>_. 0 :: int" 0] by (force dest: spec[of _ "Suc 0"])
qed

section \<open>Popping\<close>

text \<open>The result of a pop is the reference to \<open>default_value\<close>, which from then on holds the removed element: the
  result of an earlier pop changes, and reads of an empty list give the element popped last.\<close>

lemma pop_overwrites_default:
  assumes "list_of l (r # rs)"
  shows "\<exists>l'. list_pop_front l = Some (ldefault l, l') \<and> list_of l' rs \<and> lobjs l' (ldefault l) = lobjs l r"
proof -
  obtain xs where r: "list_rep l xs" and rs: "map snd xs = r # rs" using assms by (auto simp: list_of_def)
  then obtain y ys where xs: "xs = y # ys" by (cases xs) auto
  show ?thesis using pop_front_rep[of l y ys] r rs xs by (fastforce simp: list_of_def)
qed

lemma pop_back_overwrites_default:
  assumes "list_of l (rs @ [r])"
  shows "\<exists>l'. list_pop_back l = Some (ldefault l, l') \<and> list_of l' rs \<and> lobjs l' (ldefault l) = lobjs l r"
proof -
  obtain xs where r: "list_rep l xs" and rs: "map snd xs = rs @ [r]" using assms by (auto simp: list_of_def)
  then obtain y ys where xs: "xs = ys @ [y]" by (cases xs rule: rev_cases) auto
  show ?thesis using pop_back_rep[of l ys y] r rs xs by (fastforce simp: list_of_def)
qed

text \<open>A pop of an empty list makes the size negative, so that an element pushed afterwards is not found and the list
  that holds it counts as empty.\<close>

lemma pop_of_empty:
  "\<exists>l1 l2. list_pop_front (list_init objs d) = Some (d, l1) \<and> list_size l1 = - 1 \<and> list_push_back l1 r = Some l2
     \<and> list_empty l2 \<and> list_index l2 0 = Some d \<and> list_peek_back l2 = Some r"
  by (simp add: list_pop_front_def list_init_def list_push_back_def list_empty_def list_size_def list_index_def
      list_peek_back_def list_defs)

end
