(* ===== verification/Irq.thy ===== *)
theory Irq
  imports System
begin

text \<open>
  Interrupts and exceptions: the table of handlers (\<^verbatim>\<open>src/irq/interrupts.cpp\<close>,
  \<^verbatim>\<open>src/aarch64/irq/interrupts.cpp\<close>), the system timer (\<^verbatim>\<open>src/devices/timer.cpp\<close>) and the entries from the exception
  vectors (\<^verbatim>\<open>src/aarch64/irq/irq.cpp\<close>). Two objects implement \<open>InterruptHandler\<close>: the UART and the timer; a
  pointer to a handler is one of them. Registers that the code reads are arguments, registers that it writes
  are fields of the state.
\<close>

section \<open>State\<close>

record SystemTimer =
  delta :: u32
  timer_C1 :: u32
  timer_CS :: u32

datatype InterruptHandler = UART_handler | Timer_handler

definition HANDLER_COUNT :: nat where "HANDLER_COUNT = 256"

record Machine =
  msys :: System
  handlers :: "InterruptHandler option list"
  timer :: SystemTimer
  daif :: u32
  irq_enable_base :: u32
  irq_enable_1 :: u32
  irq_enable_2 :: u32

text \<open>What the devices show during an interrupt: the counter of the timer, the masked interrupt status of the UART and the
  words it has received.\<close>

record irq_input =
  in_clo :: u32
  in_status :: u32
  in_rx1 :: "u32 list"
  in_rx2 :: "u32 list"

section \<open>The timer\<close>

definition timer_reset :: "SystemTimer \<Rightarrow> u32 \<Rightarrow> SystemTimer" where
  "timer_reset t currentTime = t\<lparr>timer_C1 := currentTime + delta t * 1000, timer_CS := 0xF\<rparr>"

definition SystemTimer_new :: "u32 \<Rightarrow> u32 \<Rightarrow> SystemTimer" where
  "SystemTimer_new d currentTime = timer_reset \<lparr>delta = d, timer_C1 = 0, timer_CS = 0\<rparr> currentTime"

definition SystemTimer_init :: "u32 \<Rightarrow> SystemTimer" where
  "SystemTimer_init currentTime = SystemTimer_new 50 currentTime"

definition timer_handleInterrupt :: "Machine \<Rightarrow> irq_input \<Rightarrow> Machine option" where
  "timer_handleInterrupt m inp = do {
     let m1 = m\<lparr>timer := timer_reset (timer m) (in_clo inp)\<rparr>;
     s \<leftarrow> on_kernel switchTask (msys m1);
     Some (m1\<lparr>msys := s\<rparr>) }"

section \<open>The table of handlers\<close>

definition irq_disable :: "Machine \<Rightarrow> Machine" where "irq_disable m = m\<lparr>daif := push_bit 6 15\<rparr>"
definition irq_enable :: "Machine \<Rightarrow> Machine" where "irq_enable m = m\<lparr>daif := 0\<rparr>"

definition Interrupts_init :: "Machine \<Rightarrow> Machine" where
  "Interrupts_init m = (irq_disable m)\<lparr>handlers := replicate HANDLER_COUNT None, irq_enable_base := 0x80002,
     irq_enable_1 := 0x00000002, irq_enable_2 := 0x2000000\<rparr>"

text \<open>An index below the array is not excluded.\<close>

definition insertHandler :: "Machine \<Rightarrow> int \<Rightarrow> InterruptHandler \<Rightarrow> Machine option" where
  "insertHandler m i h =
     (if i < int HANDLER_COUNT then
        if 0 \<le> i \<and> nat i < length (handlers m) then Some (m\<lparr>handlers := (handlers m)[nat i := Some h]\<rparr>) else None
      else Some m)"

definition uart_interrupt :: "Machine \<Rightarrow> irq_input \<Rightarrow> Machine option" where
  "uart_interrupt m inp = do {
     let w = sys_world (msys m);
     u \<leftarrow> uart_handleInterrupt (uart_dev w) (in_status inp) (in_rx1 inp) (in_rx2 inp);
     Some (m\<lparr>msys := set_world (msys m) (w\<lparr>uart_dev := u\<rparr>)\<rparr>) }"

definition callHandler :: "Machine \<Rightarrow> irq_input \<Rightarrow> int \<Rightarrow> Machine option" where
  "callHandler m inp i =
     (if 0 \<le> i \<and> nat i < length (handlers m)
      then (case handlers m ! nat i of
              None \<Rightarrow> Some m
            | Some UART_handler \<Rightarrow> uart_interrupt m inp
            | Some Timer_handler \<Rightarrow> timer_handleInterrupt m inp)
      else None)"

section \<open>Interrupt requests\<close>

text \<open>\<open>__builtin_ctz\<close>: the number of the lowest bit that is set.\<close>

primrec ctz_from :: "nat \<Rightarrow> nat \<Rightarrow> u32 \<Rightarrow> nat" where
  "ctz_from 0 i w = i"
| "ctz_from (Suc n) i w = (if bit w i then i else ctz_from n (i + 1) w)"

definition builtin_ctz :: "u32 \<Rightarrow> nat" where "builtin_ctz w = ctz_from 32 0 w"

definition find_irq_source :: "u32 \<Rightarrow> u32 \<Rightarrow> u32 \<Rightarrow> int" where
  "find_irq_source pending1 pending2 basic =
     (if pending1 \<noteq> 0 then int (builtin_ctz pending1)
      else if pending2 \<noteq> 0 then 32 + int (builtin_ctz pending2)
      else let base = basic AND 255 in
        if base \<noteq> 0 then int (builtin_ctz base) else - 1)"

definition handle_irq :: "Machine \<Rightarrow> irq_input \<Rightarrow> int \<Rightarrow> Context \<Rightarrow> (Context \<times> Machine) option" where
  "handle_irq m inp source ctx = do {
     s1 \<leftarrow> (if getActiveProcess (kern (msys m)) \<noteq> None
            then on_kernel (\<lambda>k. do { (a, p) \<leftarrow> active k; set_proc k a (storeContext p ctx) }) (msys m)
            else Some (msys m));
     let m1 = m\<lparr>msys := s1\<rparr>;
     (if source < 0 then Some (ctx, m1)
      else do {
        m2 \<leftarrow> callHandler m1 inp source;
        (if getActiveProcess (kern (msys m2)) \<noteq> None
         then do { (a, p) \<leftarrow> active (kern (msys m2)); Some (proc_ctx p, m2) }
         else Some (ctx, m2)) }) }"

section \<open>Synchronous exceptions\<close>

datatype ExceptionClass = UNKNOWN_EC | TRAPPED_WF | TRAPPED_MCR | TRAPPED_MCRR | TRAPPED_MCR_2 | TRAPPED_LDC | FP_ACCESS
  | TRAPPED_LD64B | TRAPPED_MRRC | BRANCH_TARGET | ILLEGAL_EXE_STATE | SVC_AARCH32 | SVC_AARCH64 | TRAPPED_SYS_INST
  | SVE_ACCESS | POINTER_AUCH | INST_ABORT_EL0 | INST_ABORT_EL1 | PC_ALIGNMENT | DATA_ABORT_EL0 | DATA_ABORT_EL1
  | SP_ALIGNMENT | MEMORY_OP | TRAPPED_FP_AARCH32 | TRAPPED_FP_AARCH64 | SERROR | BRK_EL0 | BRK_EL1 | STEP_EL0 | STEP_EL1
  | WATCH_EL0 | WATCH_EL1 | BKPT_AARCH32 | BRK_AARCH64

text \<open>The fault status and the write bit of a syndrome. The switch has no case for other status codes.\<close>

definition statusCode :: "u64 \<Rightarrow> DataAbortStatus option" where
  "statusCode syndrome =
     (let c = take_bit 6 syndrome; l = unat (take_bit 2 syndrome) in
      if c < 4 then Some (ADDR_SIZE_FAULT l)
      else if c < 8 then Some (TRANSLATE_FAULT l)
      else if c < 12 then Some (ACCESS_FAULT l)
      else if c < 16 then Some (PERM_FAULT l)
      else None)"

definition syndrome_wnr :: "u64 \<Rightarrow> bool" where "syndrome_wnr syndrome = bit syndrome 6"

text \<open>An exception ends in the context to resume or in the halt of the machine by \<open>hacf\<close>.\<close>

datatype outcome = Resume Context | Halt

definition panic :: "System \<Rightarrow> string \<Rightarrow> slot list \<Rightarrow> (outcome \<times> System) option" where
  "panic s fmt args = do { s' \<leftarrow> sys_log s PANIC fmt args; Some (Halt, s') }"

definition handle_sync :: "System \<Rightarrow> ExceptionClass \<Rightarrow> u64 \<Rightarrow> u64 \<Rightarrow> Context \<Rightarrow> (outcome \<times> System) option" where
  "handle_sync s type syndrome far ctx =
     (case type of
        INST_ABORT_EL0 \<Rightarrow> panic s ''Unhandled INST_ABORT_EL0, FAR_EL1 = %016x'' [Word far]
      | INST_ABORT_EL1 \<Rightarrow> panic s ''Unhandled INST_ABORT_EL1, FAR_EL1 = %016x'' [Word far]
      | DATA_ABORT_EL0 \<Rightarrow> panic s ''Unhandled DATA_ABORT_EL0, FAR_EL1 = %016x'' [Word far]
      | DATA_ABORT_EL1 \<Rightarrow>
          (case statusCode syndrome of
             None \<Rightarrow> Some (Resume ctx, s)
           | Some st \<Rightarrow>
               if fault_target st (syndrome_wnr syndrome) far = None then Some (Halt, s)
               else do {
                 t \<leftarrow> handlePageFault (sys_tables s) st (syndrome_wnr syndrome) far;
                 Some (Resume ctx, set_tables s t) })
      | SVC_AARCH64 \<Rightarrow> Some (Resume ctx, s)
      | SVC_AARCH32 \<Rightarrow> Some (Resume ctx, s)
      | _ \<Rightarrow> panic s ''Unimplemented exception class'' [])"

end
