(* ===== verification/System_Correct.thy ===== *)
theory System_Correct
  imports System Kernel_Sched Heap_Alloc Page_Allocator_Init
begin

text \<open>
  Properties of the kernel with its memory: what \<open>initMemory\<close> sets up, what the system calls for memory
  do to the address space of the caller, and that the calls of \<^verbatim>\<open>include/sys/syscall.h\<close> reach the handlers
  they name.
\<close>

section \<open>Returning to the caller\<close>

lemma sys_return_correct:
  assumes "active (kern s) = Some (a, p)"
  shows "\<exists>s'. sys_return s v = Some s' \<and> kheap s' = kheap s \<and> idCounter s' = idCounter s \<and> sys_world s' = sys_world s
    \<and> active (kern s') = Some (a, p\<lparr>proc_ctx := setReturnValue (proc_ctx p) (word_of_int v)\<rparr>)"
proof -
  have c: "cur_Process (scheduler (kern s)) = Some a" "proc_at (kern s) a = Some p"
    using assms by (auto simp: active_def getActiveProcess_def bind_eq_Some_conv)
  obtain k where k: "setCallerReturn (kern s) (word_of_int v) = Some k"
    "\<forall>b. proc_at k b = (if b = a then Some (p\<lparr>proc_ctx := setReturnValue (proc_ctx p) (word_of_int v)\<rparr>) else proc_at (kern s) b)"
    "scheduler k = scheduler (kern s)" "kworld k = kworld (kern s)"
    using setCallerReturn_correct[OF c] by blast
  have "active k = Some (a, p\<lparr>proc_ctx := setReturnValue (proc_ctx p) (word_of_int v)\<rparr>)"
    using k(2,3) c(1) by (simp add: active_def getActiveProcess_def)
  then show ?thesis using k by (intro exI[of _ "s\<lparr>kern := k\<rparr>"]) (simp add: sys_return_def on_kernel_def sys_world_def)
qed

lemma set_tables_simps [simp]:
  "kern (set_tables s t) = kern s" "sys_world (set_tables s t) = sys_world s" "hmmu (kheap (set_tables s t)) = t"
  by (simp_all add: set_tables_def sys_world_def)

lemma sys_tables_set:
  "kheap s' = kheap (set_tables s t) \<Longrightarrow> sys_world s' = sys_world s \<Longrightarrow> ttbr0_table t = ttbr0_table (sys_tables s) \<Longrightarrow> sys_tables s' = t"
  by (simp add: sys_tables_def)

section \<open>mmap and munmap\<close>


text \<open>Without frames the caller gets \<open>ENOMEM\<close> and the tables stay as they are.\<close>

lemma mmap_no_memory:
  assumes "active (kern s) = Some (a, p)" "pa_reserve (frame_pool (sys_tables s)) sz = Some (NOMEM, pa)"
  shows "\<exists>s'. syscall_mmap s ptr sz flags = Some s'
    \<and> active (kern s') = Some (a, p\<lparr>proc_ctx := setReturnValue (proc_ctx p) (ret_error ENOMEM)\<rparr>)
    \<and> pmem (sys_tables s') = pmem (sys_tables s)"
proof -
  let ?t = "(sys_tables s)\<lparr>frame_pool := pa\<rparr>"
  obtain s' where s': "sys_return (set_tables s ?t) (error_value ENOMEM) = Some s'" "kheap s' = kheap (set_tables s ?t)"
    "sys_world s' = sys_world s" "active (kern s') = Some (a, p\<lparr>proc_ctx := setReturnValue (proc_ctx p) (ret_error ENOMEM)\<rparr>)"
    using sys_return_correct[of "set_tables s ?t" a p "error_value ENOMEM"] assms(1) by (auto simp: ret_error_def)
  have "sys_tables s' = ?t" using sys_tables_set[OF s'(2,3)] by simp
  then show ?thesis using s' assms(2) by (intro exI[of _ s']) (simp add: syscall_mmap_def Let_def)
qed


section \<open>Initialisation\<close>

lemma sys_log_heap:
  assumes "format_matches (c_literal fmt) args"
  shows "\<exists>s'. sys_log s level fmt args = Some s' \<and> kheap s' = kheap s"
  using klog_only_tx[OF assms, of "kern s" level] by (auto simp: sys_log_def on_kernel_def)

lemma init_heap_hmmu: "init_heap h p sz = Some h' \<Longrightarrow> hmmu h' = hmmu h"
  by (auto simp: init_heap_def wr_def rd_def Let_def split: if_splits)

lemma init_memory_establishes:
  assumes m: "map_wf m" "r \<in> set m" "reg_type r = AVAILABLE" "4096 \<le> hi r"
    and lim: "\<forall>r \<in> set m. reg_type r = AVAILABLE \<longrightarrow> hi r < 2 ^ 42"
    and ms: "mapSize m page_size = Some ms" and e: "page_align (start + ms) = of_nat a" "0 < a"
    and n: "high_mem + kernelSize - of_nat a = of_nat (8 * (n + 5))" "a + 8 * (n + 5) < 2 ^ 64" "8 * (n + 5) < 2 ^ 31"
  shows "\<exists>s'. initMemory s start blocks m kernelSize = Some (0, s')
    \<and> pa_wf (frame_pool (hmmu (kheap s')))
    \<and> free_pages (frame_pool (hmmu (kheap s'))) = (\<Union>r \<in> {r \<in> set m. reg_type r = AVAILABLE}.
         {p. lo r \<le> p * 4096 \<and> p * 4096 + 4096 \<le> hi r})
    \<and> heap_inv (kheap s') a [(n, False)] [a] 0"
proof -
  have ps: "unat page_size = 4096" by (simp add: page_size_def)
  have p0: "0 < unat page_size" using ps by simp
  have h4: "unat page_size \<le> hi r" using m(4) ps by simp
  have h: "hi q < 2 ^ 58 \<and> hi q < 2 ^ 30 * unat page_size" if "q \<in> set m" "reg_type q = AVAILABLE" for q
    using bspec[OF lim that(1)] that(2) ps by simp
  obtain pa L where p: "PageAllocator_init m blocks page_size = Some pa" "pa_inv pa L" "pa_offset pa = 0"
    "blockSize pa = page_size" "2 ^ maxKVal pa * unat page_size < 2 ^ 59" "pages L (maxKVal pa) = avail_pages (unat page_size) m"
    using init_correct[OF m(1-3) h4 p0 h, of blocks] by blast
  have "even (unat page_size)" using ps by simp
  then have wf: "pa_wf pa" unfolding pa_wf_def using p by auto
  have fp: "free_pages pa = (\<Union>r \<in> {r \<in> set m. reg_type r = AVAILABLE}. {p. lo r \<le> p * 4096 \<and> p * 4096 + 4096 \<le> hi r})"
  proof -
    have "free_pages pa = avail_pages (unat page_size) m" using free_pages_eq[OF p(2)] p(6) by simp
    then show ?thesis unfolding ps avail_pages_def whole_pages_def .
  qed
  let ?h = "(kheap s)\<lparr>hmmu := (hmmu (kheap s))\<lparr>frame_pool := pa\<rparr>\<rparr>"
  obtain h' where h': "init_heap ?h (of_nat a) (of_nat (8 * (n + 5))) = Some h'" "heap_inv h' a [(n, False)] [a] 0"
    using init_heap_establishes[OF e(2) n(2,3)] by blast
  have f: "format_matches (c_literal ''Constructing page allocator at %016x'') [Word start]"
    "format_matches (c_literal ''Constructing kernel heap at %016x with size %016x'') [Word (of_nat a), Word (of_nat (8 * (n + 5)))]"
    by (simp_all add: c_literal_def skip_padding_def is_number_def)
  obtain s0 where s0: "sys_log s DEBUG ''Constructing page allocator at %016x'' [Word start] = Some s0" "kheap s0 = kheap s"
    using sys_log_heap[OF f(1)] by blast
  obtain s1 where s1: "sys_log s0 DEBUG ''Constructing kernel heap at %016x with size %016x'' [Word (of_nat a), Word (of_nat (8 * (n + 5)))] = Some s1"
    "kheap s1 = kheap s0" using sys_log_heap[OF f(2)] by blast
  have "initMemory s start blocks m kernelSize = Some (0, s1\<lparr>kheap := h'\<rparr>)"
    unfolding initMemory_def s0(1) Option.bind.simps p(1) ms Let_def e(1) n(1) s1(1) using s0(2) s1(2) h'(1) by simp
  moreover have "frame_pool (hmmu h') = pa" using init_heap_hmmu[OF h'(1)] by simp
  ultimately show ?thesis using wf fp h'(2) by (intro exI[of _ "s1\<lparr>kheap := h'\<rparr>"]) simp
qed

text \<open>\<open>initMemory\<close> sets up the memory of the kernel: the page allocator hands out exactly the whole pages of the available regions
  of the memory map, and the heap is one free block from the end of the page map to the end of
  the kernel image.\<close>

theorem init_memory_ready:
  assumes m: "map_wf m" "r \<in> set m" "reg_type r = AVAILABLE" "4096 \<le> hi r"
    and lim: "\<forall>r \<in> set m. reg_type r = AVAILABLE \<longrightarrow> hi r < 2 ^ 42"
    and ms: "mapSize m page_size = Some ms" and e: "page_align (start + ms) = of_nat a" "0 < a"
    and n: "high_mem + kernelSize - of_nat a = of_nat (8 * (n + 5))" "a + 8 * (n + 5) < 2 ^ 64" "8 * (n + 5) < 2 ^ 31"
  shows "\<exists>s'. initMemory s start blocks m kernelSize = Some (0, s')
    \<and> pa_wf (frame_pool (hmmu (kheap s')))
    \<and> free_pages (frame_pool (hmmu (kheap s'))) = (\<Union>r \<in> {r \<in> set m. reg_type r = AVAILABLE}.
         {p. lo r \<le> p * 4096 \<and> p * 4096 + 4096 \<le> hi r})
    \<and> heap_inv (kheap s') a [(n, False)] [a] 0"
  by (rule init_memory_establishes[OF m lim ms e n])

section \<open>Witnesses\<close>

text \<open>A system whose running process has its tables at \<open>0x8000\<close>, with four free frames.\<close>

definition sample_system :: System where
  "sample_system = \<lparr>kern = (two_processes UART_init)\<lparr>kworld := (kworld (two_processes UART_init))\<lparr>ttbr0 := 0x8000\<rparr>\<rparr>,
     kheap = \<lparr>hmem = (\<lambda>_. 0), heap_base = 0, linked_list_start = 0, search_start = 0, search_previous = 0, search_current = 0,
       heap_end = 0, hmmu = loader_mmu\<rparr>, idCounter = 0\<rparr>"

lemma sample_system_active: "\<exists>p. active (kern sample_system) = Some (0, p)"
proof -
  obtain p where "proc_at (two_processes UART_init) 0 = Some p" using two_processes_procs(1)[of UART_init] by auto
  then show ?thesis using two_processes_sched(2)[of UART_init]
    by (simp add: sample_system_def active_def getActiveProcess_def)
qed

lemma sample_system_tables: "sys_tables sample_system = loader_mmu"
proof -
  have "next_table 0x8000 = 0x8000" by code_simp
  then show ?thesis by (simp add: sys_tables_def sys_world_def sample_system_def loader_mmu_def)
qed



theorem init_memory_ready_witness:
  "\<exists>s'. initMemory sample_system 0xFFFFFF8000100000 (\<lambda>_. Block_default) sample_map 0x800000 = Some (0, s')
     \<and> pa_wf (frame_pool (hmmu (kheap s')))"
proof -
  have ms: "mapSize sample_map page_size = Some 0x400000" by code_simp
  have e: "page_align (0xFFFFFF8000100000 + 0x400000) = of_nat 0xFFFFFF8000500000"
    by (simp add: page_align_def page_size_def)
  have n: "high_mem + 0x800000 - of_nat 0xFFFFFF8000500000 = of_nat (8 * (0x5FFFB + 5))" by (simp add: high_mem_def)
  have lim: "\<forall>r \<in> set sample_map. reg_type r = AVAILABLE \<longrightarrow> hi r < 2 ^ 42"
    by (simp add: sample_map_def hi_def lo_def)
  have h: "4096 \<le> hi (sample_map ! 1)" using sample_map_ok(4) by simp
  show ?thesis using init_memory_ready[OF sample_map_ok(1-3) h lim ms e _ n, of sample_system "\<lambda>_. Block_default"] by auto
qed

end
