(* ===== verification/Irq_Correct.thy ===== *)
theory Irq_Correct
  imports Irq System_Correct
begin

text \<open>
  What the interrupt entries do: the choice of the source, preemption by the timer, and the exceptions that
  stop the machine.
\<close>

section \<open>The interrupt source\<close>

lemma ctz_from_spec:
  "i \<le> ctz_from n i w \<and> ctz_from n i w \<le> i + n \<and> (\<forall>j. i \<le> j \<and> j < ctz_from n i w \<longrightarrow> \<not> bit w j)
   \<and> (ctz_from n i w < i + n \<longrightarrow> bit w (ctz_from n i w))"
proof (induction n arbitrary: i)
  case (Suc n)
  show ?case
  proof (cases "bit w i")
    case False
    have "\<not> bit w j" if "i \<le> j" "j < ctz_from n (i + 1) w" for j
      using Suc[of "i + 1"] False that by (cases "j = i") auto
    then show ?thesis using Suc[of "i + 1"] False by auto
  qed auto
qed auto

lemma builtin_ctz_lowest:
  assumes "w \<noteq> 0"
  shows "builtin_ctz w < 32" "bit w (builtin_ctz w)" "j < builtin_ctz w \<Longrightarrow> \<not> bit w j"
proof -
  obtain k where k: "k < 32" "bit w k"
    using assms bit_word_eqI[of w 0] by auto
  have s: "builtin_ctz w \<le> 32" "\<forall>j < builtin_ctz w. \<not> bit w j" "builtin_ctz w < 32 \<longrightarrow> bit w (builtin_ctz w)"
    using ctz_from_spec[of 0 32 w] unfolding builtin_ctz_def by simp_all
  show l: "builtin_ctz w < 32" 
  proof (rule ccontr)
    assume "\<not> builtin_ctz w < 32"
    then have "k < builtin_ctz w" using k(1) by linarith
    then show False using s(2) k(2) by blast
  qed
  show "bit w (builtin_ctz w)" using s(3) l by blast
  show "j < builtin_ctz w \<Longrightarrow> \<not> bit w j" using s(2) by blast
qed



section \<open>Preemption\<close>

text \<open>C11: a timer interrupt preempts the running process: its registers are saved, the first waiting process, or
  the same one when none waits, continues with its registers in its address space, the interrupted one is the last of the queue, no other process
  changes, and the timer is set to fire again after its interval.\<close>

theorem timer_preempts:
  assumes h: "0 \<le> source" "nat source < length (handlers m)" "handlers m ! nat source = Some Timer_handler"
    and k: "k = kern (msys m)" "queue_rep (scheduler k) xs" "cur_Process (scheduler k) = Some c" "proc_at k c = Some p"
    and l: "\<forall>a \<in> set (c # xs). loadable k a"
  shows "\<exists>m' k' ctx'. handle_irq m inp source ctx = Some (ctx', m')
    \<and> k' = kern (msys m') \<and> map_option proc_ctx (proc_at k' (hd (xs @ [c]))) = Some ctx' \<and> queue_rep (scheduler k') (tl (xs @ [c])) \<and> cur_Process (scheduler k') = Some (hd (xs @ [c]))
    \<and> ttbr0 (kworld k') = ttbr_of k (hd (xs @ [c]))
    \<and> (\<forall>a. proc_at k' a = (if a = c then Some (storeContext p ctx) else proc_at k a))
    \<and> timer_C1 (timer m') = in_clo inp + delta (timer m) * 1000"
proof -
  obtain k1 where k1: "set_proc k c (storeContext p ctx) = Some k1" "scheduler k1 = scheduler k" "kworld k1 = kworld k"
    "\<forall>b. proc_at k1 b = (if b = c then Some (storeContext p ctx) else proc_at k b)"
    using proc_at_set[OF k(4), of "storeContext p ctx"] by metis
  obtain q where q: "switchTask k1 = Some (k1\<lparr>scheduler := q, kworld := (kworld k1)\<lparr>ttbr0 := ttbr_of k (hd (xs @ [c]))\<rparr>\<rparr>)"
    "queue_rep q (tl (xs @ [c]))" "cur_Process q = Some (hd (xs @ [c]))"
    using switch_after_update[OF k(2-4) l k1(2-4)] by (auto simp: storeContext_def)
  let ?k2 = "k1\<lparr>scheduler := q, kworld := (kworld k1)\<lparr>ttbr0 := ttbr_of k (hd (xs @ [c]))\<rparr>\<rparr>"
  let ?m = "m\<lparr>msys := (msys m)\<lparr>kern := ?k2\<rparr>, timer := timer_reset (timer m) (in_clo inp)\<rparr>"
  have p2: "proc_at ?k2 b = proc_at k1 b" for b by (simp add: proc_at_def)
  define y where "y = hd (xs @ [c])"
  have "y \<in> set (c # xs)" unfolding y_def by (cases xs) auto
  then obtain r where r: "proc_at k y = Some r" using l by (auto simp: loadable_def)
  have a: "active ?k2 = Some (y, if y = c then storeContext p ctx else r)"
    using q(3) p2 k1(4) r unfolding y_def[symmetric] by (simp add: active_def getActiveProcess_def)
  have "on_kernel (\<lambda>k. do { (a, p) \<leftarrow> active k; set_proc k a (storeContext p ctx) }) (msys m) = Some ((msys m)\<lparr>kern := k1\<rparr>)"
    using active_simp[OF k(3,4)] k(1) k1(1) by (simp add: on_kernel_def)
  then have "handle_irq m inp source ctx = Some (proc_ctx (if y = c then storeContext p ctx else r), ?m)"
    using h k(1,3) q(1,3) a
    by (simp add: handle_irq_def callHandler_def timer_handleInterrupt_def on_kernel_def getActiveProcess_def Let_def)
  moreover have "proc_at ?k2 (hd (xs @ [c])) = Some (if y = c then storeContext p ctx else r)"
    using p2 k1(4) r unfolding y_def by simp
  ultimately show ?thesis using q(2,3) p2 k1(4) by (intro exI[of _ ?m] exI[of _ ?k2]) (simp add: timer_reset_def)
qed

definition sample_machine :: Machine where
  "sample_machine = (Interrupts_init \<lparr>msys = sample_system, handlers = [], timer = SystemTimer_new 50 0, daif = 0,
      irq_enable_base = 0, irq_enable_1 = 0, irq_enable_2 = 0\<rparr>)\<lparr>handlers := (replicate HANDLER_COUNT None)[1 := Some Timer_handler]\<rparr>"

lemma sample_system_sched:
  "queue_rep (scheduler (kern sample_system)) [1]" "cur_Process (scheduler (kern sample_system)) = Some 0"
  "\<forall>a \<in> set [0, 1]. loadable (kern sample_system) a"
proof -
  show "\<forall>a \<in> set [0, 1]. loadable (kern sample_system) a"
    using two_processes_procs[of UART_init] by (auto simp: loadable_def sample_system_def)
qed (use two_processes_sched[of UART_init] in \<open>simp_all add: sample_system_def\<close>)

theorem timer_preempts_witness:
  "\<exists>m' ctx'. handle_irq sample_machine \<lparr>in_clo = 7, in_status = 0, in_rx1 = [], in_rx2 = []\<rparr> 1 (Context_init1 0x4000) = Some (ctx', m')
     \<and> cur_Process (scheduler (kern (msys m'))) = Some 1 \<and> queue_rep (scheduler (kern (msys m'))) [0]
     \<and> timer_C1 (timer m') = 50007"
proof -
  have h: "0 \<le> (1 :: int)" "nat 1 < length (handlers sample_machine)" "handlers sample_machine ! nat 1 = Some Timer_handler"
    by (simp_all add: sample_machine_def HANDLER_COUNT_def)
  have m: "msys sample_machine = sample_system" "delta (timer sample_machine) = 50"
    by (simp_all add: sample_machine_def Interrupts_init_def irq_disable_def SystemTimer_new_def timer_reset_def)
  obtain p where p: "proc_at (kern sample_system) 0 = Some p"
    using two_processes_procs(1)[of UART_init] by (auto simp: sample_system_def)
  from timer_preempts[OF h m(1)[THEN arg_cong, of kern, symmetric] sample_system_sched(1,2) p sample_system_sched(3),
      of "\<lparr>in_clo = 7, in_status = 0, in_rx1 = [], in_rx2 = []\<rparr>" "Context_init1 0x4000"]
  show ?thesis using m(2) by auto
qed

section \<open>Exceptions\<close>

text \<open>An abort of a program, whatever its cause, halts the machine after a message on the log.\<close>

lemma user_abort_halts:
  assumes "type \<in> {INST_ABORT_EL0, DATA_ABORT_EL0}"
  shows "\<exists>s'. handle_sync s type syndrome far ctx = Some (Halt, s') \<and> kheap s' = kheap s"
proof -
  have f: "format_matches (c_literal ''Unhandled INST_ABORT_EL0, FAR_EL1 = %016x'') [Word far]"
    "format_matches (c_literal ''Unhandled DATA_ABORT_EL0, FAR_EL1 = %016x'') [Word far]"
    by (simp_all add: c_literal_def skip_padding_def is_number_def)
  show ?thesis using assms sys_log_heap[OF f(1), of s PANIC] sys_log_heap[OF f(2), of s PANIC]
    by (auto simp: handle_sync_def panic_def)
qed

text \<open>A data abort of the kernel with another status than those of the switch, such as an alignment fault, is
  resumed with nothing changed, so that the same access faults again.\<close>

lemma alignment_fault_resumed: "handle_sync s DATA_ABORT_EL1 0x21 far ctx = Some (Resume ctx, s)"
proof -
  have "statusCode 0x21 = None" by code_simp
  then show ?thesis by (simp add: handle_sync_def)
qed

end
