(* ===== verification/Boot.thy ===== *)
theory Boot
  imports Irq_Correct
begin

text \<open>
  The boot sequence of the kernel, \<open>aarch64_boot\<close> in \<^verbatim>\<open>src/aarch64/aarch64.cpp\<close>, which sets up the components in turn. The
  arguments are the values of the linker and what memory holds at the start: \<open>heap_start\<close> is \<open>__end\<close>,
  \<open>blocks\<close> what is there, \<open>img\<close> the RAM disk, and \<open>pathname\<close>, \<open>argv\<close> and \<open>envp\<close> the addresses of the constant strings.
\<close>

section \<open>Definitions\<close>

text \<open>The results of \<open>place\<close> are not looked at.\<close>

definition boot_map :: "u64 \<Rightarrow> u64 \<Rightarrow> MemoryMap option" where
  "boot_map heap_start kernelSize = do {
     (r1, m1) \<leftarrow> place [] AVAILABLE 0 0x20000000;
     (r2, m2) \<leftarrow> place m1 MMIO 0x3f000000 0x1000000;
     (r3, m3) \<leftarrow> place m2 UNAVAILABLE 0 kernelSize;
     ms \<leftarrow> mapSize m3 page_size;
     (r4, m4) \<leftarrow> place m3 UNAVAILABLE (heap_start - high_mem) ms;
     (r5, m5) \<leftarrow> place m4 UNAVAILABLE 0x8000000 (push_bit 26 1);
     Some m5 }"

definition boot_devices :: "Machine \<Rightarrow> Machine option" where
  "boot_devices m = do {
     m1 \<leftarrow> insertHandler (Interrupts_init m) 57 UART_handler;
     Some (m1\<lparr>msys := set_world (msys m1) ((sys_world (msys m1))\<lparr>uart_dev := UART_init\<rparr>)\<rparr>) }"

definition boot_timer :: "Machine \<Rightarrow> u32 \<Rightarrow> Machine option" where
  "boot_timer m clo = do {
     m1 \<leftarrow> insertHandler (m\<lparr>timer := SystemTimer_new 50 clo\<rparr>) 0 Timer_handler;
     m2 \<leftarrow> insertHandler m1 1 Timer_handler;
     m3 \<leftarrow> insertHandler m2 2 Timer_handler;
     insertHandler m3 3 Timer_handler }"

definition start_init :: "System \<Rightarrow> u64 \<Rightarrow> u64 \<Rightarrow> u64 \<Rightarrow> (outcome \<times> System) option" where
  "start_init s pathname argv envp = do {
     s1 \<leftarrow> sys_log s DEBUG ''Creating first process.'' [];
     s2 \<leftarrow> on_kernel (\<lambda>k. addProcess k Process_init0) s1;
     s3 \<leftarrow> on_kernel switchTask s2;
     (status, s4) \<leftarrow> Kernel_exec s3 pathname argv envp;
     (if status \<noteq> 0 then panic s4 ''Failed to load /bin/init'' []
      else do {
        s5 \<leftarrow> sys_log s4 INFO ''Bootup complete, loading first process...'' [];
        (a, p) \<leftarrow> active (kern s5);
        Some (Resume (proc_ctx p), s5) }) }"

definition aarch64_boot :: "Machine \<Rightarrow> u64 \<Rightarrow> u64 \<Rightarrow> u64 \<Rightarrow> (nat \<Rightarrow> Block) \<Rightarrow> nat \<Rightarrow> FAT32 \<Rightarrow> (int \<Rightarrow> u8) \<Rightarrow> int \<Rightarrow> u32
    \<Rightarrow> u64 \<Rightarrow> u64 \<Rightarrow> u64 \<Rightarrow> (outcome \<times> Machine) option" where
  "aarch64_boot m dtb kernelSize heap_start blocks depth old img n clo pathname argv envp = do {
     m1 \<leftarrow> boot_devices m;
     s1 \<leftarrow> sys_log (msys m1) INFO ''CROS startup...'' [];
     s2 \<leftarrow> sys_log s1 DEBUG ''DTB Location = %016x'' [Word dtb];
     s3 \<leftarrow> sys_log s2 DEBUG ''Kernel size = %i MiB'' [Word (drop_bit 20 kernelSize)];
     memoryMap \<leftarrow> boot_map heap_start kernelSize;
     (r1, s4) \<leftarrow> initMemory s3 heap_start blocks memoryMap kernelSize;
     t \<leftarrow> setPageEntry (sys_tables s4) 2 (high_mem + 0x100000000) 0 PAGE_RW;
     (r2, s5) \<leftarrow> initRamFS depth (set_tables s4 t) (high_mem + 0x108000000) 0 old img n;
     m2 \<leftarrow> boot_timer (m1\<lparr>msys := s5\<rparr>) clo;
     (r, s6) \<leftarrow> start_init (msys m2) pathname argv envp;
     Some (r, m2\<lparr>msys := s6\<rparr>) }"

section \<open>The memory map\<close>

text \<open>The map for a kernel of 32 MiB, the size that the entry code passes.\<close>

definition kernel_map :: MemoryMap where
  "kernel_map = [\<lparr>reg_type = UNAVAILABLE, reg_location = 0, reg_size = 0x2000000\<rparr>,
     \<lparr>reg_type = AVAILABLE, reg_location = 0x2000000, reg_size = 0x1E000000\<rparr>,
     \<lparr>reg_type = MMIO, reg_location = 0x3F000000, reg_size = 0x1000000\<rparr>]"

definition full_map :: MemoryMap where
  "full_map = [\<lparr>reg_type = UNAVAILABLE, reg_location = 0, reg_size = 0x2000000\<rparr>,
     \<lparr>reg_type = AVAILABLE, reg_location = 0x2000000, reg_size = 0x6000000\<rparr>,
     \<lparr>reg_type = UNAVAILABLE, reg_location = 0x8000000, reg_size = 0x4000000\<rparr>,
     \<lparr>reg_type = AVAILABLE, reg_location = 0xC000000, reg_size = 0x14000000\<rparr>,
     \<lparr>reg_type = MMIO, reg_location = 0x3F000000, reg_size = 0x1000000\<rparr>]"

lemma boot_places:
  "do { (r1, m1) \<leftarrow> place [] AVAILABLE 0 0x20000000; (r2, m2) \<leftarrow> place m1 MMIO 0x3f000000 0x1000000;
        (r3, m3) \<leftarrow> place m2 UNAVAILABLE 0 0x2000000; Some m3 } = Some kernel_map"
  "mapSize kernel_map page_size = Some 0x400000" "place kernel_map UNAVAILABLE 0x8000000 (push_bit 26 1) = Some (0, full_map)"
  "mapSize full_map page_size = Some 0x400000" "place_loop kernel_map 0 = Some kernel_map"
  by code_simp+

text \<open>The page map lies within the kernel, so that placing it changes nothing.\<close>

lemma place_page_map:
  assumes "e \<noteq> 0" "e \<le> 0x1C00000"
  shows "place kernel_map UNAVAILABLE e 0x400000 = Some (0, kernel_map)"
proof -
  have u: "0 < unat e" "unat e \<le> 0x1C00000" using assms by (simp_all add: unat_gt_0 word_le_nat_alt)
  then have "unat (e + 0x400000) = unat e + 0x400000" by (subst unat_add_no_wrap) simp_all
  then have c: "\<not> 0x2000000 < e + 0x400000" "e < 0x2000000" using u by (simp_all add: word_less_nat_alt)
  let ?r = "\<lparr>reg_type = UNAVAILABLE, reg_location = e, reg_size = 0x400000\<rparr>"
  have ins: "insert_loop ?r kernel_map = hd kernel_map # ?r # tl kernel_map"
    using assms(1) c(2) by (simp add: kernel_map_def region_less_def)
  have "trim (hd kernel_map # ?r # tl kernel_map) 0 = Some (kernel_map, Some 0)"
    using c by (simp add: trim_def kernel_map_def overlaps_def region_end_def map_remove_def Let_def)
  then have "place_loop (hd kernel_map # ?r # tl kernel_map) 0 = Some kernel_map"
    using boot_places(5) by (subst place_loop.simps) simp
  then show ?thesis using ins by (simp add: place_def map_insert_def capacity_def kernel_map_def)
qed

lemma boot_map_full:
  assumes "e \<noteq> 0" "e \<le> 0x1C00000"
  shows "boot_map (high_mem + e) 0x2000000 = Some full_map"
  using boot_places(1-3) place_page_map[OF assms]
  by (auto simp: boot_map_def bind_eq_Some_conv)

section \<open>Memory after booting\<close>

lemma page_align_page:
  assumes "take_bit 12 a = 0"
  shows "page_align a = a"
proof -
  have m: "page_size - 1 = mask 12" by (simp add: page_size_def mask_eq_exp_minus_1)
  have b: "\<not> bit a n" if "n < 12" for n
    using that arg_cong[OF assms, of "\<lambda>w. bit w n"] by (simp add: bit_take_bit_iff)
  have "a AND mask 12 = 0" using assms by (simp add: take_bit_eq_mask)
  then have "a + mask 12 = a OR mask 12" by (rule disjunctive_add_eq_or)
  moreover have "(a OR mask 12) AND NOT (mask 12) = a" by (rule bit_word_eqI) (use b in \<open>auto simp: bit_simps\<close>)
  ultimately show ?thesis by (simp add: page_align_def m)
qed

lemma full_map_regions:
  "map_wf full_map" "full_map ! 1 \<in> set full_map" "reg_type (full_map ! 1) = AVAILABLE" "4096 \<le> hi (full_map ! 1)"
  "\<forall>r \<in> set full_map. reg_type r = AVAILABLE \<longrightarrow> hi r < 2 ^ 42"
  by (auto simp: full_map_def map_wf_def region_ok_def lo_def hi_def)

lemma full_map_pages:
  "(\<Union>r \<in> {r \<in> set full_map. reg_type r = AVAILABLE}. {p. lo r \<le> p * 4096 \<and> p * 4096 + 4096 \<le> hi r})
   = {0x2000..<0x8000} \<union> {0xC000..<0x20000}"
proof -
  have r: "{r \<in> set full_map. reg_type r = AVAILABLE} = {full_map ! 1, full_map ! 3}" by (auto simp: full_map_def)
  have i: "{p :: nat. a * 4096 \<le> p * 4096 \<and> p * 4096 + 4096 \<le> b * 4096} = {a..<b}" for a b by auto
  have "lo (full_map ! 1) = 0x2000 * 4096" "hi (full_map ! 1) = 0x8000 * 4096"
    "lo (full_map ! 3) = 0xC000 * 4096" "hi (full_map ! 3) = 0x20000 * 4096" by (simp_all add: full_map_def lo_def hi_def)
  then show ?thesis unfolding r UN_insert by (simp only: i) simp
qed

lemma page_multiple: "take_bit 12 (of_nat (4096 * t) :: u64) = 0"
proof -
  have "(of_nat (4096 * t) :: u64) = push_bit 12 (of_nat t)" by (simp add: push_bit_eq_mult)
  then show ?thesis by (simp add: take_bit_push_bit)
qed



section \<open>The first process\<close>

text \<open>The first process is created without an address space, and the task switch that follows loads the address space behind a
  null pointer. (The tables of the bootstrap still map the page at 0, so that what memory holds there is taken for
  an address space until \<open>exec\<close> loads a proper one.)\<close>

lemma first_switch:
  "Option.bind (addProcess \<lparr>scheduler = queue_init, processTable = bst_init, currPid = i, kworld = w\<rparr> Process_init0) switchTask = None"
  by code_simp

lemma start_init_null_space:
  assumes "scheduler (kern s) = queue_init" "processTable (kern s) = bst_init"
  shows "start_init s pathname argv envp = None"
proof -
  have "format_matches (c_literal ''Creating first process.'') []" by code_simp
  from klog_only_tx[OF this, of "kern s" DEBUG] obtain w where
    l: "klog (kern s) DEBUG ''Creating first process.'' [] = Some ((kern s)\<lparr>kworld := w\<rparr>)" by blast
  have "(kern s)\<lparr>kworld := w\<rparr> = \<lparr>scheduler = queue_init, processTable = bst_init, currPid = currPid (kern s), kworld = w\<rparr>"
    using assms by (cases "kern s") simp
  then have "Option.bind (addProcess ((kern s)\<lparr>kworld := w\<rparr>) Process_init0) switchTask = None" using first_switch by simp
  then show ?thesis using l
    by (cases "addProcess ((kern s)\<lparr>kworld := w\<rparr>) Process_init0") (simp_all add: start_init_def sys_log_def on_kernel_def)
qed

end
