(* ===== verification/Bootstrap.thy ===== *)
theory Bootstrap
  imports Mmu_Correct
begin

text \<open>
  The translation tables that \<open>mmu_init\<close> of \<^verbatim>\<open>src/aarch64/bootstrap.cpp\<close> sets up before the kernel runs. The three tables lie
  in physical memory; the registers that the code writes are fields of the state, those it reads are
  arguments. The messages on the serial port and its setup are left out.
\<close>

section \<open>State and operations\<close>

record boot_cpu =
  boot_mem :: "u64 \<Rightarrow> u64"
  TTBR0_EL1 :: u64
  TTBR1_EL1 :: u64
  MAIR_EL1 :: u64
  TCR_EL1 :: u64
  SCTLR_EL1 :: u64

definition put_entry :: "(u64 \<Rightarrow> u64) \<Rightarrow> u64 \<Rightarrow> u64 \<Rightarrow> u64 \<Rightarrow> (u64 \<Rightarrow> u64)" where
  "put_entry pm table i v = pm(table + 8 * i := v)"

text \<open>The loop over the blocks of the kernel; the counter is a machine word.\<close>

partial_function (option) map_kernel :: "(u64 \<Rightarrow> u64) \<Rightarrow> u64 \<Rightarrow> u64 \<Rightarrow> u64 \<Rightarrow> (u64 \<Rightarrow> u64) option" where
  "map_kernel pm level2 kernel_size p =
     (if p < kernel_size
      then map_kernel (put_entry pm level2 (p div 0x200000) (p OR 1025)) level2 kernel_size (p + 0x200000)
      else Some pm)"

declare map_kernel.simps [code]

definition boot_mair :: u64 where "boot_mair = 0xFF OR push_bit 8 0x04 OR push_bit 16 0x44"

definition boot_tcr :: "u64 \<Rightarrow> u64" where
  "boot_tcr mmfr0 = push_bit 32 (mmfr0 AND 0xF) OR push_bit 30 2 OR push_bit 28 3 OR push_bit 26 1 OR push_bit 24 1
     OR push_bit 16 25 OR push_bit 12 3 OR push_bit 10 1 OR push_bit 8 1 OR 25"

definition boot_sctlr :: "u64 \<Rightarrow> u64" where
  "boot_sctlr sctlr = (sctlr OR 0xC00801)
     AND NOT (push_bit 25 1 OR push_bit 24 1 OR push_bit 19 1 OR push_bit 12 1 OR push_bit 4 1 OR push_bit 3 1 OR push_bit 2 1 OR push_bit 1 1)"

text \<open>\<open>level1 + 1\<close> is pointer arithmetic: it adds the size of an entry.\<close>

definition mmu_init :: "boot_cpu \<Rightarrow> u64 \<Rightarrow> u64 \<Rightarrow> u64 \<Rightarrow> u64 \<Rightarrow> u64 \<Rightarrow> boot_cpu option" where
  "mmu_init c mmfr0 kernel_size level0 level1 level2 = do {
     let pm1 = put_entry (boot_mem c) level0 0 (level1 OR 1027);
     let pm2 = put_entry pm1 level1 0 (level2 OR 1027);
     pm3 \<leftarrow> map_kernel pm2 level2 kernel_size 0;
     let pm4 = put_entry pm3 level2 504 (0x3f000000 OR 1025 OR 4);
     let pm5 = put_entry pm4 level2 505 (0x3f200000 OR 1025 OR 4);
     let pm6 = put_entry pm5 level1 511 (level1 OR 1027);
     Some \<lparr>boot_mem = pm6, TTBR0_EL1 = level1 + 8, TTBR1_EL1 = level1 + 8, MAIR_EL1 = boot_mair, TCR_EL1 = boot_tcr mmfr0,
       SCTLR_EL1 = boot_sctlr (SCTLR_EL1 c)\<rparr> }"

text \<open>The machine as the kernel finds it; the processor takes the bits of a table address from the registers.\<close>

definition booted :: "boot_cpu \<Rightarrow> PageAllocator \<Rightarrow> Mmu" where
  "booted c pool = \<lparr>pmem = boot_mem c, ttbr0_table = next_table (TTBR0_EL1 c), ttbr1_table = next_table (TTBR1_EL1 c), frame_pool = pool\<rparr>"

section \<open>Entries of tables\<close>

lemma frame_unat:
  assumes "is_frame T"
  shows "\<exists>t. unat T = 4096 * t \<and> t < 2 ^ 36"
proof -
  have z: "unat (take_bit 12 T) = 0" "unat (drop_bit 48 T) = 0" using assms unfolding is_frame_def by (simp_all only: unsigned_0)
  have "take_bit 12 (unat T) = 0" using z(1) by (simp only: unsigned_take_bit_eq)
  then have d: "unat T mod 4096 = 0" "unat T div 2 ^ 48 = 0" using z(2) unfolding unat_drop by (simp_all add: take_bit_eq_mod)
  then have "unat T < 2 ^ 48" by (simp add: div_eq_0_iff)
  then show ?thesis using d(1) by (intro exI[of _ "unat T div 4096"]) (auto simp: mod_eq_0_iff_dvd)
qed

lemma entry_unat:
  assumes "is_frame T" "i < 512"
  shows "unat (T + 8 * of_nat i) = unat T + 8 * i"
proof -
  obtain t where t: "unat T = 4096 * t" "t < 2 ^ 36" using frame_unat[OF assms(1)] by blast
  have "unat (8 * of_nat i :: u64) = 8 * i" using assms(2) by (simp add: unat_word_ariths unat_of_nat)
  then show ?thesis using t assms(2) by (simp add: unat_word_ariths)
qed

lemma entry_eq:
  assumes "is_frame T" "is_frame U" "i < 512" "j < 512"
  shows "T + 8 * of_nat i = U + 8 * of_nat j \<longleftrightarrow> T = U \<and> i = j"
proof
  assume e: "T + 8 * of_nat i = U + 8 * of_nat j"
  obtain t u where tu: "unat T = 4096 * t" "unat U = 4096 * u" using frame_unat assms(1,2) by blast
  have "unat T + 8 * i = unat U + 8 * j" using arg_cong[OF e, of unat] entry_unat assms by simp
  then have s: "4096 * t + 8 * i = 4096 * u + 8 * j" using tu by simp
  have "t = u" by (rule linorder_cases[of t u]) (use s assms(3,4) in linarith)+
  then have "unat T = unat U" "i = j" using s tu by simp_all
  then show "T = U \<and> i = j" by (simp add: word_unat_eq_iff)
qed simp

lemma put_entry_at:
  assumes "is_frame T" "is_frame U" "i < 512" "j < 512"
  shows "put_entry pm T (of_nat i) v (U + 8 * of_nat j) = (if T = U \<and> i = j then v else pm (U + 8 * of_nat j))"
  using entry_eq[OF assms(2,1,4,3)] by (auto simp: put_entry_def)

lemma table_word: "is_frame f \<Longrightarrow> f OR 1027 = makeTableDescriptor f"
proof (rule bit_word_eqI)
  fix n :: nat assume f: "is_frame f" and n: "n < LENGTH(64)"
  have "(1027 :: u64) = set_bit 0 (set_bit 1 (set_bit 10 0))" by code_simp
  then have b: "bit (1027 :: u64) n \<longleftrightarrow> n = 0 \<or> n = 1 \<or> n = 10"
    by (simp only: bit_set_bit_iff bit_0_eq) (use n in auto)
  show "bit (f OR 1027) n \<longleftrightarrow> bit (makeTableDescriptor f) n"
    unfolding makeTableDescriptor_def bit_set_physicalAddress bit_or_iff b
    using is_frame_bit[OF f, of n] by (auto simp: descriptor_bits)
qed

section \<open>Walks through the boot tables\<close>

definition block_flags :: "u64 \<Rightarrow> bool" where "block_flags f \<longleftrightarrow> f = 1025 \<or> f = 1029"

lemma block_flags_bit:
  assumes "block_flags f" "bit f n"
  shows "n = 0 \<or> n = 2 \<or> n = 10"
proof -
  have "(1025 :: u64) = set_bit 0 (set_bit 10 0)" "(1029 :: u64) = set_bit 0 (set_bit 2 (set_bit 10 0))" by code_simp+
  then have "f = set_bit 0 (set_bit 10 0) \<or> f = set_bit 0 (set_bit 2 (set_bit 10 0))" using assms(1) by (simp only: block_flags_def)
  then have "bit (set_bit 0 (set_bit 10 0) :: u64) n \<or> bit (set_bit 0 (set_bit 2 (set_bit 10 0)) :: u64) n" using assms(2) by auto
  then show ?thesis by (simp only: bit_set_bit_iff bit_0_eq bot_apply bot_bool_def) auto
qed

lemma half_add:
  assumes "half H" "lower x"
  shows "H + x = H OR x"
proof -
  have "H AND x = 0" by (rule bit_word_eqI) (use half_bit[OF assms(1)] lower_bit[OF assms(2)] in \<open>fastforce simp: bit_simps\<close>)
  then show ?thesis by (rule disjunctive_add_eq_or)
qed

lemma half_index:
  assumes "half H" "lower x"
  shows "n \<le> 30 \<Longrightarrow> take_bit 9 (drop_bit n (H + x)) = take_bit 9 (drop_bit n x)" "take_bit 21 (H + x) = take_bit 21 x"
  unfolding half_add[OF assms]
  by (rule bit_word_eqI; use half_bit[OF assms(1)] in \<open>fastforce simp: bit_simps\<close>)+

lemma lower_small:
  assumes "x < (2 ^ 30 :: u64)"
  shows "lower x" "drop_bit 30 x = 0" "take_bit 9 (drop_bit 21 x) = drop_bit 21 x"
proof -
  have x: "unat x < 2 ^ 30" using assms by (simp add: word_less_nat_alt)
  have "unat (drop_bit 30 x) = 0" "unat (drop_bit 39 x) = 0" using x unfolding unat_drop by simp_all
  then show d: "drop_bit 30 x = 0" "lower x" unfolding lower_def by (simp_all only: unat_eq_zero)
  have b: "\<not> bit x n" if "30 \<le> n" for n
  proof -
    have "bit (drop_bit 30 x) (n - 30) = bit x n" using that by (simp add: bit_simps)
    then show ?thesis using d(1) by simp
  qed
  show "take_bit 9 (drop_bit 21 x) = drop_bit 21 x"
  proof (rule bit_word_eqI)
    fix n :: nat assume "n < LENGTH(64)"
    show "bit (take_bit 9 (drop_bit 21 x)) n = bit (drop_bit 21 x) n" using b[of "21 + n"] by (cases "n < 9") (auto simp: bit_simps)
  qed
qed

lemma block_walk:
  assumes "is_frame l2" "pm l1 = makeTableDescriptor l2" "x < 2 ^ 30" "half H" "block_flags f"
    and "pm (l2 + 8 * drop_bit 21 x) = push_bit 21 (drop_bit 21 x) OR f"
  shows "walk pm l1 (H + x) = Inr (push_bit 21 (drop_bit 21 x) OR f, x)"
proof -
  let ?e = "push_bit 21 (drop_bit 21 x) OR f"
  note l = lower_small[OF assms(3)]
  have i: "take_bit 9 (drop_bit 30 (H + x)) = 0" "take_bit 9 (drop_bit 21 (H + x)) = drop_bit 21 x"
    using half_index(1)[OF assms(4) l(1), of 30] half_index(1)[OF assms(4) l(1), of 21] l(2,3) by simp_all
  have b: "bit ?e 0" "\<not> bit ?e 1"
    using assms(5) block_flags_bit[OF assms(5), of 1] by (auto simp: bit_simps block_flags_def)
  have n: "next_table ?e = push_bit 21 (drop_bit 21 x)"
  proof (rule bit_word_eqI)
    fix k :: nat assume "k < LENGTH(64)"
    have "bit f k \<Longrightarrow> k < 12" "bit x k \<Longrightarrow> k < 48" using block_flags_bit[OF assms(5), of k] lower_bit[OF l(1), of k] by auto
    then show "bit (next_table ?e) k = bit (push_bit 21 (drop_bit 21 x)) k"
      by (auto simp: next_table_def bit_simps)
  qed
  have "push_bit 21 (drop_bit 21 x) AND take_bit 21 x = 0" by (rule bit_word_eqI) (auto simp: bit_simps)
  moreover have "push_bit 21 (drop_bit 21 x) OR take_bit 21 x = x" by (rule bit_word_eqI) (auto simp: bit_simps)
  ultimately have "push_bit 21 (drop_bit 21 x) + take_bit 21 x = x" using disjunctive_add_eq_or by metis
  then show ?thesis
    using assms(1,2,6) b n half_index(2)[OF assms(4) l(1)]
    by (simp add: walk_def entry_loc_def i next_table_tableDescriptor Let_def)
qed

section \<open>The loop over the blocks\<close>

definition kernel_blocks :: "u64 \<Rightarrow> nat" where "kernel_blocks ks = (unat ks + 0x1FFFFF) div 0x200000"

lemma kernel_blocks_less: "i < kernel_blocks ks \<longleftrightarrow> 0x200000 * i < unat ks"
  unfolding kernel_blocks_def Suc_le_eq[symmetric] by (subst less_eq_div_iff_mult_less_eq) auto

lemma kernel_blocks_small:
  assumes "unat ks \<le> 0x3F000000"
  shows "kernel_blocks ks \<le> 504"
proof -
  have "kernel_blocks ks \<le> (0x3F000000 + 0x1FFFFF) div 0x200000"
    unfolding kernel_blocks_def by (rule div_le_mono) (use assms in simp)
  then show ?thesis by simp
qed

lemma block_unat: "i \<le> 512 \<Longrightarrow> unat (of_nat (0x200000 * i) :: u64) = 0x200000 * i"
  by (rule unat_of_nat_no_wrap) simp

lemma block_div: "i < 512 \<Longrightarrow> of_nat (0x200000 * i) div (0x200000 :: u64) = of_nat i"
  using block_unat[of i] by (intro word_unat_eq_iff[THEN iffD2]) (simp add: unat_div unat_of_nat del: of_nat_mult)

lemma map_kernel_fills:
  assumes "is_frame l2" "unat ks \<le> 0x3F000000" "i \<le> kernel_blocks ks"
  shows "\<exists>pm'. map_kernel pm l2 ks (of_nat (0x200000 * i)) = Some pm'
    \<and> (\<forall>j. i \<le> j \<and> j < kernel_blocks ks \<longrightarrow> pm' (l2 + 8 * of_nat j) = of_nat (0x200000 * j) OR 1025)
    \<and> (\<forall>a. (\<forall>j. i \<le> j \<and> j < kernel_blocks ks \<longrightarrow> a \<noteq> l2 + 8 * of_nat j) \<longrightarrow> pm' a = pm a)"
  using assms(3)
proof (induction "kernel_blocks ks - i" arbitrary: i pm)
  case 0
  have "i \<le> 512" using 0 kernel_blocks_small[OF assms(2)] by simp
  then have "\<not> of_nat (0x200000 * i) < ks" using 0 kernel_blocks_less[of i ks] block_unat[of i] by (simp add: word_less_nat_alt del: of_nat_mult)
  then show ?case using 0 by (subst map_kernel.simps) auto
next
  case (Suc d)
  have i: "i < kernel_blocks ks" "i < 504" using Suc.hyps(2) kernel_blocks_small[OF assms(2)] by simp_all
  then have less: "of_nat (0x200000 * i) < ks" using kernel_blocks_less[of i ks] block_unat[of i] by (simp add: word_less_nat_alt del: of_nat_mult)
  let ?p = "of_nat (0x200000 * i) :: u64"
  let ?pm = "put_entry pm l2 (of_nat i) (?p OR 1025)"
  have nxt: "?p + 0x200000 = of_nat (0x200000 * Suc i)" by simp
  have "d = kernel_blocks ks - Suc i" "Suc i \<le> kernel_blocks ks" using Suc.hyps(2) i by simp_all
  from Suc.hyps(1)[OF this, of ?pm] obtain pm' where pm': "map_kernel ?pm l2 ks (of_nat (0x200000 * Suc i)) = Some pm'"
    "\<And>j. Suc i \<le> j \<and> j < kernel_blocks ks \<Longrightarrow> pm' (l2 + 8 * of_nat j) = of_nat (0x200000 * j) OR 1025"
    "\<And>a. \<forall>j. Suc i \<le> j \<and> j < kernel_blocks ks \<longrightarrow> a \<noteq> l2 + 8 * of_nat j \<Longrightarrow> pm' a = ?pm a"
    by blast
  have "map_kernel pm l2 ks ?p = Some pm'"
    using less pm'(1) block_div[of i] i(2) unfolding nxt[symmetric] by (subst map_kernel.simps) (simp add: add.commute del: of_nat_mult)
  moreover have "l2 + 8 * of_nat i \<noteq> l2 + 8 * of_nat j" if "Suc i \<le> j \<and> j < kernel_blocks ks" for j
    using entry_eq[OF assms(1,1), of i j] that i kernel_blocks_small[OF assms(2)] by auto
  then have "pm' (l2 + 8 * of_nat i) = ?p OR 1025" using pm'(3)[of "l2 + 8 * of_nat i"] by (auto simp: put_entry_def)
  moreover have "pm' a = pm a" if "\<forall>j. i \<le> j \<and> j < kernel_blocks ks \<longrightarrow> a \<noteq> l2 + 8 * of_nat j" for a
    using pm'(3)[of a] that i(1) by (auto simp: put_entry_def)
  ultimately show ?case using pm'(2) by (metis Suc_leI le_neq_implies_less)
qed

section \<open>The tables after the bootstrap\<close>

lemma ttbr_table: "is_frame T \<Longrightarrow> next_table (T + 8) = T"
proof -
  assume T: "is_frame T"
  have "(8 :: u64) = set_bit 3 0" by code_simp
  then have b8: "bit (8 :: u64) n \<Longrightarrow> n = 3" for n by (simp only: bit_set_bit_iff bit_0_eq bot_apply bot_bool_def) simp
  have "T AND 8 = 0" by (rule bit_word_eqI) (use b8 is_frame_bit[OF T] in \<open>fastforce simp: bit_simps\<close>)
  then have "T + 8 = T OR 8" by (rule disjunctive_add_eq_or)
  moreover have "next_table (T OR 8) = T"
  proof (rule bit_word_eqI)
    fix n :: nat
    show "bit (next_table (T OR 8)) n = bit T n"
      using b8[of n] is_frame_bit[OF T, of n] by (auto simp: next_table_def bit_simps)
  qed
  ultimately show ?thesis by simp
qed

lemma translate_half:
  assumes "half H" "x < 2 ^ 30"
  shows "translate s (H + x) = walk (pmem s) (if H = 0 then ttbr0_table s else ttbr1_table s) (H + x)"
proof (cases "H = 0")
  case True
  then show ?thesis using assms(2) by (simp add: translate_def user_end_def word_less_nat_alt)
next
  case False
  then have H: "H = high_mem" using assms(1) by (simp add: half_def)
  have "unat (high_mem + x) = unat high_mem + unat x"
    using assms(2) by (intro unat_add_no_wrap) (simp add: high_mem_def word_less_nat_alt)
  then show ?thesis using H False by (simp add: translate_def user_end_def high_mem_def word_less_nat_alt word_le_nat_alt)
qed

lemma block_word: "of_nat (0x200000 * unat (drop_bit 21 x)) = push_bit 21 (drop_bit 21 x)"
  by (simp add: push_bit_eq_mult)

text \<open>C14: the tables of the bootstrap. With the kernel below the device registers, \<open>mmu_init\<close> returns, and then every
  byte of the kernel is mapped, writable, to its physical address both at that address and in the upper half, the
  device registers are mapped in the upper half, both table registers hold the same table, and this
  table maps itself, which is what the kernel relies on when it changes entries.\<close>

theorem boot_tables_map_kernel:
  assumes f: "is_frame level0" "is_frame level1" "is_frame level2" "level0 \<noteq> level1" "level0 \<noteq> level2" "level1 \<noteq> level2"
    and ks: "unat kernel_size \<le> 0x3F000000"
  shows "\<exists>c'. mmu_init c mmfr0 kernel_size level0 level1 level2 = Some c'
    \<and> self_mapped (pmem (booted c' pool)) level1 \<and> ttbr0_table (booted c' pool) = level1 \<and> ttbr1_table (booted c' pool) = level1
    \<and> (\<forall>x. x < kernel_size \<longrightarrow> (\<exists>e. translate (booted c' pool) x = Inr (e, x) \<and> translate (booted c' pool) (high_mem + x) = Inr (e, x)
          \<and> bit e 10 \<and> \<not> bit e 7))
    \<and> (\<forall>x. 0x3F000000 \<le> x \<and> x < 0x3F400000 \<longrightarrow> (\<exists>e. translate (booted c' pool) (high_mem + x) = Inr (e, x) \<and> bit e 10 \<and> \<not> bit e 7))"
proof -
  define pm2 where "pm2 = put_entry (put_entry (boot_mem c) level0 0 (level1 OR 1027)) level1 0 (level2 OR 1027)"
  obtain pm3 where pm3: "map_kernel pm2 level2 kernel_size 0 = Some pm3"
    "\<forall>j. j < kernel_blocks kernel_size \<longrightarrow> pm3 (level2 + 8 * of_nat j) = of_nat (0x200000 * j) OR 1025"
    "\<forall>a. (\<forall>j. j < kernel_blocks kernel_size \<longrightarrow> a \<noteq> level2 + 8 * of_nat j) \<longrightarrow> pm3 a = pm2 a"
    using map_kernel_fills[OF f(3) ks, of 0 pm2] by auto
  define pm6 where "pm6 = put_entry (put_entry (put_entry pm3 level2 504 (0x3f000000 OR 1025 OR 4))
      level2 505 (0x3f200000 OR 1025 OR 4)) level1 511 (level1 OR 1027)"
  have pm6: "pm6 = put_entry (put_entry (put_entry pm3 level2 (of_nat 504) (0x3f000000 OR 1025 OR 4))
      level2 (of_nat 505) (0x3f200000 OR 1025 OR 4)) level1 (of_nat 511) (level1 OR 1027)" by (simp add: pm6_def)
  have pm2: "pm2 = put_entry (put_entry (boot_mem c) level0 (of_nat 0) (level1 OR 1027)) level1 (of_nat 0) (level2 OR 1027)"
    by (simp add: pm2_def)
  note at = put_entry_at[OF f(2,2)] put_entry_at[OF f(2,3)] put_entry_at[OF f(3,2)] put_entry_at[OF f(3,3)]
  note kb = kernel_blocks_small[OF ks]
  have "pm6 (level1 + 8 * of_nat 511) = makeTableDescriptor level1" unfolding pm6 by (subst at(1)) (simp_all add: table_word[OF f(2)])
  then have self: "self_mapped pm6 level1" using f(2) by (simp add: self_mapped_def self_entry_def mask_eq_exp_minus_1)
  have "level1 + 8 * of_nat 0 \<noteq> level2 + 8 * of_nat j" if "j < kernel_blocks kernel_size" for j
    using entry_eq[OF f(2,3), of 0 j] f(6) that kb by auto
  then have "pm3 (level1 + 8 * of_nat 0) = pm2 (level1 + 8 * of_nat 0)" using pm3(3) by blast
  then have "pm6 (level1 + 8 * of_nat 0) = pm2 (level1 + 8 * of_nat 0)" unfolding pm6 using f(6) at(1,3) by (simp only: at) simp
  moreover have "pm2 (level1 + 8 * of_nat 0) = makeTableDescriptor level2" unfolding pm2 by (subst at(1)) (simp_all add: table_word[OF f(3)])
  ultimately have top: "pm6 level1 = makeTableDescriptor level2" by simp
  have lk: "pm6 (level2 + 8 * of_nat j) = (if j = 505 then 0x3f200000 OR 1025 OR 4 else if j = 504 then 0x3f000000 OR 1025 OR 4
      else pm3 (level2 + 8 * of_nat j))" if "j < 512" for j
    using f(6) that unfolding pm6 by (simp only: at) simp
  have blk: "pm6 (level2 + 8 * of_nat j) = of_nat (0x200000 * j) OR 1025" if "j < kernel_blocks kernel_size" for j
    using that kb lk[of j] pm3(2) by simp
  have dev: "pm6 (level2 + 8 * of_nat j) = of_nat (0x200000 * j) OR 1029" if "j = 504 \<or> j = 505" for j
    using that lk[of j] by auto
  let ?c = "\<lparr>boot_mem = pm6, TTBR0_EL1 = level1 + 8, TTBR1_EL1 = level1 + 8, MAIR_EL1 = boot_mair, TCR_EL1 = boot_tcr mmfr0,
       SCTLR_EL1 = boot_sctlr (SCTLR_EL1 c)\<rparr>"
  let ?s = "booted ?c pool"
  have run: "mmu_init c mmfr0 kernel_size level0 level1 level2 = Some ?c"
    using pm3(1) unfolding pm2_def by (simp add: mmu_init_def pm6_def Let_def)
  have s: "pmem ?s = pm6" "ttbr0_table ?s = level1" "ttbr1_table ?s = level1" by (simp_all add: booted_def ttbr_table[OF f(2)])
  have tr: "translate ?s (H + x) = Inr (push_bit 21 (drop_bit 21 x) OR fl, x)"
    if "half H" "x < 2 ^ 30" "block_flags fl" "pm6 (level2 + 8 * of_nat (unat (drop_bit 21 x))) = of_nat (0x200000 * unat (drop_bit 21 x)) OR fl" for H x fl
  proof -
    have "walk pm6 level1 (H + x) = Inr (push_bit 21 (drop_bit 21 x) OR fl, x)"
      using block_walk[where pm = pm6 and ?l1.0 = level1, OF f(3) top that(2,1,3)] that(4) unfolding block_word by simp
    then show ?thesis by (simp only: translate_half[OF that(1,2)] s if_cancel)
  qed
  have fl: "bit (push_bit 21 y OR fl) 10 \<and> \<not> bit (push_bit 21 y OR fl) 7" if "block_flags fl" for y fl :: u64
    using that block_flags_bit[OF that, of 7] by (auto simp: bit_simps block_flags_def)
  have idx: "unat (drop_bit 21 x) = unat x div 0x200000" for x :: u64 using unat_drop[of 21 x] by simp
  have kern: "\<exists>e. translate ?s x = Inr (e, x) \<and> translate ?s (high_mem + x) = Inr (e, x) \<and> bit e 10 \<and> \<not> bit e 7" if "x < kernel_size" for x
  proof -
    have x: "unat x < unat kernel_size" using that by (simp add: word_less_nat_alt)
    then have "unat (drop_bit 21 x) < kernel_blocks kernel_size" unfolding kernel_blocks_less idx
      by (meson div_times_less_eq_dividend le_less_trans mult.commute order_refl times_div_less_eq_dividend)
    then have b: "pm6 (level2 + 8 * of_nat (unat (drop_bit 21 x))) = of_nat (0x200000 * unat (drop_bit 21 x)) OR 1025" by (rule blk)
    have "x < 2 ^ 30" using x ks by (simp add: word_less_nat_alt)
    then show ?thesis using tr[of 0 x 1025] tr[of high_mem x 1025] b fl[of 1025] by (simp add: half_def block_flags_def)
  qed
  have devs: "\<exists>e. translate ?s (high_mem + x) = Inr (e, x) \<and> bit e 10 \<and> \<not> bit e 7" if "0x3F000000 \<le> x \<and> x < 0x3F400000" for x
  proof -
    have x: "0x3F000000 \<le> unat x" "unat x < 0x3F400000" using that by (simp_all add: word_less_nat_alt word_le_nat_alt)
    have "504 \<le> unat x div 0x200000" "unat x div 0x200000 < 506" using x by (simp_all add: less_eq_div_iff_mult_less_eq div_less_iff_less_mult)
    then have "unat (drop_bit 21 x) = 504 \<or> unat (drop_bit 21 x) = 505" unfolding idx by linarith
    then have b: "pm6 (level2 + 8 * of_nat (unat (drop_bit 21 x))) = of_nat (0x200000 * unat (drop_bit 21 x)) OR 1029" by (rule dev)
    have "x < 2 ^ 30" using x by (simp add: word_less_nat_alt)
    then show ?thesis using tr[of high_mem x 1029] b fl[of 1029] by (simp add: half_def block_flags_def)
  qed
  show ?thesis using run self s kern devs by (intro exI[of _ ?c]) auto
qed

theorem boot_tables_map_kernel_witness:
  "\<exists>c' e. mmu_init \<lparr>boot_mem = (\<lambda>_. 0), TTBR0_EL1 = 0, TTBR1_EL1 = 0, MAIR_EL1 = 0, TCR_EL1 = 0, SCTLR_EL1 = 0\<rparr> 5 0x2000000 0x81000 0x82000 0x83000 = Some c'
     \<and> translate (booted c' sample_pool) (high_mem + 0x80000) = Inr (e, 0x80000)"
proof -
  have "is_frame 0x81000" "is_frame 0x82000" "is_frame 0x83000" by code_simp+
  from boot_tables_map_kernel[OF this, of "0x2000000"
      "\<lparr>boot_mem = (\<lambda>_. 0), TTBR0_EL1 = 0, TTBR1_EL1 = 0, MAIR_EL1 = 0, TCR_EL1 = 0, SCTLR_EL1 = 0\<rparr>" 5 sample_pool]
  obtain c' where "mmu_init \<lparr>boot_mem = (\<lambda>_. 0), TTBR0_EL1 = 0, TTBR1_EL1 = 0, MAIR_EL1 = 0, TCR_EL1 = 0, SCTLR_EL1 = 0\<rparr> 5 0x2000000 0x81000 0x82000 0x83000 = Some c'"
    "\<forall>x < 0x2000000. \<exists>e. translate (booted c' sample_pool) x = Inr (e, x) \<and> translate (booted c' sample_pool) (high_mem + x) = Inr (e, x)
       \<and> bit e 10 \<and> \<not> bit e 7" by auto
  moreover have "(0x80000 :: u64) < 0x2000000" by simp
  ultimately show ?thesis by blast
qed

end
