(* ===== verification/Spec2Isabelle.thy ===== *)
theory Spec2Isabelle
  imports Memory_Map Util_Math Page_Allocator_Init Bst_Map Pipe Uart Process_Args Kernel_Sched Mmu_Correct
    Heap_Free Heap_Realloc Vector Fat_Alloc Syscall_Abi Linked_List Boot Bootstrap
begin

text \<open>
  \<^bold>\<open>Verification of the cros kernel.\<close>

  The program is a small kernel for AArch64. The entry code sets up translation tables
  (\<^verbatim>\<open>src/aarch64/bootstrap.cpp\<close>) and calls \<open>aarch64_boot\<close> (\<^verbatim>\<open>src/aarch64/aarch64.cpp\<close>), which builds a map of the physical memory
  (\<^verbatim>\<open>src/memory/memorymap.cpp\<close>), an allocator of page frames (\<^verbatim>\<open>src/memory/pageallocator.cpp\<close>) and a heap
  (\<^verbatim>\<open>src/memory/heap.cpp\<close>), opens the FAT32 file system in the RAM disk (\<^verbatim>\<open>src/fs/fat32\<close>) and executes the first program
  (\<^verbatim>\<open>src/loader/elf.cpp\<close>). From then on the kernel runs in system calls (\<^verbatim>\<open>src/kernel.cpp\<close>), timer and UART interrupts
  (\<^verbatim>\<open>src/aarch64/irq/irq.cpp\<close>) and page faults (\<^verbatim>\<open>src/memory/aarch64/mmu.cpp\<close>). Processes (\<^verbatim>\<open>src/sched/process.cpp\<close>) lie in a search
  tree by pid (\<^verbatim>\<open>src/containers/binary_search_tree.h\<close>), wait in a queue (\<^verbatim>\<open>src/sched/queue.cpp\<close>), and share file contexts: pipes
  (\<^verbatim>\<open>src/fs/pipe.cpp\<close>), the UART (\<^verbatim>\<open>src/devices/uart.cpp\<close>) and files.

  \<^bold>\<open>Conventions.\<close> Machine integers are words of their width (\<open>u8\<close>, \<open>u16\<close>, \<open>u32\<close>, \<open>u64\<close>), so that arithmetic wraps around as in
  the code; an \<open>int\<close> that cannot overflow on the inputs considered is an \<open>int\<close>. An operation that can go wrong in a way the language
  leaves undefined (a null or dangling pointer, an index outside of an array, a division by zero, a loop that does not end)
  returns an option whose value \<open>None\<close> stands for it, and so does a halt of the processor unless a type says
  otherwise; errors that the code reports are the values it returns. So a theorem that an operation is
  \<open>Some\<close> of something says that it returns and is memory safe. Objects on the heap lie in stores with a
  counter of unused addresses: \<open>new\<close> of a single object succeeds, while \<open>rmalloc\<close> and \<open>new\<close> of arrays go through
  the model of the heap. Memory has three views that do not alias: bytes by virtual address (\<open>world\<close>), the words of the heap
  with its headers (\<open>Heap\<close>), and physical memory as far as it holds translation tables (\<open>Mmu\<close>). Device and system registers
  that the code reads are arguments, those it writes are fields of a state.

  \<^bold>\<open>The theories\<close>, in the order in which they build on each other:

  \<^item> \<open>Cros_Prelude\<close>: the machine types, \<open>error_t\<close> of \<^verbatim>\<open>include/types/status.h\<close>, lemmas on words, lists and options.
    \<open>Util_Math\<close>: the logarithms of \<^verbatim>\<open>src/util/math.h\<close> and the helpers of \<^verbatim>\<open>src/containers/math.h\<close>.
  \<^item> \<open>Memory_Map\<close>: the regions of memory. \<open>place\<close> keeps the map sorted and disjoint, and gives every address the higher of its types,
    when the placed region overlaps none of a higher type.
  \<^item> \<open>Page_Allocator\<close>, \<open>Page_Allocator_Correct\<close>, \<open>Page_Allocator_Init\<close>: the buddy allocator in its two arrays. The invariant says
    which blocks the circular lists hold; \<open>reserve\<close> returns the smallest block that is large enough, the interface
    \<open>page_pool\<close> gives that no page is lost or handed out twice, and the constructor frees the whole pages of
    the available regions.
  \<^item> \<open>Bst\<close>, \<open>Bst_Correct\<close>, \<open>Bst_Map\<close>: the search tree with its rotations over a store of nodes. Insertion and removal act on the sorted
    list of entries; the interface \<open>keyed_store\<close> is the map that clients see; iteration ends.
  \<^item> \<open>Linked_List\<close>: the doubly linked list, which refines a sequence through the interface \<open>sequence_store\<close>.
    \<open>Cstring\<close> and \<open>Vector\<close>: the string class and the vector refine texts and lists.
  \<^item> \<open>Ring_Buffer\<close>, \<open>Pipe\<close>, \<open>Uart\<close>: the ring buffers of pipes and of the UART share the interface \<open>ring_reader\<close>; a pipe is a lossless
    bounded queue.
  \<^item> \<open>Log\<close>: \<^verbatim>\<open>src/util/log.cpp\<close>, and the copy of it in the bootstrap. Numbers are printed within the buffer; a format that matches its
    arguments is put out without reading beyond either.
  \<^item> \<open>Sched_Queue\<close>: the queue of the scheduler behind the interface \<open>fifo\<close>; task switches run the processes in turn.
  \<^item> \<open>Context\<close>: saved registers, the user stack and the string routines of \<^verbatim>\<open>src/util/string.cpp\<close>.
  \<^item> \<open>Mmu\<close>, \<open>Mmu_Correct\<close>, \<open>Map_Region\<close>: descriptors, the walk of the processor, the self-mapped tables and the page fault handler that fills in
    missing tables, and the mapping of pages and regions. \<open>Bootstrap\<close>: the first tables.
  \<^item> \<open>Heap\<close>, \<open>Heap_Correct\<close>, \<open>Heap_List\<close>, \<open>Heap_Alloc\<close>, \<open>Heap_Free\<close>, \<open>Heap_Realloc\<close>: the heap as blocks that tile a region, with the free list
    through them. Allocation is next fit and keeps the invariant and every payload; so does a release between used blocks.
  \<^item> \<open>Fat_Disk\<close>, \<open>Fat_Entry\<close>, \<open>Fat_Write\<close>, \<open>Fat32\<close>: the file system over a RAM disk; \<open>Fat_Names\<close>, \<open>Fat_Correct\<close>, \<open>Fat_Alloc\<close>: long
    names are read back, data written is read back, chains of clusters, allocation of a cluster.
  \<^item> \<open>File_Context\<close>, \<open>Process\<close>, \<open>Process_Files\<close>, \<open>Process_Args\<close>: the objects that processes share with their reference counts, processes, their file
    tables and signals, and the arguments on the stack of a new program.
  \<^item> \<open>Kernel\<close>, \<open>Kernel_Sched\<close>: the kernel object and the system calls on processes, signals and files. \<open>Loader\<close>: program images.
    \<open>System\<close>, \<open>System_Correct\<close>: the kernel with its memory: \<open>mmap\<close>, \<open>munmap\<close>, \<open>open\<close>, \<open>exec\<close>, \<open>printk\<close>, the initialisation and the table of
    system calls. \<open>Syscall_Abi\<close>: the wrappers that programs use reach their handlers.
  \<^item> \<open>Irq\<close>, \<open>Irq_Correct\<close>: interrupts and exceptions; the timer preempts. \<open>Boot\<close>: the boot sequence; which frames the allocator has after it.

  \<^bold>\<open>Fuel and bounds.\<close> Loops are recursive functions with a termination proof; a loop that may run for ever is a partial function to
  option, and the theorems show that it returns. The depth of the directory tree is the only fuel: \<open>Entry_init\<close> takes it
  as an argument \<open>depth\<close>, and a tree that is deeper, or a directory that contains itself, is \<open>None\<close>. What memory holds where the
  code builds an object without initialising all of it is an argument (\<open>junk\<close>, \<open>old\<close>, \<open>blocks\<close>).

  \<^bold>\<open>Restrictions of the theorems.\<close> \<open>place\<close> is wrong for a region that overlaps several of higher types, a
  release that merges blocks leaves a stale pointer, and allocating several clusters at once takes the same one twice; the
  theorems about them have the hypotheses under which the code is right, and other lemmas show what goes wrong without
  them. \<open>mmap\<close> and \<open>munmap\<close> are shown for regions within one block of two megabytes, the loader for one section, a read of a file for one
  sector.

  \<^bold>\<open>Not modelled.\<close> Assembly (the entry, the exception vectors, the switch of registers, the trap), the TLB and caches, the setup of the serial
  port, and interleavings within the kernel, which runs with interrupts disabled. Messages on the log are modelled in the system calls
  and the boot sequence, not in the UART driver, the page fault handler, the file contexts of FAT32 and \<open>mmu_init\<close>. The
  destructors of file system objects, the functions that dump the disk and the test function of \<^verbatim>\<open>src/fs/fat32/fs_helpers.cpp\<close>,
  the \<open>to_string\<close> functions of the templates and \<open>remove\<close> of the vector, which do not compile for the element types in use, are
  left out, and so are \<^verbatim>\<open>src/containers/hashmap.h\<close>, which nothing instantiates, and \<^verbatim>\<open>src/devices/disk_driver.c++\<close>, which is not
  built.
\<close>

end
